(* ===== verification/Prelude.thy ===== *)
theory Prelude
  imports Main "HOL-Library.Word"
begin

text \<open>
  Shared vocabulary of the development.

  The sources are C++ headers that guard themselves with \<^verbatim>\<open>RTC_DCHECK\<close>/\<^verbatim>\<open>DCHECK\<close>
  (fatal in a debug build), \<^verbatim>\<open>RTC_CHECK\<close> (always fatal) and that can run into behaviour
  the language leaves undefined (signed overflow, an oversized shift, a read of storage that
  holds no object).  Each of the three is a \<open>fault\<close>, and an operation that can meet one
  returns an \<open>outcome\<close>: \<open>Inl\<close> the fault or \<open>Inr\<close> the value.  A loop whose end depends on the
  data runs on a number of steps given to it and ends in \<open>Out_of_fuel\<close> when they are used up;
  that it returns is part of the theorems about it.  The model is the
  debug build; where a theorem shows that no fault occurs, the release build, which only
  drops the checks, computes the same value.

  The theory also fixes the integer vocabulary: the bounds of a w-bit signed integer, the
  checked signed results, and the division that truncates towards zero.
\<close>

section \<open>Faults and outcomes\<close>

datatype fault = Dcheck_failed | Check_failed | Undefined_behaviour | Out_of_fuel

type_synonym 'a outcome = "fault + 'a"

definition dcheck :: "bool \<Rightarrow> 'a outcome \<Rightarrow> 'a outcome" where
  "dcheck b k = (if b then k else Inl Dcheck_failed)"

definition rtc_check :: "bool \<Rightarrow> 'a outcome \<Rightarrow> 'a outcome" where
  "rtc_check b k = (if b then k else Inl Check_failed)"

definition defined_if :: "bool \<Rightarrow> 'a outcome \<Rightarrow> 'a outcome" where
  "defined_if b k = (if b then k else Inl Undefined_behaviour)"

definition and_then :: "'a outcome \<Rightarrow> ('a \<Rightarrow> 'b outcome) \<Rightarrow> 'b outcome" where
  "and_then m f = (case m of Inl e \<Rightarrow> Inl e | Inr x \<Rightarrow> f x)"

definition map_outcome :: "('a \<Rightarrow> 'b) \<Rightarrow> 'a outcome \<Rightarrow> 'b outcome" where
  "map_outcome f m = and_then m (\<lambda>x. Inr (f x))"

text \<open>An operation run over a list of inputs, stopping at the first fault.\<close>

fun run_all :: "('s \<Rightarrow> 'v \<Rightarrow> ('r \<times> 's) outcome) \<Rightarrow> 's \<Rightarrow> 'v list \<Rightarrow> ('r list \<times> 's) outcome" where
  "run_all step s [] = Inr ([], s)"
| "run_all step s (v # vs) =
     and_then (step s v) (\<lambda>(r, s').
       and_then (run_all step s' vs) (\<lambda>(rs, s''). Inr (r # rs, s'')))"

section \<open>Signed integers of a fixed width\<close>

text \<open>
  A signed w-bit integer is an \<open>int\<close>; an arithmetic result outside the type's range is
  undefined behaviour.
\<close>

definition smin :: "nat \<Rightarrow> int" where
  "smin w = - (2 ^ (w - 1))"

definition smax :: "nat \<Rightarrow> int" where
  "smax w = 2 ^ (w - 1) - 1"

definition fits_signed :: "nat \<Rightarrow> int \<Rightarrow> bool" where
  "fits_signed w x \<longleftrightarrow> smin w \<le> x \<and> x \<le> smax w"

definition signed_result :: "nat \<Rightarrow> int \<Rightarrow> int outcome" where
  "signed_result w x = defined_if (fits_signed w x) (Inr x)"

abbreviation i64_min :: int where "i64_min \<equiv> smin 64"
abbreviation i64_max :: int where "i64_max \<equiv> smax 64"
abbreviation i64 :: "int \<Rightarrow> int outcome" where "i64 \<equiv> signed_result 64"

text \<open>Division and remainder of C++, which truncate towards zero.\<close>

definition tdiv :: "int \<Rightarrow> int \<Rightarrow> int" where
  "tdiv a b = sgn a * sgn b * (\<bar>a\<bar> div \<bar>b\<bar>)"

definition tmod :: "int \<Rightarrow> int \<Rightarrow> int" where
  "tmod a b = a - tdiv a b * b"

section \<open>Automation\<close>

named_theorems outcome_simps "rewriting of outcomes"
named_theorems int_bounds "the bounds of the signed types, as numerals"

lemma dcheck_True [simp]: "dcheck True k = k"
  by (simp add: dcheck_def)

lemma rtc_check_True [simp]: "rtc_check True k = k"
  by (simp add: rtc_check_def)

lemma defined_if_True [simp]: "defined_if True k = k"
  by (simp add: defined_if_def)

lemma dcheck_False [simp]: "dcheck False k = Inl Dcheck_failed"
  by (simp add: dcheck_def)

lemma rtc_check_False [simp]: "rtc_check False k = Inl Check_failed"
  by (simp add: rtc_check_def)

lemma defined_if_False [simp]: "defined_if False k = Inl Undefined_behaviour"
  by (simp add: defined_if_def)

lemma dcheck_Inr [outcome_simps]: "dcheck b k = Inr x \<longleftrightarrow> b \<and> k = Inr x"
  by (simp add: dcheck_def)

lemma rtc_check_Inr [outcome_simps]: "rtc_check b k = Inr x \<longleftrightarrow> b \<and> k = Inr x"
  by (simp add: rtc_check_def)

lemma defined_if_Inr [outcome_simps]: "defined_if b k = Inr x \<longleftrightarrow> b \<and> k = Inr x"
  by (simp add: defined_if_def)

lemma and_then_Inr_eq [outcome_simps]:
  "and_then m f = Inr y \<longleftrightarrow> (\<exists>x. m = Inr x \<and> f x = Inr y)"
  by (cases m) (simp_all add: and_then_def)

lemma and_then_simps [simp]:
  "and_then (Inr x) f = f x"
  "and_then (Inl e) f = Inl e"
  by (simp_all add: and_then_def)

lemma and_then_dcheck [simp]:
  "and_then (dcheck b k) f = dcheck b (and_then k f)"
  by (simp add: dcheck_def)

lemma and_then_defined_if [simp]:
  "and_then (defined_if b k) f = defined_if b (and_then k f)"
  by (simp add: defined_if_def)

lemma and_then_cong [fundef_cong]:
  "m = n \<Longrightarrow> (\<And>x. n = Inr x \<Longrightarrow> f x = g x) \<Longrightarrow> and_then m f = and_then n g"
  by (cases n) simp_all

lemma map_outcome_simps [simp]:
  "map_outcome f (Inr x) = Inr (f x)"
  "map_outcome f (Inl e) = Inl e"
  by (simp_all add: map_outcome_def)

lemma map_outcome_Inr_eq [outcome_simps]:
  "map_outcome f m = Inr y \<longleftrightarrow> (\<exists>x. m = Inr x \<and> y = f x)"
  by (cases m) auto

lemma signed_result_Inr [outcome_simps]:
  "signed_result w x = Inr y \<longleftrightarrow> fits_signed w x \<and> y = x"
  by (auto simp: signed_result_def defined_if_def)

lemma signed_result_fits [simp]: "fits_signed w x \<Longrightarrow> signed_result w x = Inr x"
  by (simp add: signed_result_def)

lemma signed_result_overflows [simp]:
  "\<not> fits_signed w x \<Longrightarrow> signed_result w x = Inl Undefined_behaviour"
  by (simp add: signed_result_def)

lemma smin_smax_64 [int_bounds]:
  "smin 64 = - 9223372036854775808" "smax 64 = 9223372036854775807"
  by (simp_all add: smin_def smax_def)

lemma smin_smax_32 [int_bounds]:
  "smin 32 = - 2147483648" "smax 32 = 2147483647"
  by (simp_all add: smin_def smax_def)

lemma smin_smax_16 [int_bounds]:
  "smin 16 = - 32768" "smax 16 = 32767"
  by (simp_all add: smin_def smax_def)

lemma fits_64 [int_bounds]:
  "fits_signed 64 x \<longleftrightarrow> - 9223372036854775808 \<le> x \<and> x \<le> 9223372036854775807"
  by (simp add: fits_signed_def int_bounds)

lemma fits_32 [int_bounds]:
  "fits_signed 32 x \<longleftrightarrow> - 2147483648 \<le> x \<and> x \<le> 2147483647"
  by (simp add: fits_signed_def int_bounds)

lemma fits_16 [int_bounds]:
  "fits_signed 16 x \<longleftrightarrow> - 32768 \<le> x \<and> x \<le> 32767"
  by (simp add: fits_signed_def int_bounds)

subsection \<open>Truncating division\<close>

lemma tdiv_nonneg: "0 \<le> a \<Longrightarrow> 0 < b \<Longrightarrow> tdiv a b = a div b"
  by (cases "a = 0") (simp_all add: tdiv_def)

lemma tdiv_neg: "a \<le> 0 \<Longrightarrow> 0 < b \<Longrightarrow> tdiv a b = - ((- a) div b)"
  by (cases "a = 0") (simp_all add: tdiv_def)

lemma tdiv_uminus: "tdiv (- a) b = - tdiv a b"
  by (simp add: tdiv_def)

lemma abs_tdiv_le: "0 < b \<Longrightarrow> \<bar>tdiv a b\<bar> \<le> \<bar>a\<bar>"
proof -
  assume "0 < b"
  then have "\<bar>a\<bar> div \<bar>b\<bar> \<le> \<bar>a\<bar>" and "0 \<le> \<bar>a\<bar> div \<bar>b\<bar>"
    using zdiv_mono2 [of "\<bar>a\<bar>" 1 "\<bar>b\<bar>"] by (simp_all add: pos_imp_zdiv_nonneg_iff)
  with \<open>0 < b\<close> show ?thesis
    by (auto simp: tdiv_def abs_mult sgn_if)
qed

subsection \<open>Remainders of values near the window\<close>

lemma mod_in_window: "0 \<le> x \<Longrightarrow> x < m \<Longrightarrow> x mod m = x" for x m :: int
  by simp

lemma mod_below_window: "x < 0 \<Longrightarrow> - m \<le> x \<Longrightarrow> x mod m = x + m" for x m :: int
  using mod_pos_pos_trivial [of "x + m" m] by simp

lemma mod_above_window: "m \<le> x \<Longrightarrow> x < 2 * m \<Longrightarrow> x mod m = x - m" for x m :: int
  using mod_pos_pos_trivial [of "x - m" m] by (simp add: mod_diff_eq [symmetric])

subsection \<open>Runs\<close>

lemma run_all_append:
  "run_all step s (us @ vs) =
     and_then (run_all step s us) (\<lambda>(rs, s').
       and_then (run_all step s' vs) (\<lambda>(rs', s''). Inr (rs @ rs', s'')))"
proof (induction us arbitrary: s)
  case Nil
  show ?case by (cases "run_all step s vs") auto
next
  case (Cons u us)
  show ?case
  proof (cases "step s u")
    case (Inr p)
    then obtain r s' where p: "step s u = Inr (r, s')" by (cases p) auto
    show ?thesis
    proof (cases "run_all step s' us")
      case (Inr q)
      then obtain rs t where q: "run_all step s' us = Inr (rs, t)" by (cases q) auto
      with p show ?thesis
        by (cases "run_all step t vs") (auto simp: Cons.IH)
    qed (simp add: p Cons.IH)
  qed simp
qed

end
