(* ===== verification/Mod_Ops.thy ===== *)
theory Mod_Ops
  imports Prelude
begin

text \<open>
  \<^verbatim>\<open>rtc_base/numerics/mod_ops.h\<close>: addition, subtraction and distances of numbers that wrap at
  a modulus \<open>M\<close>, or at the width of their type when \<open>M = 0\<close>.  The unsigned type \<open>T\<close> is
  \<open>'a word\<close>; the two \<^verbatim>\<open>enable_if\<close> overloads of each function are one definition each and the
  template dispatch on \<open>M\<close> is the definition that carries the source's name.
\<close>

section \<open>Definitions\<close>

definition Add :: "'a::len word \<Rightarrow> 'a word \<Rightarrow> 'a word \<Rightarrow> 'a word outcome" where
  "Add M a b = dcheck (a < M)
     (let t = M - b mod M;
          res = a - t
      in if t > a then Inr (res + M) else Inr res)"

definition Subtract :: "'a::len word \<Rightarrow> 'a word \<Rightarrow> 'a word \<Rightarrow> 'a word outcome" where
  "Subtract M a b = dcheck (a < M)
     (let sub = b mod M
      in if a < sub then Inr (M - (sub - a)) else Inr (a - sub))"

definition ForwardDiff_mod :: "'a::len word \<Rightarrow> 'a word \<Rightarrow> 'a word \<Rightarrow> 'a word outcome" where
  "ForwardDiff_mod M a b = dcheck (a < M) (dcheck (b < M)
     (Inr (if a \<le> b then b - a else M - (a - b))))"

definition ForwardDiff_wrap :: "'a::len word \<Rightarrow> 'a word \<Rightarrow> 'a word" where
  "ForwardDiff_wrap a b = b - a"

definition ForwardDiff :: "'a::len word \<Rightarrow> 'a word \<Rightarrow> 'a word \<Rightarrow> 'a word outcome" where
  "ForwardDiff M a b = (if M > 0 then ForwardDiff_mod M a b else Inr (ForwardDiff_wrap a b))"

definition ReverseDiff_mod :: "'a::len word \<Rightarrow> 'a word \<Rightarrow> 'a word \<Rightarrow> 'a word outcome" where
  "ReverseDiff_mod M a b = dcheck (a < M) (dcheck (b < M)
     (Inr (if b \<le> a then a - b else M - (b - a))))"

definition ReverseDiff_wrap :: "'a::len word \<Rightarrow> 'a word \<Rightarrow> 'a word" where
  "ReverseDiff_wrap a b = a - b"

definition ReverseDiff :: "'a::len word \<Rightarrow> 'a word \<Rightarrow> 'a word \<Rightarrow> 'a word outcome" where
  "ReverseDiff M a b = (if M > 0 then ReverseDiff_mod M a b else Inr (ReverseDiff_wrap a b))"

definition MinDiff :: "'a::len word \<Rightarrow> 'a word \<Rightarrow> 'a word \<Rightarrow> 'a word outcome" where
  "MinDiff M a b = and_then (ForwardDiff M a b) (\<lambda>f.
     and_then (ReverseDiff M a b) (\<lambda>r. Inr (min f r)))"

text \<open>The number at which values of a type with template argument \<open>M\<close> wrap.\<close>

definition modulus :: "'a::len word \<Rightarrow> int" where
  "modulus M = (if M = 0 then 2 ^ LENGTH('a) else uint M)"

definition in_modulus :: "'a::len word \<Rightarrow> 'a word \<Rightarrow> bool" where
  "in_modulus M a \<longleftrightarrow> M = 0 \<or> a < M"

section \<open>The operations as arithmetic modulo the modulus\<close>

lemma modulus_pos [simp]: "0 < modulus M"
  by (auto simp: modulus_def word_neq_0_conv word_less_def)

lemma modulus_le: "modulus (M :: 'a::len word) \<le> 2 ^ LENGTH('a)"
  by (simp add: modulus_def less_imp_le)

lemma in_modulus_uint: "in_modulus M a \<longleftrightarrow> uint a < modulus M"
  by (auto simp: in_modulus_def modulus_def word_less_def)

lemma uint_sub_lt: "b \<le> a \<Longrightarrow> uint (a - b :: 'a::len word) = uint a - uint b"
  by (simp add: uint_sub_if' word_le_def)

lemma ForwardDiff_eq:
  assumes "in_modulus M a" "in_modulus M b"
  shows "\<exists>d. ForwardDiff M a b = Inr d \<and> uint d = (uint b - uint a) mod modulus M"
proof (cases "M = 0")
  case True
  then show ?thesis
    by (simp add: ForwardDiff_def ForwardDiff_wrap_def modulus_def uint_word_ariths)
next
  case False
  then have lt: "a < M" "b < M" using assms by (simp_all add: in_modulus_def)
  have "uint (if a \<le> b then b - a else M - (a - b)) = (uint b - uint a) mod uint M"
  proof (cases "a \<le> b")
    case True
    then have "uint b - uint a < uint M"
      using lt uint_ge_0 [of a] unfolding word_less_def by linarith
    with True show ?thesis
      by (simp add: uint_sub_lt word_le_def mod_in_window)
  next
    case False
    then have ba: "b \<le> a" and "uint b < uint a" by (simp_all add: word_le_def)
    have "uint a - uint b \<le> uint M"
      using lt uint_ge_0 [of b] unfolding word_less_def by linarith
    then have "a - b \<le> M"
      using ba by (simp add: word_le_def uint_sub_lt)
    then have "uint (M - (a - b)) = uint M + (uint b - uint a)"
      using ba by (simp add: uint_sub_lt)
    also have "\<dots> = (uint b - uint a) mod uint M"
      using \<open>uint a - uint b \<le> uint M\<close> \<open>uint b < uint a\<close> by (simp add: mod_below_window)
    finally show ?thesis using False by simp
  qed
  moreover have "0 < M" using False by (simp add: word_neq_0_conv)
  ultimately show ?thesis
    using False lt by (simp add: ForwardDiff_def ForwardDiff_mod_def modulus_def)
qed

lemma ReverseDiff_ForwardDiff:
  assumes "in_modulus M a" "in_modulus M b"
  shows "ReverseDiff M a b = ForwardDiff M b a"
  using assms
  by (auto simp: ReverseDiff_def ForwardDiff_def ReverseDiff_mod_def ForwardDiff_mod_def
      ReverseDiff_wrap_def ForwardDiff_wrap_def in_modulus_def)

lemma ForwardDiffE:
  assumes "in_modulus M a" "in_modulus M b"
  obtains d where "ForwardDiff M a b = Inr d" "uint d = (uint b - uint a) mod modulus M"
  using ForwardDiff_eq [OF assms] by blast

text \<open>
  The minimum distance is the distance on the circle of \<open>modulus M\<close> points.
\<close>

lemma MinDiff_eq:
  assumes "in_modulus M a" "in_modulus M b"
  shows "\<exists>d. MinDiff M a b = Inr d \<and>
    uint d = min ((uint b - uint a) mod modulus M) ((uint a - uint b) mod modulus M)"
proof -
  obtain f where f: "ForwardDiff M a b = Inr f" "uint f = (uint b - uint a) mod modulus M"
    using assms by (rule ForwardDiffE)
  obtain r where r: "ForwardDiff M b a = Inr r" "uint r = (uint a - uint b) mod modulus M"
    using assms(2,1) by (rule ForwardDiffE)
  show ?thesis
    using assms f r by (simp add: MinDiff_def ReverseDiff_ForwardDiff min_def word_le_def)
qed

lemma opposite_distances:
  fixes x y m :: int
  assumes "0 < m" "0 \<le> x" "x < m" "0 \<le> y" "y < m" "x \<noteq> y"
  shows "(x - y) mod m + (y - x) mod m = m"
proof (cases "x < y")
  case True
  with assms show ?thesis by (simp add: mod_below_window mod_in_window)
next
  case False
  with assms show ?thesis by (simp add: mod_below_window mod_in_window)
qed

subsection \<open>Addition and subtraction\<close>

lemma Add_correct:
  assumes "a < M"
  shows "\<exists>r. Add M a b = Inr r \<and> uint r = (uint a + uint b) mod uint M"
proof -
  have M: "0 < uint M" using assms by (metis uint_ge_0 order_le_less_trans word_less_def)
  define s where "s = uint b mod uint M"
  have s: "0 \<le> s" "s < uint M" using M by (simp_all add: s_def)
  have bm: "uint (b mod M) = s" by (simp add: s_def uint_mod)
  have t: "uint (M - b mod M) = uint M - s"
    using s by (simp add: uint_sub_lt word_le_def bm)
  have a: "uint a < uint M" using assms by (simp add: word_less_def)
  have sum: "(uint a + uint b) mod uint M = (uint a + s) mod uint M"
    by (simp add: s_def mod_add_right_eq)
  show ?thesis
  proof (cases "M - b mod M > a")
    case True
    then have "uint a + s < uint M" by (simp add: word_less_def t)
    moreover have "a - (M - b mod M) + M = a + b mod M" by simp
    moreover have "uint (a + b mod M) = uint a + s"
      using less_trans [OF \<open>uint a + s < uint M\<close> uint_lt2p [of M]]
      by (simp add: uint_plus_if' bm)
    ultimately show ?thesis
      using True assms s by (simp add: Add_def sum mod_in_window)
  next
    case False
    then have "uint M \<le> uint a + s" by (simp add: word_less_def t)
    then have "uint (a - (M - b mod M)) = (uint a + s) mod uint M"
      using s a False by (simp add: uint_sub_lt t mod_above_window not_less)
    then show ?thesis
      using False assms by (simp add: Add_def sum)
  qed
qed

lemma Subtract_correct:
  assumes "a < M"
  shows "\<exists>r. Subtract M a b = Inr r \<and> uint r = (uint a - uint b) mod uint M"
proof -
  have M: "0 < uint M" using assms by (metis uint_ge_0 order_le_less_trans word_less_def)
  define s where "s = uint b mod uint M"
  have s: "0 \<le> s" "s < uint M" using M by (simp_all add: s_def)
  have bm: "uint (b mod M) = s" by (simp add: s_def uint_mod)
  have a: "uint a < uint M" using assms by (simp add: word_less_def)
  have diff: "(uint a - uint b) mod uint M = (uint a - s) mod uint M"
    by (simp add: s_def mod_diff_right_eq)
  show ?thesis
  proof (cases "a < b mod M")
    case True
    then have "uint a < s" by (simp add: word_less_def bm)
    moreover from this have "uint (b mod M - a) = s - uint a"
      by (simp add: uint_sub_lt word_le_def bm)
    moreover have "s - uint a \<le> uint M"
      using s uint_ge_0 [of a] by linarith
    ultimately have "uint (M - (b mod M - a)) = (uint a - s) mod uint M"
      using s a by (simp add: uint_sub_lt word_le_def mod_below_window)
    then show ?thesis using True assms by (simp add: Subtract_def diff)
  next
    case False
    then have "uint (a - b mod M) = (uint a - s) mod uint M"
      using s a by (simp add: uint_sub_lt word_le_def word_less_def bm not_less mod_in_window)
    then show ?thesis using False assms by (simp add: Subtract_def diff)
  qed
qed

text \<open>
  C27: \<open>Add<M>\<close> and \<open>Subtract<M>\<close> never fault on a first argument below the modulus, whatever the
  second one is; they compute the sum and the difference modulo \<open>M\<close> without overflow, and
  subtracting what was added gives the first argument back.
\<close>

theorem Add_Subtract_correct:
  assumes "a < M"
  shows "\<exists>s d. Add M a b = Inr s \<and> uint s = (uint a + uint b) mod uint M \<and>
    Subtract M a b = Inr d \<and> uint d = (uint a - uint b) mod uint M \<and>
    Subtract M s b = Inr a"
proof -
  obtain s where s: "Add M a b = Inr s" "uint s = (uint a + uint b) mod uint M"
    using Add_correct [OF assms] by blast
  obtain d where d: "Subtract M a b = Inr d" "uint d = (uint a - uint b) mod uint M"
    using Subtract_correct [OF assms] by blast
  have lt: "uint a < uint M" using assms by (simp add: word_less_def)
  then have "0 < uint M" using uint_ge_0 [of a] by linarith
  then have "s < M" using s(2) by (simp add: word_less_def)
  then obtain e where e: "Subtract M s b = Inr e" "uint e = (uint s - uint b) mod uint M"
    using Subtract_correct by blast
  have "uint e = uint a"
    using e(2) s(2) lt by (simp add: mod_diff_left_eq mod_in_window)
  then have "e = a" by (simp add: word_uint_eq_iff)
  with s d e show ?thesis by blast
qed

theorem Add_Subtract_correct_witness:
  "Add (10 :: 8 word) 7 255 = Inr 2 \<and> Subtract (10 :: 8 word) 2 255 = Inr 7"
proof -
  have "(7 :: 8 word) < 10" by simp
  from Add_Subtract_correct [OF this, of 255] show ?thesis
    by (simp add: Add_def Subtract_def)
qed

end
