(* ===== verification/Seq_Num.thy ===== *)
theory Seq_Num
  imports Mod_Ops
begin

unbundle bit_operations_syntax

text \<open>
  \<^verbatim>\<open>rtc_base/numerics/sequence_number_util.h\<close>: the order of wrapping sequence numbers and
  \<^verbatim>\<open>SeqNumUnwrapper\<close>.  The comparison \<open>a - b == maxDist\<close> of the overload for \<open>M = 0\<close> is made
  after the integer promotions: for a type narrower than \<^verbatim>\<open>int\<close> (32 bits on the targets of the
  library) the difference is a signed number, for the others it wraps.

  The interface \<open>circular_order\<close> states what a comparison of wrapping numbers promises and
  \<open>stream_unwrapper\<close> what an unwrapper promises; both are interpreted here on the definitions of
  this header and again in \<open>Common_Types\<close> on those of \<^verbatim>\<open>module_common_types_public.h\<close>.
\<close>

section \<open>Definitions\<close>

definition promoted_diff_eq :: "'a::len word \<Rightarrow> 'a word \<Rightarrow> 'a word \<Rightarrow> bool" where
  "promoted_diff_eq a b d =
     (if LENGTH('a) < 32 then uint a - uint b = uint d else a - b = d)"

definition AheadOrAt_mod :: "'a::len word \<Rightarrow> 'a word \<Rightarrow> 'a word \<Rightarrow> bool outcome" where
  "AheadOrAt_mod M a b =
     (let maxDist = M div 2;
          otherwise = and_then (ForwardDiff M b a) (\<lambda>f. Inr (f \<le> maxDist))
      in if M AND 1 = 0
         then and_then (MinDiff M a b) (\<lambda>d. if d = maxDist then Inr (b < a) else otherwise)
         else otherwise)"

definition maxDist_wrap :: "'a::len word" where
  "maxDist_wrap = (- 1) div 2 + 1"

definition AheadOrAt_wrap :: "'a::len word \<Rightarrow> 'a word \<Rightarrow> bool" where
  "AheadOrAt_wrap a b =
     (if promoted_diff_eq a b maxDist_wrap then b < a else ForwardDiff_wrap b a < maxDist_wrap)"

definition AheadOrAt :: "'a::len word \<Rightarrow> 'a word \<Rightarrow> 'a word \<Rightarrow> bool outcome" where
  "AheadOrAt M a b = (if M > 0 then AheadOrAt_mod M a b else Inr (AheadOrAt_wrap a b))"

definition AheadOf :: "'a::len word \<Rightarrow> 'a word \<Rightarrow> 'a word \<Rightarrow> bool outcome" where
  "AheadOf M a b = (if a \<noteq> b then AheadOrAt M a b else Inr False)"

definition AscendingSeqNumComp :: "'a::len word \<Rightarrow> 'a word \<Rightarrow> 'a word \<Rightarrow> bool outcome" where
  "AscendingSeqNumComp M a b = AheadOf M a b"

definition DescendingSeqNumComp :: "'a::len word \<Rightarrow> 'a word \<Rightarrow> 'a word \<Rightarrow> bool outcome" where
  "DescendingSeqNumComp M a b = AheadOf M b a"

record 'v SeqNumUnwrapper =
  last_unwrapped :: int
  last_value :: "'v option"

definition SeqNumUnwrapper_init :: "'v SeqNumUnwrapper" where
  "SeqNumUnwrapper_init = \<lparr>last_unwrapped = 0, last_value = None\<rparr>"

definition kBackwardAdjustment :: "'a::len word \<Rightarrow> int" where
  "kBackwardAdjustment M = (if M = 0 then uint (- 1 :: 'a word) + 1 else uint M)"

definition SeqNum_Unwrap ::
  "'a::len word \<Rightarrow> 'a word SeqNumUnwrapper \<Rightarrow> 'a word \<Rightarrow> (int \<times> 'a word SeqNumUnwrapper) outcome" where
  "SeqNum_Unwrap M s v =
     and_then
       (case last_value s of
          None \<Rightarrow> Inr (uint v)
        | Some lv \<Rightarrow>
            and_then (ForwardDiff M lv v) (\<lambda>d.
            and_then (i64 (last_unwrapped s + uint d)) (\<lambda>u.
            and_then (AheadOrAt M v lv) (\<lambda>ahead.
              if \<not> ahead then i64 (u - kBackwardAdjustment M) else Inr u))))
       (\<lambda>u. Inr (u, s\<lparr>last_unwrapped := u, last_value := Some v\<rparr>))"

section \<open>The order on the circle\<close>

text \<open>
  The specification: on a circle of \<open>m\<close> points, \<open>x\<close> is at or ahead of \<open>y\<close> when the way forward
  from \<open>y\<close> to \<open>x\<close> is less than half of the circle, or exactly half and \<open>x\<close> is the larger number.
\<close>

definition circ_ahead :: "int \<Rightarrow> int \<Rightarrow> int \<Rightarrow> bool" where
  "circ_ahead m x y \<longleftrightarrow>
     (let f = (x - y) mod m in 2 * f < m \<or> (2 * f = m \<and> y < x))"

lemma circ_ahead_refl: "0 < m \<Longrightarrow> circ_ahead m x x"
  by (simp add: circ_ahead_def)

lemma circ_ahead_total:
  assumes "0 < m" "0 \<le> x" "x < m" "0 \<le> y" "y < m" "x \<noteq> y"
  shows "circ_ahead m x y \<longleftrightarrow> \<not> circ_ahead m y x"
  using opposite_distances [OF assms] assms(6) by (auto simp: circ_ahead_def Let_def)

lemma circ_ahead_window:
  assumes "0 < m" "0 \<le> i" "2 * i < m" "0 \<le> j" "2 * j < m"
  shows "circ_ahead m ((b + i) mod m) ((b + j) mod m) \<longleftrightarrow> j \<le> i"
proof -
  have f: "((b + i) mod m - (b + j) mod m) mod m = (i - j) mod m"
    by (simp add: mod_diff_eq)
  show ?thesis
  proof (cases "j \<le> i")
    case True
    then have "(i - j) mod m = i - j" using assms by (intro mod_in_window) auto
    with True assms show ?thesis by (auto simp: circ_ahead_def f)
  next
    case False
    then have "(i - j) mod m = i - j + m" using assms by (intro mod_below_window) auto
    with False assms show ?thesis by (auto simp: circ_ahead_def f)
  qed
qed

locale circular_order =
  fixes m :: int
    and val :: "'v \<Rightarrow> int"
    and valid :: "'v \<Rightarrow> bool"
    and ahead :: "'v \<Rightarrow> 'v \<Rightarrow> bool outcome"
  assumes m_pos: "0 < m"
    and val_range: "valid a \<Longrightarrow> 0 \<le> val a \<and> val a < m"
    and val_inj: "val a = val b \<Longrightarrow> a = b"
    and ahead_circ: "valid a \<Longrightarrow> valid b \<Longrightarrow>
      ahead a b = Inr (a \<noteq> b \<and> circ_ahead m (val a) (val b))"
begin

lemma ahead_trichotomy:
  assumes "valid a" "valid b"
  shows "\<exists>p q. ahead a b = Inr p \<and> ahead b a = Inr q \<and> (a = b \<longrightarrow> \<not> p \<and> \<not> q) \<and>
    (a \<noteq> b \<longrightarrow> p \<noteq> q)"
proof (cases "a = b")
  case False
  then have "val a \<noteq> val b" using val_inj by blast
  with assms False show ?thesis
    using circ_ahead_total [OF m_pos, of "val a" "val b"] val_range
    by (auto simp: ahead_circ)
qed (use assms in \<open>auto simp: ahead_circ\<close>)

lemma ahead_window:
  assumes "valid a" "valid b"
    and "val a = (base + i) mod m" "val b = (base + j) mod m"
    and "0 \<le> i" "2 * i < m" "0 \<le> j" "2 * j < m"
  shows "ahead a b = Inr (j < i)"
proof -
  have ab: "circ_ahead m (val a) (val b) \<longleftrightarrow> j \<le> i"
    using assms circ_ahead_window [OF m_pos] by simp
  have ba: "circ_ahead m (val b) (val a) \<longleftrightarrow> i \<le> j"
    using assms circ_ahead_window [OF m_pos] by simp
  have "a = b \<longleftrightarrow> i = j"
  proof
    assume "a = b"
    then show "i = j" using ab ba circ_ahead_refl [OF m_pos] by auto
  qed (use assms val_inj in auto)
  then show ?thesis
    using assms ab by (auto simp: ahead_circ)
qed

end

section \<open>The comparisons of the header\<close>

lemma uint_maxDist_wrap:
  "uint (maxDist_wrap :: 'a::len word) = 2 ^ (LENGTH('a) - 1)"
proof (cases "LENGTH('a) = 1")
  case True
  then have "(maxDist_wrap :: 'a word) = 1" by (simp add: maxDist_wrap_def True)
  then show ?thesis by (simp add: True)
next
  case False
  then obtain k where k: "LENGTH('a) = Suc (Suc k)"
    using len_gt_0 [where 'a = 'a] by (metis One_nat_def not0_implies_Suc less_numeral_extra(3))
  define h where "h = (- 1 :: 'a word) div 2"
  have "uint h = uint (- 1 :: 'a word) div uint (2 :: 'a word)"
    unfolding h_def by (rule uint_div)
  also have "\<dots> = (2 * 2 ^ Suc k - 1) div 2"
    by (simp add: unsigned_minus_1_eq_mask mask_eq_exp_minus_1 k)
  also have "\<dots> = 2 ^ Suc k - 1" by arith
  finally have "uint (h + 1) = 2 ^ Suc k"
    by (simp add: uint_plus_if' k)
  then show ?thesis unfolding maxDist_wrap_def h_def by (simp only: k diff_Suc_1)
qed

lemma uint_div_2: "uint (M div 2 :: 'a::len word) = uint M div 2"
proof (cases "LENGTH('a) = 1")
  case True
  then have "uint M < 2" using uint_lt2p [of M] by simp
  moreover have "(2 :: 'a word) = 0"
    by (rule bit_word_eqI) (simp add: True bit_simps)
  then have "M div 2 = 0" by (simp only: div_by_0)
  ultimately show ?thesis by simp
next
  case False
  then have "uint (2 :: 'a word) = 2"
    using len_gt_0 [where 'a = 'a] by (simp add: Suc_lessI less_eq_Suc_le)
  then show ?thesis by (simp only: uint_div)
qed

lemma AheadOrAt_wrap_circ:
  "AheadOrAt_wrap a b \<longleftrightarrow> circ_ahead (2 ^ LENGTH('a)) (uint a) (uint (b :: 'a::len word))"
proof -
  define h where "h = (2 :: int) ^ (LENGTH('a) - 1)"
  define f where "f = (uint a - uint b) mod 2 ^ LENGTH('a)"
  have m: "2 ^ LENGTH('a) = 2 * h"
    using len_gt_0 [where 'a = 'a] unfolding h_def by (cases "LENGTH('a)") auto
  have fwd: "uint (a - b) = f" by (simp add: f_def uint_word_ariths)
  have half: "uint (maxDist_wrap :: 'a word) = h" unfolding h_def by (rule uint_maxDist_wrap)
  have h: "0 < h" by (simp add: h_def)
  have lt: "b < a \<longleftrightarrow> uint b < uint a" by (simp add: word_less_def)
  have near: "f = uint a - uint b" if "b < a"
    using that uint_lt2p [of a] uint_ge_0 [of b] unfolding f_def lt
    by (intro mod_in_window) linarith+
  have prom: "promoted_diff_eq a b maxDist_wrap \<Longrightarrow> f = h \<and> (LENGTH('a) < 32 \<longrightarrow> b < a)"
    using h m half fwd by (auto simp: promoted_diff_eq_def lt f_def split: if_splits)
  have conv: "f = h \<Longrightarrow> b < a \<Longrightarrow> promoted_diff_eq a b maxDist_wrap"
    using near by (auto simp: promoted_diff_eq_def half word_uint_eq_iff fwd)
  have "circ_ahead (2 ^ LENGTH('a)) (uint a) (uint b) \<longleftrightarrow> f < h \<or> (f = h \<and> b < a)"
    using m by (auto simp: circ_ahead_def Let_def lt f_def)
  moreover have "AheadOrAt_wrap a b \<longleftrightarrow>
      (if promoted_diff_eq a b maxDist_wrap then b < a else f < h)"
    by (simp add: AheadOrAt_wrap_def ForwardDiff_wrap_def word_less_def fwd half)
  ultimately show ?thesis using prom conv by (auto split: if_splits)
qed

lemma AheadOrAt_mod_circ:
  assumes "a < M" "b < M"
  shows "AheadOrAt_mod M a b = Inr (circ_ahead (uint M) (uint a) (uint b))"
proof -
  have M: "M \<noteq> 0" "modulus M = uint M" "in_modulus M a" "in_modulus M b"
    using assms by (auto simp: modulus_def in_modulus_def)
  define f where "f = (uint a - uint b) mod uint M"
  define g where "g = (uint b - uint a) mod uint M"
  obtain d where d: "ForwardDiff M b a = Inr d" "uint d = f"
    using M(3,4) by (auto elim: ForwardDiffE simp: M(2) f_def)
  obtain e where e: "MinDiff M a b = Inr e" "uint e = min g f"
    using MinDiff_eq [OF M(3,4)] by (auto simp: M(2) f_def g_def)
  have mpos: "0 < uint M" using modulus_pos [of M] M by simp
  then have fg: "0 \<le> f" "f < uint M" by (simp_all add: f_def)
  have sum: "f + g = uint M" if "a \<noteq> b"
    unfolding f_def g_def using that assms mpos
    by (intro opposite_distances) (auto simp: word_less_def word_uint_eq_iff)
  have same: "f = 0" "g = 0" if "a = b" using that by (simp_all add: f_def g_def)
  have even: "M AND 1 = 0 \<longleftrightarrow> even (uint M)"
    using bit_unsigned_iff [of M 0, where 'a = int]
    by (simp add: and_one_eq even_iff_mod_2_eq_zero [symmetric] bit_0)
  have lt: "b < a \<longleftrightarrow> uint b < uint a" by (simp add: word_less_def)
  have "circ_ahead (uint M) (uint a) (uint b) \<longleftrightarrow> 2 * f < uint M \<or> (2 * f = uint M \<and> b < a)"
    unfolding circ_ahead_def Let_def lt f_def ..
  moreover have "min g f = uint M div 2 \<longleftrightarrow> 2 * f = uint M" if "even (uint M)"
    using that sum same mpos fg by (cases "a = b") (auto simp: min_def)
  moreover have "e = M div 2 \<longleftrightarrow> min g f = uint M div 2"
    by (simp add: word_uint_eq_iff e uint_div_2)
  moreover have "d \<le> M div 2 \<longleftrightarrow> f \<le> uint M div 2"
    by (simp add: word_le_def d uint_div_2)
  moreover have "f \<le> uint M div 2 \<longleftrightarrow> 2 * f < uint M \<or> 2 * f = uint M"
    by arith
  moreover have "2 * f \<noteq> uint M" if "odd (uint M)"
    using that by (metis dvd_triv_left)
  ultimately show ?thesis
    by (auto simp: AheadOrAt_mod_def Let_def d(1) e(1) even)
qed

lemma AheadOrAt_circ:
  assumes "in_modulus M a" "in_modulus M b"
  shows "AheadOrAt M a b = Inr (circ_ahead (modulus M) (uint a) (uint b))"
  using assms AheadOrAt_mod_circ [of a M b]
  by (cases "M = 0")
    (auto simp: AheadOrAt_def AheadOrAt_wrap_circ modulus_def in_modulus_def word_neq_0_conv)

lemma AheadOf_circ:
  "in_modulus M a \<Longrightarrow> in_modulus M b \<Longrightarrow>
    AheadOf M a b = Inr (a \<noteq> b \<and> circ_ahead (modulus M) (uint a) (uint b))"
  by (simp add: AheadOf_def AheadOrAt_circ)

interpretation seq_num: circular_order "modulus M" uint "in_modulus M" "AheadOf M"
  for M :: "'a::len word"
  by unfold_locales (simp_all add: in_modulus_uint AheadOf_circ word_uint_eq_iff)

section \<open>Unwrapping a stream\<close>

text \<open>
  An unwrapper is fed the wrapped images of a stream of integers.  Where two neighbours of the
  stream are \<open>near\<close> each other, every call returns the integer itself.
\<close>

locale stream_unwrapper =
  fixes step :: "'s \<Rightarrow> 'v \<Rightarrow> (int \<times> 's) outcome"
    and fresh :: 's
    and encode :: "int \<Rightarrow> 'v"
    and tracks :: "int \<Rightarrow> 's \<Rightarrow> bool"
    and admissible :: "int \<Rightarrow> bool"
    and first_ok :: "int \<Rightarrow> bool"
    and near :: "int \<Rightarrow> int \<Rightarrow> bool"
  assumes first_step: "first_ok x \<Longrightarrow> \<exists>s. step fresh (encode x) = Inr (x, s) \<and> tracks x s"
    and next_step: "tracks x s \<Longrightarrow> admissible x \<Longrightarrow> admissible y \<Longrightarrow> near x y \<Longrightarrow>
      \<exists>s'. step s (encode y) = Inr (y, s') \<and> tracks y s'"
begin

lemma run_from:
  assumes "tracks x s" "admissible x" "successively near (x # xs)" "list_all admissible xs"
  shows "\<exists>s'. run_all step s (map encode xs) = Inr (xs, s')"
  using assms
proof (induction xs arbitrary: x s)
  case Nil
  then show ?case by simp
next
  case (Cons y ys)
  then obtain s' where s': "step s (encode y) = Inr (y, s')" "tracks y s'"
    using next_step [of x s y] by auto
  moreover obtain t where "run_all step s' (map encode ys) = Inr (ys, t)"
    using Cons.IH [OF s'(2)] Cons.prems by auto
  ultimately show ?case by simp
qed

lemma run_recovers:
  assumes "first_ok x" "admissible x" "successively near (x # xs)" "list_all admissible xs"
  shows "\<exists>s. run_all step fresh (map encode (x # xs)) = Inr (x # xs, s)"
proof -
  obtain s where s: "step fresh (encode x) = Inr (x, s)" "tracks x s"
    using first_step assms by blast
  moreover obtain t where "run_all step s (map encode xs) = Inr (xs, t)"
    using run_from [OF s(2)] assms by auto
  ultimately show ?thesis by simp
qed

end

text \<open>The wrapped image of an integer, and how far apart neighbours may be.\<close>

definition wrap_at :: "'a::len word \<Rightarrow> int \<Rightarrow> 'a word" where
  "wrap_at M x = word_of_int (x mod modulus M)"

definition half_near :: "int \<Rightarrow> int \<Rightarrow> int \<Rightarrow> bool" where
  "half_near m x y \<longleftrightarrow> 2 * \<bar>y - x\<bar> < m"

definition seq_tracks :: "'a::len word \<Rightarrow> int \<Rightarrow> 'a word SeqNumUnwrapper \<Rightarrow> bool" where
  "seq_tracks M x s \<longleftrightarrow> last_unwrapped s = x \<and> last_value s = Some (wrap_at M x)"

definition seq_admissible :: "int \<Rightarrow> int \<Rightarrow> bool" where
  "seq_admissible m x \<longleftrightarrow> i64_min \<le> x \<and> x + m \<le> i64_max"

lemma uint_wrap_at [simp]: "uint (wrap_at M x) = x mod modulus M"
proof -
  have "x mod modulus M < 2 ^ LENGTH('a)" for M :: "'a word"
    using modulus_le [of M] pos_mod_bound [OF modulus_pos, of x M] by linarith
  then show ?thesis
    by (simp add: wrap_at_def unsigned_of_int take_bit_eq_mod mod_in_window)
qed

lemma in_modulus_wrap_at [simp]: "in_modulus M (wrap_at M x)"
  by (simp add: in_modulus_uint)

lemma kBackwardAdjustment_modulus: "kBackwardAdjustment M = modulus M"
  by (simp add: kBackwardAdjustment_def modulus_def unsigned_minus_1_eq_mask mask_eq_exp_minus_1)

lemma half_near_cases:
  assumes "0 < m" "half_near m x y"
  shows "circ_ahead m (y mod m) (x mod m) \<longleftrightarrow> x \<le> y"
    and "(y mod m - x mod m) mod m = (if x \<le> y then y - x else y - x + m)"
proof -
  have f: "(y mod m - x mod m) mod m = (y - x) mod m" by (simp add: mod_diff_eq)
  show eq: "(y mod m - x mod m) mod m = (if x \<le> y then y - x else y - x + m)"
    using assms unfolding f half_near_def by (auto simp: mod_in_window mod_below_window)
  show "circ_ahead m (y mod m) (x mod m) \<longleftrightarrow> x \<le> y"
    using assms by (auto simp: circ_ahead_def eq half_near_def)
qed

lemma SeqNum_Unwrap_next:
  assumes "seq_tracks M x s" "seq_admissible (modulus M) x" "seq_admissible (modulus M) y"
    "half_near (modulus M) x y"
  shows "\<exists>s'. SeqNum_Unwrap M s (wrap_at M y) = Inr (y, s') \<and> seq_tracks M y s'"
proof -
  obtain d where d: "ForwardDiff M (wrap_at M x) (wrap_at M y) = Inr d"
    "uint d = (if x \<le> y then y - x else y - x + modulus M)"
    by (rule ForwardDiffE [of M "wrap_at M x" "wrap_at M y"])
      (use assms(4) half_near_cases(2) [OF modulus_pos] in auto)
  have ahead: "AheadOrAt M (wrap_at M y) (wrap_at M x) = Inr (x \<le> y)"
    using assms(4) by (simp add: AheadOrAt_circ half_near_cases(1))
  have "y \<le> y + modulus M" by (simp add: less_imp_le)
  then have fits: "fits_signed 64 (x + uint d)" "fits_signed 64 y"
    using assms unfolding d(2) by (auto simp: seq_admissible_def half_near_def int_bounds)
  show ?thesis
    using assms(1) fits
    by (auto simp: SeqNum_Unwrap_def seq_tracks_def d ahead kBackwardAdjustment_modulus)
qed

interpretation seq_unwrapper: stream_unwrapper
  "SeqNum_Unwrap M" SeqNumUnwrapper_init "wrap_at M" "seq_tracks M" "seq_admissible (modulus M)"
  "\<lambda>x. 0 \<le> x \<and> x < modulus M" "half_near (modulus M)" for M :: "'a::len word"
  by unfold_locales
    (auto simp: SeqNum_Unwrap_next, auto simp: SeqNum_Unwrap_def SeqNumUnwrapper_init_def
      seq_tracks_def mod_in_window)

section \<open>Properties\<close>

text \<open>
  C10: a \<open>SeqNumUnwrapper\<close> fed the wrapped images of a stream of integers that starts in the first
  period, whose neighbours are less than half a period apart and which keeps one period away
  from the ends of \<^verbatim>\<open>int64_t\<close>, returns exactly that stream and never overflows, for every
  modulus.
\<close>

theorem SeqNumUnwrapper_recovers_stream:
  assumes "0 \<le> x" "x < modulus M" "successively (half_near (modulus M)) (x # xs)"
    and "list_all (seq_admissible (modulus M)) (x # xs)"
  shows "\<exists>s. run_all (SeqNum_Unwrap M) SeqNumUnwrapper_init (map (wrap_at M) (x # xs)) =
    Inr (x # xs, s)"
  using seq_unwrapper.run_recovers [of x M xs] assms by simp

theorem SeqNumUnwrapper_recovers_stream_witness:
  "\<exists>s. run_all (SeqNum_Unwrap (0 :: 8 word)) SeqNumUnwrapper_init
     (map (wrap_at 0) [250, 260, 200, 300]) = Inr ([250, 260, 200, 300], s)"
  by (rule SeqNumUnwrapper_recovers_stream)
    (simp_all add: modulus_def half_near_def seq_admissible_def int_bounds)

text \<open>
  C19: on values below the modulus, of any two different numbers exactly one is \<open>AheadOf\<close> the other and
  no number is ahead of itself; no check of the comparison fires.
\<close>

theorem AheadOf_trichotomy:
  assumes "in_modulus M a" "in_modulus M b"
  shows "\<exists>p q. AheadOf M a b = Inr p \<and> AheadOf M b a = Inr q \<and>
    (a = b \<longrightarrow> \<not> p \<and> \<not> q) \<and> (a \<noteq> b \<longrightarrow> p \<noteq> q)"
  using assms by (rule seq_num.ahead_trichotomy)

theorem AheadOf_trichotomy_witness:
  "\<exists>p q. AheadOf (10 :: 8 word) 1 6 = Inr p \<and> AheadOf 10 6 (1 :: 8 word) = Inr q \<and> p \<noteq> q"
proof -
  have "in_modulus (10 :: 8 word) 1" "in_modulus (10 :: 8 word) 6" by (simp_all add: in_modulus_def)
  from AheadOf_trichotomy [OF this] show ?thesis by auto
qed

text \<open>
  C20: the comparators are usable for sorting inside a window that covers less than half of the
  circle: numbered by their offset from the window's start, wherever the window wraps,
  \<open>AscendingSeqNumComp\<close> puts the larger offset first and \<open>DescendingSeqNumComp\<close> the smaller one.
\<close>

theorem SeqNumComp_window:
  assumes "in_modulus M a" "in_modulus M b"
    and "uint a = (base + i) mod modulus M" "uint b = (base + j) mod modulus M"
    and "0 \<le> i" "2 * i < modulus M" "0 \<le> j" "2 * j < modulus M"
  shows "AscendingSeqNumComp M a b = Inr (j < i) \<and> DescendingSeqNumComp M a b = Inr (i < j)"
  unfolding AscendingSeqNumComp_def DescendingSeqNumComp_def
  using seq_num.ahead_window [OF assms] seq_num.ahead_window [of M b a base j i] assms by simp

theorem SeqNumComp_window_witness:
  "AscendingSeqNumComp (0 :: 8 word) 3 250 = Inr True \<and> DescendingSeqNumComp (0 :: 8 word) 3 250 = Inr False"
  using SeqNumComp_window [of "0 :: 8 word" 3 250 250 9 0]
  by (simp add: in_modulus_def modulus_def)

end
