(* ===== verification/Common_Types.thy ===== *)
theory Common_Types
  imports Seq_Num
begin

text \<open>
  \<^verbatim>\<open>modules/include/module_common_types_public.h\<close>: \<open>IsNewer\<close> and its instances, and the
  \<^verbatim>\<open>Unwrapper\<close> that turns wrapping numbers into 64-bit ones without ever going below zero.
  As in \<open>Seq_Num\<close> the subtractions are made after the integer promotions: \<open>value - prev_value\<close>
  is a signed number for \<^verbatim>\<open>uint16_t\<close> and wraps for \<^verbatim>\<open>uint32_t\<close>.
\<close>

section \<open>Definitions\<close>

definition kBreakpoint :: "'a::len word" where
  "kBreakpoint = drop_bit 1 (- 1) + 1"

definition IsNewer :: "'a::len word \<Rightarrow> 'a word \<Rightarrow> bool" where
  "IsNewer v prev =
     (if promoted_diff_eq v prev kBreakpoint then v > prev
      else v \<noteq> prev \<and> v - prev < kBreakpoint)"

definition promoted_diff :: "'a::len word \<Rightarrow> 'a word \<Rightarrow> int" where
  "promoted_diff a b = (if LENGTH('a) < 32 then uint a - uint b else uint (a - b))"

record Unwrapper =
  unwrapper_last :: "int option"

definition Unwrapper_init :: Unwrapper where
  "Unwrapper_init = \<lparr>unwrapper_last = None\<rparr>"

definition UnwrapWithoutUpdate :: "Unwrapper \<Rightarrow> 'a::len word \<Rightarrow> int outcome" where
  "UnwrapWithoutUpdate s v =
     (case unwrapper_last s of
        None \<Rightarrow> Inr (uint v)
      | Some l \<Rightarrow>
          let kMaxPlusOne = uint (- 1 :: 'a word) + 1;
              cropped_last = word_of_int l;
              delta = promoted_diff v cropped_last
          in and_then
               (if IsNewer v cropped_last
                then Inr (if delta < 0 then delta + kMaxPlusOne else delta)
                else if delta > 0
                then and_then (i64 (l + delta)) (\<lambda>t. and_then (i64 (t - kMaxPlusOne)) (\<lambda>u.
                       Inr (if u \<ge> 0 then delta - kMaxPlusOne else delta)))
                else Inr delta)
               (\<lambda>d. i64 (l + d)))"

definition UpdateLast :: "Unwrapper \<Rightarrow> int \<Rightarrow> Unwrapper" where
  "UpdateLast s l = s\<lparr>unwrapper_last := Some l\<rparr>"

definition Unwrapper_Unwrap :: "Unwrapper \<Rightarrow> 'a::len word \<Rightarrow> (int \<times> Unwrapper) outcome" where
  "Unwrapper_Unwrap s v =
     and_then (UnwrapWithoutUpdate s v) (\<lambda>u. Inr (u, UpdateLast s u))"

definition IsNewerSequenceNumber :: "16 word \<Rightarrow> 16 word \<Rightarrow> bool" where
  "IsNewerSequenceNumber sequence_number prev_sequence_number =
     IsNewer sequence_number prev_sequence_number"

definition IsNewerTimestamp :: "32 word \<Rightarrow> 32 word \<Rightarrow> bool" where
  "IsNewerTimestamp timestamp prev_timestamp = IsNewer timestamp prev_timestamp"

definition LatestSequenceNumber :: "16 word \<Rightarrow> 16 word \<Rightarrow> 16 word" where
  "LatestSequenceNumber sequence_number1 sequence_number2 =
     (if IsNewerSequenceNumber sequence_number1 sequence_number2
      then sequence_number1 else sequence_number2)"

definition LatestTimestamp :: "32 word \<Rightarrow> 32 word \<Rightarrow> 32 word" where
  "LatestTimestamp timestamp1 timestamp2 =
     (if IsNewerTimestamp timestamp1 timestamp2 then timestamp1 else timestamp2)"

section \<open>The comparison\<close>

lemma kBreakpoint_eq: "kBreakpoint = maxDist_wrap"
  by (simp add: kBreakpoint_def maxDist_wrap_def drop_bit_eq_div)

lemma IsNewer_AheadOf: "AheadOf 0 a b = Inr (IsNewer a b)"
proof -
  have "promoted_diff_eq b b maxDist_wrap \<Longrightarrow> False" for b :: "'a::len word"
    using uint_maxDist_wrap [where 'a = 'a]
    by (auto simp: promoted_diff_eq_def word_uint_eq_iff split: if_splits)
  then show ?thesis
    by (auto simp: AheadOf_def AheadOrAt_def AheadOrAt_wrap_def IsNewer_def ForwardDiff_wrap_def
        kBreakpoint_eq)
qed

lemma in_modulus_0 [simp]: "in_modulus 0 a"
  by (simp add: in_modulus_def)

lemma modulus_0: "modulus (0 :: 'a::len word) = 2 ^ LENGTH('a)"
  by (simp add: modulus_def)

lemma IsNewer_circ:
  "IsNewer a b \<longleftrightarrow> a \<noteq> b \<and> circ_ahead (2 ^ LENGTH('a)) (uint a) (uint (b :: 'a::len word))"
  using AheadOf_circ [of 0 a b] by (simp add: IsNewer_AheadOf modulus_0)

interpretation is_newer: circular_order "2 ^ LENGTH('a)" uint "\<lambda>_. True"
  "\<lambda>a b :: 'a::len word. Inr (IsNewer a b)"
  by unfold_locales (simp_all add: word_uint_eq_iff IsNewer_circ)

section \<open>The unwrapper\<close>

text \<open>
  What a call computes when nothing overflows: the forward distance \<open>f\<close> is added if the value is
  newer, and otherwise the backward distance is subtracted unless that would go below zero.
\<close>

lemma promoted_diff_cases:
  fixes v c :: "'a::len word"
  assumes "f = (uint v - uint c) mod 2 ^ LENGTH('a)"
  shows "promoted_diff v c = f \<or> (LENGTH('a) < 32 \<and> promoted_diff v c = f - 2 ^ LENGTH('a) \<and> v < c)"
proof -
  have "uint v - uint c = f" if "c \<le> v"
    using that uint_lt2p [of v] uint_ge_0 [of c] unfolding assms word_le_def
    by (intro mod_in_window [symmetric]) linarith+
  moreover have "uint v - uint c = f - 2 ^ LENGTH('a)" if "v < c"
    using that uint_lt2p [of c] uint_ge_0 [of v] mod_below_window [of "uint v - uint c" "2 ^ LENGTH('a)"]
    unfolding assms word_less_def by linarith
  moreover have "uint (v - c) = f" by (simp add: assms uint_word_ariths)
  ultimately show ?thesis by (cases "c \<le> v") (auto simp: promoted_diff_def not_le)
qed

lemma UnwrapWithoutUpdate_eq:
  fixes v :: "'a::len word"
  assumes last: "unwrapper_last s = Some l" and l: "0 \<le> l" "l + 2 ^ LENGTH('a) \<le> i64_max"
    and f: "f = (uint v - l) mod 2 ^ LENGTH('a)"
  shows "UnwrapWithoutUpdate s v =
    Inr (if IsNewer v (word_of_int l) \<or> f = 0 \<or> l + f < 2 ^ LENGTH('a)
         then l + f else l + f - 2 ^ LENGTH('a))"
proof -
  define c where "c = (word_of_int l :: 'a word)"
  define m where "m = (2 :: int) ^ LENGTH('a)"
  have c: "uint c = l mod m" by (simp add: c_def m_def unsigned_of_int take_bit_eq_mod)
  have m: "0 < m" by (simp add: m_def)
  have f': "f = (uint v - uint c) mod m" unfolding c f m_def by (simp add: mod_diff_right_eq)
  have fr: "0 \<le> f" "f < m" using m by (simp_all add: f m_def)
  have delta: "promoted_diff v c = f \<or> (promoted_diff v c = f - m \<and> v < c)"
    using promoted_diff_cases [of f v c] f' by (auto simp: m_def)
  have past0: "m \<le> l + f \<and> 0 < f" if "promoted_diff v c = f - m" "v < c"
  proof -
    have "f - m = uint v - uint c"
      using that(2) mod_below_window [of "uint v - uint c" m] uint_ge_0 [of v] uint_lt2p [of c]
      unfolding f' word_less_def m_def by linarith
    moreover have "uint c \<le> l" unfolding c using l(1) m by (simp add: zmod_le_nonneg_dividend)
    moreover have "uint c < m" using uint_lt2p [of c] by (simp add: m_def)
    ultimately show ?thesis using uint_ge_0 [of v] by linarith
  qed
  have kmax: "uint (- 1 :: 'a word) + 1 = m"
    by (simp add: m_def unsigned_minus_1_eq_mask mask_eq_exp_minus_1)
  have l': "l + m \<le> 9223372036854775807" using l(2) by (simp add: m_def int_bounds)
  show ?thesis
    unfolding UnwrapWithoutUpdate_def last option.case Let_def c_def [symmetric] kmax
      m_def [symmetric]
    using delta past0 fr l(1) l' by (auto simp: int_bounds)
qed

text \<open>
  Streams: \<open>roomy w x\<close> leaves one period of \<open>2 ^ w\<close> above \<open>x\<close>.
\<close>

definition roomy :: "nat \<Rightarrow> int \<Rightarrow> bool" where
  "roomy w x \<longleftrightarrow> 0 \<le> x \<and> x + 2 ^ w \<le> i64_max"

lemma uint_word_of_int_mod: "uint (word_of_int x :: 'a::len word) = x mod 2 ^ LENGTH('a)"
  by (simp add: unsigned_of_int take_bit_eq_mod)

lemma Unwrapper_first:
  "0 \<le> x \<and> x < 2 ^ LENGTH('a) \<Longrightarrow>
    \<exists>s. Unwrapper_Unwrap Unwrapper_init (word_of_int x :: 'a::len word) = Inr (x, s) \<and>
      unwrapper_last s = Some x"
  by (simp add: Unwrapper_Unwrap_def UnwrapWithoutUpdate_def UpdateLast_def Unwrapper_init_def
      uint_word_of_int_mod mod_in_window)

lemma Unwrapper_next:
  assumes "unwrapper_last s = Some x" "roomy LENGTH('a) x" "roomy LENGTH('a) y"
    "half_near (2 ^ LENGTH('a)) x y"
  shows "\<exists>s'. Unwrapper_Unwrap s (word_of_int y :: 'a::len word) = Inr (y, s') \<and>
    unwrapper_last s' = Some y"
proof -
  define m where "m = (2 :: int) ^ LENGTH('a)"
  define f where "f = (uint (word_of_int y :: 'a word) - x) mod m"
  have m: "0 < m" by (simp add: m_def)
  have f: "f = (y mod m - x mod m) mod m"
    unfolding f_def uint_word_of_int_mod m_def by (simp add: mod_diff_right_eq)
  note near = half_near_cases [OF m assms(4) [folded m_def]]
  have newer: "IsNewer (word_of_int y :: 'a word) (word_of_int x) \<longleftrightarrow> x < y"
  proof -
    have "word_of_int y = (word_of_int x :: 'a word) \<longleftrightarrow> x = y"
      using near f assms(4) by (auto simp: word_uint_eq_iff uint_word_of_int_mod m_def
          half_near_def split: if_splits)
    then show ?thesis
      using near(1) by (auto simp: IsNewer_circ uint_word_of_int_mod m_def)
  qed
  have "UnwrapWithoutUpdate s (word_of_int y :: 'a word) = Inr y"
    using UnwrapWithoutUpdate_eq [where s = s and l = x and v = "word_of_int y :: 'a word" and f = f] assms(1-3)
      near f newer
      assms(4)
    by (auto simp: roomy_def f_def m_def half_near_def split: if_splits)
  then show ?thesis by (simp add: Unwrapper_Unwrap_def UpdateLast_def)
qed

interpretation unwrapper: stream_unwrapper
  Unwrapper_Unwrap Unwrapper_init "word_of_int :: int \<Rightarrow> 'a::len word"
  "\<lambda>x s. unwrapper_last s = Some x" "roomy LENGTH('a)" "\<lambda>x. 0 \<le> x \<and> x < 2 ^ LENGTH('a)"
  "half_near (2 ^ LENGTH('a))"
  by unfold_locales (rule Unwrapper_first Unwrapper_next; assumption)+

section \<open>Properties\<close>

text \<open>
  C28: \<open>IsNewer\<close> and \<open>AheadOf\<close> with \<open>M = 0\<close>, written independently in two headers, are the same
  relation on every unsigned type, whichever integer promotions apply to it.
\<close>

theorem IsNewer_is_AheadOf: "AheadOf 0 a b = Inr (IsNewer a b)"
  by (rule IsNewer_AheadOf)

text \<open>
  the relation is no strict weak ordering, as the header warns: there are three sequence numbers
  each newer than the next with the last newer than the first.
\<close>

theorem IsNewerSequenceNumber_cyclic:
  "\<exists>a b c. IsNewerSequenceNumber a b \<and> IsNewerSequenceNumber b c \<and> IsNewerSequenceNumber c a"
proof -
  have "IsNewerSequenceNumber 20000 0" "IsNewerSequenceNumber 0 40000"
    "IsNewerSequenceNumber 40000 20000"
    by (simp_all add: IsNewerSequenceNumber_def IsNewer_def promoted_diff_eq_def kBreakpoint_def
        mask_eq_exp_minus_1)
  then show ?thesis by blast
qed

text \<open>
  C14: an \<open>Unwrapper\<close> fed the wrapped images of a stream of non-negative integers that starts in the
  first period, whose neighbours are less than half a period apart and which keeps one period below
  the end of \<^verbatim>\<open>int64_t\<close>, returns exactly that stream and never overflows.
\<close>

theorem Unwrapper_recovers_stream:
  assumes "x < 2 ^ LENGTH('a)" "successively (half_near (2 ^ LENGTH('a))) (x # xs)"
    and "list_all (roomy LENGTH('a)) (x # xs)"
  shows "\<exists>s. run_all Unwrapper_Unwrap Unwrapper_init
    (map (word_of_int :: int \<Rightarrow> 'a::len word) (x # xs)) = Inr (x # xs, s)"
  using unwrapper.run_recovers [where 'a = 'a, of x xs] assms by (simp add: roomy_def)

theorem Unwrapper_recovers_stream_witness:
  "\<exists>s. run_all Unwrapper_Unwrap Unwrapper_init
     (map (word_of_int :: int \<Rightarrow> 16 word) [65000, 66000, 50000]) = Inr ([65000, 66000, 50000], s)"
  by (rule Unwrapper_recovers_stream) (simp_all add: half_near_def roomy_def int_bounds)

text \<open>
  C26: whatever value arrives, from any state that holds a non-negative number with one period of room,
  \<open>Unwrap\<close> returns a non-negative number congruent to the value and less than one period away
  from the last one, and stores it.
\<close>

theorem Unwrapper_nonneg_congruent:
  fixes v :: "'a::len word"
  assumes "unwrapper_last s = Some l" "roomy LENGTH('a) l"
  shows "\<exists>r. Unwrapper_Unwrap s v = Inr (r, UpdateLast s r) \<and> 0 \<le> r \<and> word_of_int r = v \<and>
    \<bar>r - l\<bar> < 2 ^ LENGTH('a)"
proof -
  define m where "m = (2 :: int) ^ LENGTH('a)"
  define f where "f = (uint v - l) mod m"
  define r where "r = (if IsNewer v (word_of_int l) \<or> f = 0 \<or> l + f < m then l + f else l + f - m)"
  have m: "0 < m" by (simp add: m_def)
  then have f: "0 \<le> f" "f < m" by (simp_all add: f_def)
  have "UnwrapWithoutUpdate s v = Inr r"
    using UnwrapWithoutUpdate_eq [where s = s and l = l and v = v and f = f] assms
    by (simp add: roomy_def f_def m_def r_def)
  moreover have "0 \<le> r" "\<bar>r - l\<bar> < m"
    using f assms(2) by (auto simp: r_def roomy_def)
  moreover have "r mod m = uint v"
  proof -
    have "(l + f) mod m = uint v"
      using uint_lt2p [of v] by (simp add: f_def mod_add_right_eq m_def mod_in_window)
    then show ?thesis by (simp add: r_def)
  qed
  then have "word_of_int r = v"
    by (simp add: word_uint_eq_iff uint_word_of_int_mod m_def)
  ultimately show ?thesis by (auto simp: Unwrapper_Unwrap_def m_def)
qed

theorem Unwrapper_nonneg_congruent_witness:
  "\<exists>r. Unwrapper_Unwrap \<lparr>unwrapper_last = Some 5\<rparr> (65535 :: 16 word) =
     Inr (r, \<lparr>unwrapper_last = Some r\<rparr>) \<and> 0 \<le> r"
  using Unwrapper_nonneg_congruent [of "\<lparr>unwrapper_last = Some 5\<rparr>" 5 "65535 :: 16 word"]
  by (auto simp: roomy_def int_bounds UpdateLast_def)

end
