(* ===== verification/Safe_Conversions.thy ===== *)
theory Safe_Conversions
  imports Prelude
begin

text \<open>
  \<^verbatim>\<open>rtc_base/numerics/safe_conversions.h\<close> and \<^verbatim>\<open>safe_conversions_impl.h\<close> for the integral types.
  A type is its signedness and its \<^verbatim>\<open>sizeof\<close>; a value is an \<open>int\<close> the type represents.  The
  template machinery, which selects a specialisation by the two signs and by the static
  comparison of the ranges, is ordinary case analysis here.  The floating point branches
  (\<^verbatim>\<open>is_iec559\<close>) are not modelled, so \<open>TYPE_INVALID\<close>, the result for a NaN, never occurs.
\<close>

section \<open>Definitions\<close>

record NumericType =
  is_signed :: bool
  size_of :: nat

definition bits_of :: "NumericType \<Rightarrow> nat" where
  "bits_of T = size_of T * 8"

definition limits_min :: "NumericType \<Rightarrow> int" where
  "limits_min T = (if is_signed T then - (2 ^ (bits_of T - 1)) else 0)"

definition limits_max :: "NumericType \<Rightarrow> int" where
  "limits_max T = (if is_signed T then 2 ^ (bits_of T - 1) - 1 else 2 ^ bits_of T - 1)"

definition represents :: "NumericType \<Rightarrow> int \<Rightarrow> bool" where
  "represents T v \<longleftrightarrow> limits_min T \<le> v \<and> v \<le> limits_max T"

text \<open>\<^verbatim>\<open>static_cast\<close> between integral types: reduction modulo the width.\<close>

definition static_cast :: "NumericType \<Rightarrow> int \<Rightarrow> int" where
  "static_cast T v = (v - limits_min T) mod 2 ^ bits_of T + limits_min T"

datatype DstRange = OVERLAPS_RANGE | CONTAINS_RANGE

definition StaticRangeCheck :: "NumericType \<Rightarrow> NumericType \<Rightarrow> DstRange" where
  "StaticRangeCheck Dst Src =
     (case (is_signed Dst, is_signed Src) of
        (True, True) \<Rightarrow>
          (let kDstMaxExponent = size_of Dst * 8 - 1; kSrcMaxExponent = size_of Src * 8 - 1
           in if kDstMaxExponent \<ge> kSrcMaxExponent then CONTAINS_RANGE else OVERLAPS_RANGE)
      | (False, False) \<Rightarrow>
          (if size_of Dst \<ge> size_of Src then CONTAINS_RANGE else OVERLAPS_RANGE)
      | (True, False) \<Rightarrow>
          (let kDstMaxExponent = size_of Dst * 8 - 1; kSrcMaxExponent = size_of Src * 8
           in if kDstMaxExponent \<ge> kSrcMaxExponent then CONTAINS_RANGE else OVERLAPS_RANGE)
      | (False, True) \<Rightarrow> OVERLAPS_RANGE)"

datatype RangeCheckResult = TYPE_VALID | TYPE_UNDERFLOW | TYPE_OVERFLOW | TYPE_INVALID

definition BASE_NUMERIC_RANGE_CHECK_RESULT :: "bool \<Rightarrow> bool \<Rightarrow> RangeCheckResult" where
  "BASE_NUMERIC_RANGE_CHECK_RESULT is_in_upper_bound is_in_lower_bound =
     (if is_in_upper_bound then (if is_in_lower_bound then TYPE_VALID else TYPE_UNDERFLOW)
      else (if is_in_lower_bound then TYPE_OVERFLOW else TYPE_INVALID))"

definition RangeCheckImpl_ss :: "NumericType \<Rightarrow> NumericType \<Rightarrow> int \<Rightarrow> RangeCheckResult" where
  "RangeCheckImpl_ss Dst Src v = BASE_NUMERIC_RANGE_CHECK_RESULT
     (v \<le> static_cast Src (limits_max Dst)) (v \<ge> static_cast Src (limits_min Dst))"

definition RangeCheckImpl_uu :: "NumericType \<Rightarrow> NumericType \<Rightarrow> int \<Rightarrow> RangeCheckResult" where
  "RangeCheckImpl_uu Dst Src v = BASE_NUMERIC_RANGE_CHECK_RESULT
     (v \<le> static_cast Src (limits_max Dst)) True"

definition RangeCheckImpl_su :: "NumericType \<Rightarrow> NumericType \<Rightarrow> int \<Rightarrow> RangeCheckResult" where
  "RangeCheckImpl_su Dst Src v =
     (if size_of Dst > size_of Src then TYPE_VALID
      else BASE_NUMERIC_RANGE_CHECK_RESULT (v \<le> static_cast Src (limits_max Dst)) True)"

definition RangeCheckImpl_us :: "NumericType \<Rightarrow> NumericType \<Rightarrow> int \<Rightarrow> RangeCheckResult" where
  "RangeCheckImpl_us Dst Src v =
     (let DstMaxExponent = size_of Dst * 8; SrcMaxExponent = size_of Src * 8 - 1
      in if DstMaxExponent \<ge> SrcMaxExponent
         then BASE_NUMERIC_RANGE_CHECK_RESULT True (v \<ge> static_cast Src 0)
         else BASE_NUMERIC_RANGE_CHECK_RESULT
                (v \<le> static_cast Src (limits_max Dst)) (v \<ge> static_cast Src 0))"

definition RangeCheck :: "NumericType \<Rightarrow> NumericType \<Rightarrow> int \<Rightarrow> RangeCheckResult" where
  "RangeCheck Dst Src v =
     (case StaticRangeCheck Dst Src of
        CONTAINS_RANGE \<Rightarrow> TYPE_VALID
      | OVERLAPS_RANGE \<Rightarrow>
          (case (is_signed Dst, is_signed Src) of
             (True, True) \<Rightarrow> RangeCheckImpl_ss Dst Src v
           | (False, False) \<Rightarrow> RangeCheckImpl_uu Dst Src v
           | (True, False) \<Rightarrow> RangeCheckImpl_su Dst Src v
           | (False, True) \<Rightarrow> RangeCheckImpl_us Dst Src v))"

definition IsValueInRangeForNumericType :: "NumericType \<Rightarrow> NumericType \<Rightarrow> int \<Rightarrow> bool" where
  "IsValueInRangeForNumericType Dst Src v \<longleftrightarrow> RangeCheck Dst Src v = TYPE_VALID"

definition checked_cast :: "NumericType \<Rightarrow> NumericType \<Rightarrow> int \<Rightarrow> int outcome" where
  "checked_cast Dst Src v =
     rtc_check (IsValueInRangeForNumericType Dst Src v) (Inr (static_cast Dst v))"

definition dchecked_cast :: "NumericType \<Rightarrow> NumericType \<Rightarrow> int \<Rightarrow> int outcome" where
  "dchecked_cast Dst Src v =
     dcheck (IsValueInRangeForNumericType Dst Src v) (Inr (static_cast Dst v))"

definition saturated_cast :: "NumericType \<Rightarrow> NumericType \<Rightarrow> int \<Rightarrow> int outcome" where
  "saturated_cast Dst Src v =
     (case RangeCheck Dst Src v of
        TYPE_VALID \<Rightarrow> Inr (static_cast Dst v)
      | TYPE_UNDERFLOW \<Rightarrow> Inr (limits_min Dst)
      | TYPE_OVERFLOW \<Rightarrow> Inr (limits_max Dst)
      | TYPE_INVALID \<Rightarrow> Inl Check_failed)"

definition int64_type :: NumericType where
  "int64_type = \<lparr>is_signed = True, size_of = 8\<rparr>"

definition uint32_type :: NumericType where
  "uint32_type = \<lparr>is_signed = False, size_of = 4\<rparr>"

definition uint64_type :: NumericType where
  "uint64_type = \<lparr>is_signed = False, size_of = 8\<rparr>"

section \<open>The range check is the range test\<close>

definition wf_type :: "NumericType \<Rightarrow> bool" where
  "wf_type T \<longleftrightarrow> 0 < size_of T"

lemma static_cast_represented:
  assumes "wf_type T" "represents T v"
  shows "static_cast T v = v"
proof -
  have "(2 :: int) ^ bits_of T = 2 * 2 ^ (bits_of T - 1)"
    using assms(1) by (cases "bits_of T") (simp_all add: wf_type_def bits_of_def)
  then have "(v - limits_min T) mod 2 ^ bits_of T = v - limits_min T"
    using assms(2)
    by (intro mod_in_window) (auto simp: represents_def limits_min_def limits_max_def)
  then show ?thesis by (simp add: static_cast_def)
qed

lemma limits_mono:
  assumes "wf_type S" "wf_type T"
  shows "is_signed S = is_signed T \<Longrightarrow> size_of S \<le> size_of T \<Longrightarrow>
      limits_min T \<le> limits_min S \<and> limits_max S \<le> limits_max T"
    and "\<not> is_signed S \<Longrightarrow> is_signed T \<Longrightarrow> size_of S < size_of T \<Longrightarrow>
      limits_min T \<le> limits_min S \<and> limits_max S \<le> limits_max T"
    and "is_signed S \<Longrightarrow> \<not> is_signed T \<Longrightarrow> size_of S \<le> size_of T \<Longrightarrow>
      limits_max S \<le> limits_max T"
proof -
  have pow: "(2 :: int) ^ i - 1 < 2 ^ j" if "i \<le> j" for i j
    using power_increasing [OF that, of "2 :: int"] by linarith
  show "is_signed S = is_signed T \<Longrightarrow> size_of S \<le> size_of T \<Longrightarrow>
      limits_min T \<le> limits_min S \<and> limits_max S \<le> limits_max T"
    by (auto simp: limits_min_def limits_max_def bits_of_def pow)
  show "\<not> is_signed S \<Longrightarrow> is_signed T \<Longrightarrow> size_of S < size_of T \<Longrightarrow>
      limits_min T \<le> limits_min S \<and> limits_max S \<le> limits_max T"
    by (auto simp: limits_min_def limits_max_def bits_of_def pow)
  show "is_signed S \<Longrightarrow> \<not> is_signed T \<Longrightarrow> size_of S \<le> size_of T \<Longrightarrow>
      limits_max S \<le> limits_max T"
    by (auto simp: limits_max_def bits_of_def pow)
qed

lemma limits_pos: "wf_type T \<Longrightarrow> limits_min T \<le> 0 \<and> 0 \<le> limits_max T"
  by (simp add: limits_min_def limits_max_def)

lemma RangeCheck_range:
  assumes "wf_type Dst" "wf_type Src" "represents Src v"
  shows "RangeCheck Dst Src v =
    (if v < limits_min Dst then TYPE_UNDERFLOW
     else if v > limits_max Dst then TYPE_OVERFLOW else TYPE_VALID)"
proof -
  have cast: "static_cast Src x = x" if "limits_min Src \<le> x" "x \<le> limits_max Src" for x
    using static_cast_represented [OF assms(2)] that by (simp add: represents_def)
  have cast0: "static_cast Src 0 = 0" using cast limits_pos [OF assms(2)] by simp
  have exps: "size_of Src * 8 - Suc 0 \<le> size_of Dst * 8 - Suc 0 \<longleftrightarrow> size_of Src \<le> size_of Dst"
    using assms(1,2) by (auto simp: wf_type_def)
  have exps2: "size_of Src * 8 - Suc 0 \<le> size_of Dst * 8 \<longleftrightarrow> size_of Src \<le> size_of Dst"
    using assms(1,2) by (auto simp: wf_type_def)
  note mono = limits_mono [OF assms(1,2)] limits_mono [OF assms(2,1)]
  note pos = limits_pos [OF assms(1)] limits_pos [OF assms(2)]
  consider (ss) "is_signed Dst" "is_signed Src" | (uu) "\<not> is_signed Dst" "\<not> is_signed Src"
    | (su) "is_signed Dst" "\<not> is_signed Src" | (us) "\<not> is_signed Dst" "is_signed Src"
    by blast
  then show ?thesis
  proof cases
    case ss
    then show ?thesis
      using assms mono(1,4) cast [of "limits_max Dst"] cast [of "limits_min Dst"] pos
      by (auto simp: RangeCheck_def StaticRangeCheck_def RangeCheckImpl_ss_def Let_def exps
          BASE_NUMERIC_RANGE_CHECK_RESULT_def represents_def)
  next
    case uu
    then show ?thesis
      using assms mono(1,4) cast [of "limits_max Dst"] pos
      by (auto simp: RangeCheck_def StaticRangeCheck_def RangeCheckImpl_uu_def
          BASE_NUMERIC_RANGE_CHECK_RESULT_def represents_def limits_min_def)
  next
    case su
    then have "limits_min Src = 0" by (simp add: limits_min_def)
    with su show ?thesis
      using assms mono(3,5) cast [of "limits_max Dst"] pos
      by (auto simp: RangeCheck_def StaticRangeCheck_def RangeCheckImpl_su_def Let_def wf_type_def
          BASE_NUMERIC_RANGE_CHECK_RESULT_def represents_def not_less)
  next
    case us
    then have min0: "limits_min Dst = 0" by (simp add: limits_min_def)
    note defs = RangeCheck_def StaticRangeCheck_def RangeCheckImpl_us_def Let_def cast0 exps2
      BASE_NUMERIC_RANGE_CHECK_RESULT_def represents_def min0
    show ?thesis
    proof (cases "size_of Src \<le> size_of Dst")
      case True
      then have "limits_max Src \<le> limits_max Dst" using mono(6) us by simp
      with True us assms(3) show ?thesis by (simp add: defs)
    next
      case False
      then have "static_cast Src (limits_max Dst) = limits_max Dst"
        using mono(2) us pos by (intro cast) auto
      with False us assms(3) pos show ?thesis by (auto simp: defs)
    qed
  qed
qed

lemma dchecked_cast_ok:
  assumes "wf_type Dst" "wf_type Src" "represents Src v"
  shows "dchecked_cast Dst Src v = (if represents Dst v then Inr v else Inl Dcheck_failed)"
  using assms RangeCheck_range [OF assms] static_cast_represented [OF assms(1), of v]
  by (auto simp: dchecked_cast_def IsValueInRangeForNumericType_def represents_def)

lemma int64_type_simps [simp]:
  "wf_type int64_type" "wf_type uint32_type" "wf_type uint64_type"
  "represents int64_type v \<longleftrightarrow> fits_signed 64 v"
  "represents uint32_type v \<longleftrightarrow> 0 \<le> v \<and> v < 2 ^ 32"
  "represents uint64_type v \<longleftrightarrow> 0 \<le> v \<and> v < 2 ^ 64"
  by (auto simp: wf_type_def int64_type_def uint32_type_def uint64_type_def represents_def
      limits_min_def limits_max_def bits_of_def int_bounds)

section \<open>Properties\<close>

text \<open>
  C21: for every pair of integral types and every value of the source type, the range check tells exactly
  whether the destination type represents the value and on which side it falls outside, so
  \<open>saturated_cast\<close> is the clamp to the destination's range (and its unreachable branch is
  never reached) and \<open>checked_cast\<close> returns the value unchanged or fails its check.
\<close>

theorem saturated_cast_clamps:
  assumes "wf_type Dst" "wf_type Src" "represents Src v"
  shows "saturated_cast Dst Src v = Inr (max (limits_min Dst) (min v (limits_max Dst))) \<and>
    checked_cast Dst Src v = (if represents Dst v then Inr v else Inl Check_failed)"
proof -
  have "limits_min Dst \<le> limits_max Dst" using limits_pos [OF assms(1)] by linarith
  then show ?thesis
    using RangeCheck_range [OF assms] static_cast_represented [OF assms(1), of v]
    by (auto simp: saturated_cast_def checked_cast_def IsValueInRangeForNumericType_def
        represents_def max_def min_def)
qed

theorem saturated_cast_clamps_witness:
  "saturated_cast uint32_type int64_type (- 5) = Inr 0 \<and>
   checked_cast uint32_type int64_type (- 5) = Inl Check_failed"
proof -
  have "represents int64_type (- 5)" by (simp add: int_bounds)
  from saturated_cast_clamps [OF _ _ this, of uint32_type] show ?thesis
    by (simp add: limits_min_def limits_max_def uint32_type_def bits_of_def wf_type_def
        int64_type_def represents_def)
qed

end
