(* ===== verification/Unit_Base.thy ===== *)
theory Unit_Base
  imports Safe_Conversions
begin

text \<open>
  \<^verbatim>\<open>rtc_base/units/unit_base.h\<close>: the base classes \<^verbatim>\<open>UnitBase\<close> and \<^verbatim>\<open>RelativeUnit\<close> of the unit types.
  A unit is its \<^verbatim>\<open>int64_t value_\<close>, with the two ends of the type standing for the infinities.
  The template parameter \<^verbatim>\<open>Unit_T\<close> enters through its constant \<open>one_sided\<close> only, an argument here,
  and the integral type \<^verbatim>\<open>T\<close> of a conversion is an argument \<open>T\<close>.  Signed overflow is a fault.  The
  overloads for floating point types are not modelled.
\<close>

section \<open>Definitions\<close>

subsection \<open>UnitBase\<close>

datatype unit64 = Unit (unit_value: int)

definition PlusInfinityVal :: int where "PlusInfinityVal = limits_max int64_type"
definition MinusInfinityVal :: int where "MinusInfinityVal = limits_min int64_type"

definition Zero :: unit64 where "Zero = Unit 0"
definition PlusInfinity :: unit64 where "PlusInfinity = Unit PlusInfinityVal"
definition MinusInfinity :: unit64 where "MinusInfinity = Unit MinusInfinityVal"

definition IsZero :: "unit64 \<Rightarrow> bool" where "IsZero u \<longleftrightarrow> unit_value u = 0"

definition IsInfinite :: "unit64 \<Rightarrow> bool" where
  "IsInfinite u \<longleftrightarrow> unit_value u = PlusInfinityVal \<or> unit_value u = MinusInfinityVal"

definition IsFinite :: "unit64 \<Rightarrow> bool" where "IsFinite u \<longleftrightarrow> \<not> IsInfinite u"

definition IsPlusInfinity :: "unit64 \<Rightarrow> bool" where
  "IsPlusInfinity u \<longleftrightarrow> unit_value u = PlusInfinityVal"

definition IsMinusInfinity :: "unit64 \<Rightarrow> bool" where
  "IsMinusInfinity u \<longleftrightarrow> unit_value u = MinusInfinityVal"

definition unit_eq :: "unit64 \<Rightarrow> unit64 \<Rightarrow> bool" where
  "unit_eq u other \<longleftrightarrow> unit_value u = unit_value other"

definition unit_ne :: "unit64 \<Rightarrow> unit64 \<Rightarrow> bool" where
  "unit_ne u other \<longleftrightarrow> unit_value u \<noteq> unit_value other"

definition unit_le :: "unit64 \<Rightarrow> unit64 \<Rightarrow> bool" where
  "unit_le u other \<longleftrightarrow> unit_value u \<le> unit_value other"

definition unit_ge :: "unit64 \<Rightarrow> unit64 \<Rightarrow> bool" where
  "unit_ge u other \<longleftrightarrow> unit_value u \<ge> unit_value other"

definition unit_gt :: "unit64 \<Rightarrow> unit64 \<Rightarrow> bool" where
  "unit_gt u other \<longleftrightarrow> unit_value u > unit_value other"

definition unit_lt :: "unit64 \<Rightarrow> unit64 \<Rightarrow> bool" where
  "unit_lt u other \<longleftrightarrow> unit_value u < unit_value other"

definition FromValue :: "bool \<Rightarrow> NumericType \<Rightarrow> int \<Rightarrow> unit64 outcome" where
  "FromValue one_sided T v =
     dcheck (one_sided \<longrightarrow> v \<ge> 0)
     (dcheck (v > MinusInfinityVal)
     (dcheck (v < PlusInfinityVal)
     (map_outcome Unit (dchecked_cast int64_type T v))))"

text \<open>
  \<^verbatim>\<open>value * denominator\<close> is computed in \<^verbatim>\<open>uint64_t\<close> when \<^verbatim>\<open>T\<close> is an unsigned type of that size and
  in \<^verbatim>\<open>int64_t\<close> otherwise.
\<close>

definition times_i64 :: "NumericType \<Rightarrow> int \<Rightarrow> int \<Rightarrow> int outcome" where
  "times_i64 T v d =
     (if \<not> is_signed T \<and> size_of T \<ge> 8 then Inr ((v * d) mod 2 ^ 64) else i64 (v * d))"

definition product_type :: "NumericType \<Rightarrow> NumericType" where
  "product_type T = (if \<not> is_signed T \<and> size_of T \<ge> 8 then uint64_type else int64_type)"

definition FromFraction :: "bool \<Rightarrow> NumericType \<Rightarrow> int \<Rightarrow> int \<Rightarrow> unit64 outcome" where
  "FromFraction one_sided T denominator v =
     dcheck (one_sided \<longrightarrow> v \<ge> 0)
     (dcheck (v > tdiv MinusInfinityVal denominator)
     (dcheck (v < tdiv PlusInfinityVal denominator)
     (and_then (times_i64 T v denominator) (\<lambda>p.
        map_outcome Unit (dchecked_cast int64_type (product_type T) p)))))"

definition ToValue :: "NumericType \<Rightarrow> unit64 \<Rightarrow> int outcome" where
  "ToValue T u = dcheck (IsFinite u) (dchecked_cast T int64_type (unit_value u))"

definition ToValueOr :: "unit64 \<Rightarrow> int \<Rightarrow> int" where
  "ToValueOr u fallback_value = (if IsFinite u then unit_value u else fallback_value)"

definition DivRoundPositiveToNearest :: "int \<Rightarrow> int \<Rightarrow> int outcome" where
  "DivRoundPositiveToNearest n d = and_then (i64 (n + tdiv d 2)) (\<lambda>s. Inr (tdiv s d))"

definition DivRoundToNearest :: "int \<Rightarrow> int \<Rightarrow> int outcome" where
  "DivRoundToNearest n d =
     and_then (i64 (n + (if n \<ge> 0 then tdiv d 2 else tdiv (- d) 2))) (\<lambda>s. Inr (tdiv s d))"

definition ToFraction :: "bool \<Rightarrow> NumericType \<Rightarrow> int \<Rightarrow> unit64 \<Rightarrow> int outcome" where
  "ToFraction one_sided T Denominator u =
     dcheck (IsFinite u)
       (if one_sided
        then and_then (DivRoundPositiveToNearest (unit_value u) Denominator) (dchecked_cast T int64_type)
        else and_then (DivRoundToNearest (unit_value u) Denominator) (dchecked_cast T int64_type))"

definition ToFractionOr :: "bool \<Rightarrow> int \<Rightarrow> unit64 \<Rightarrow> int \<Rightarrow> int outcome" where
  "ToFractionOr one_sided Denominator u fallback_value =
     (if IsFinite u
      then if one_sided then DivRoundPositiveToNearest (unit_value u) Denominator
           else DivRoundToNearest (unit_value u) Denominator
      else Inr fallback_value)"

definition ToMultiple :: "NumericType \<Rightarrow> int \<Rightarrow> unit64 \<Rightarrow> int outcome" where
  "ToMultiple T Factor u =
     and_then (ToValue int64_type u) (\<lambda>v.
     dcheck (v \<ge> tdiv (limits_min T) Factor)
     (dcheck (v \<le> tdiv (limits_max T) Factor)
     (and_then (i64 (v * Factor)) (dchecked_cast T int64_type))))"

subsection \<open>RelativeUnit\<close>

definition Clamped :: "unit64 \<Rightarrow> unit64 \<Rightarrow> unit64 \<Rightarrow> unit64" where
  "Clamped u min_value max_value =
     (let m = if unit_lt max_value u then max_value else u
      in if unit_lt min_value m then m else min_value)"

definition Clamp :: "unit64 \<Rightarrow> unit64 \<Rightarrow> unit64 \<Rightarrow> unit64" where
  "Clamp u min_value max_value = Clamped u min_value max_value"

definition unit_add :: "bool \<Rightarrow> unit64 \<Rightarrow> unit64 \<Rightarrow> unit64 outcome" where
  "unit_add one_sided u other =
     (if IsPlusInfinity u \<or> IsPlusInfinity other
      then dcheck (\<not> IsMinusInfinity u) (dcheck (\<not> IsMinusInfinity other) (Inr PlusInfinity))
      else if IsMinusInfinity u \<or> IsMinusInfinity other
      then dcheck (\<not> IsPlusInfinity u) (dcheck (\<not> IsPlusInfinity other) (Inr MinusInfinity))
      else and_then (ToValue int64_type u) (\<lambda>a. and_then (ToValue int64_type other) (\<lambda>b.
             and_then (i64 (a + b)) (FromValue one_sided int64_type))))"

definition unit_sub :: "bool \<Rightarrow> unit64 \<Rightarrow> unit64 \<Rightarrow> unit64 outcome" where
  "unit_sub one_sided u other =
     (if IsPlusInfinity u \<or> IsMinusInfinity other
      then dcheck (\<not> IsMinusInfinity u) (dcheck (\<not> IsPlusInfinity other) (Inr PlusInfinity))
      else if IsMinusInfinity u \<or> IsPlusInfinity other
      then dcheck (\<not> IsPlusInfinity u) (dcheck (\<not> IsMinusInfinity other) (Inr MinusInfinity))
      else and_then (ToValue int64_type u) (\<lambda>a. and_then (ToValue int64_type other) (\<lambda>b.
             and_then (i64 (a - b)) (FromValue one_sided int64_type))))"

definition unit_add_assign :: "bool \<Rightarrow> unit64 \<Rightarrow> unit64 \<Rightarrow> unit64 outcome" where
  "unit_add_assign one_sided u other = unit_add one_sided u other"

definition unit_sub_assign :: "bool \<Rightarrow> unit64 \<Rightarrow> unit64 \<Rightarrow> unit64 outcome" where
  "unit_sub_assign one_sided u other = unit_sub one_sided u other"

definition unit_times :: "bool \<Rightarrow> unit64 \<Rightarrow> int \<Rightarrow> unit64 outcome" where
  "unit_times one_sided u scalar =
     and_then (ToValue int64_type u) (\<lambda>v.
     and_then (i64 (v * scalar)) (FromValue one_sided int64_type))"

definition times_unit :: "bool \<Rightarrow> int \<Rightarrow> unit64 \<Rightarrow> unit64 outcome" where
  "times_unit one_sided scalar other = unit_times one_sided other scalar"

subsection \<open>Rounding\<close>

definition RoundTo :: "bool \<Rightarrow> unit64 \<Rightarrow> unit64 \<Rightarrow> unit64 outcome" where
  "RoundTo one_sided u resolution =
     dcheck (IsFinite u) (dcheck (IsFinite resolution) (dcheck (unit_value resolution > 0)
     (and_then (i64 (unit_value u + tdiv (unit_value resolution) 2)) (\<lambda>s.
        unit_times one_sided (Unit (tdiv s (unit_value resolution))) (unit_value resolution)))))"

definition RoundUpTo :: "bool \<Rightarrow> unit64 \<Rightarrow> unit64 \<Rightarrow> unit64 outcome" where
  "RoundUpTo one_sided u resolution =
     dcheck (IsFinite u) (dcheck (IsFinite resolution) (dcheck (unit_value resolution > 0)
     (and_then (i64 (unit_value u + unit_value resolution)) (\<lambda>t. and_then (i64 (t - 1)) (\<lambda>s.
        unit_times one_sided (Unit (tdiv s (unit_value resolution))) (unit_value resolution))))))"

definition RoundDownTo :: "bool \<Rightarrow> unit64 \<Rightarrow> unit64 \<Rightarrow> unit64 outcome" where
  "RoundDownTo one_sided u resolution =
     dcheck (IsFinite u) (dcheck (IsFinite resolution) (dcheck (unit_value resolution > 0)
     (unit_times one_sided (Unit (tdiv (unit_value u) (unit_value resolution))) (unit_value resolution))))"

section \<open>Extended integers\<close>

text \<open>
  What a unit stands for: an integer or one of the two infinities.  The sum and the difference
  of opposite infinities are undefined; a finite result has to be representable, not collide
  with an infinity and, for a one-sided unit, not be negative.
\<close>

datatype ext = NegInf | Fin int | PosInf

definition meaning :: "unit64 \<Rightarrow> ext" where
  "meaning u =
     (if IsPlusInfinity u then PosInf else if IsMinusInfinity u then NegInf else Fin (unit_value u))"

fun ext_add :: "ext \<Rightarrow> ext \<Rightarrow> ext option" where
  "ext_add (Fin a) (Fin b) = Some (Fin (a + b))"
| "ext_add PosInf NegInf = None"
| "ext_add NegInf PosInf = None"
| "ext_add PosInf _ = Some PosInf"
| "ext_add _ PosInf = Some PosInf"
| "ext_add NegInf _ = Some NegInf"
| "ext_add _ NegInf = Some NegInf"

fun ext_neg :: "ext \<Rightarrow> ext" where
  "ext_neg PosInf = NegInf"
| "ext_neg NegInf = PosInf"
| "ext_neg (Fin a) = Fin (- a)"

definition in_scale :: "bool \<Rightarrow> int \<Rightarrow> bool" where
  "in_scale one_sided n \<longleftrightarrow> i64_min < n \<and> n < i64_max \<and> (one_sided \<longrightarrow> 0 \<le> n)"

fun ext_outcome :: "bool \<Rightarrow> ext option \<Rightarrow> unit64 outcome" where
  "ext_outcome one_sided None = Inl Dcheck_failed"
| "ext_outcome one_sided (Some PosInf) = Inr PlusInfinity"
| "ext_outcome one_sided (Some NegInf) = Inr MinusInfinity"
| "ext_outcome one_sided (Some (Fin n)) =
     defined_if (fits_signed 64 n) (dcheck (in_scale one_sided n) (Inr (Unit n)))"

abbreviation valid :: "unit64 \<Rightarrow> bool" where
  "valid u \<equiv> fits_signed 64 (unit_value u)"

lemma infinity_vals [simp]: "PlusInfinityVal = i64_max" "MinusInfinityVal = i64_min"
  by (simp_all add: PlusInfinityVal_def MinusInfinityVal_def limits_max_def limits_min_def
      int64_type_def bits_of_def smax_def smin_def)

lemma i64_min_less_max [simp]: "i64_min < i64_max" "i64_min \<noteq> i64_max" "i64_max \<noteq> i64_min"
  by (simp_all add: int_bounds)

lemma dchecked_cast_i64: "fits_signed 64 v \<Longrightarrow> dchecked_cast int64_type int64_type v = Inr v"
  by (simp add: dchecked_cast_ok)

lemma FromValue_i64:
  "fits_signed 64 v \<Longrightarrow> FromValue one_sided int64_type v = dcheck (in_scale one_sided v) (Inr (Unit v))"
  by (auto simp: FromValue_def in_scale_def dchecked_cast_i64 dcheck_def)

lemma ToValue_i64: "valid u \<Longrightarrow> ToValue int64_type u = dcheck (IsFinite u) (Inr (unit_value u))"
  by (simp add: ToValue_def dchecked_cast_i64)

lemma finite_Unit [simp]: "IsFinite (Unit n) \<longleftrightarrow> n \<noteq> i64_max \<and> n \<noteq> i64_min"
  by (simp add: IsFinite_def IsInfinite_def)

lemma in_scale_finite: "in_scale s n \<Longrightarrow> n \<noteq> i64_max \<and> n \<noteq> i64_min \<and> fits_signed 64 n"
  by (auto simp: in_scale_def fits_signed_def)

lemma meaning_Fin: "meaning u = Fin n \<longleftrightarrow> IsFinite u \<and> n = unit_value u"
  by (auto simp: meaning_def IsFinite_def IsInfinite_def IsPlusInfinity_def IsMinusInfinity_def)

lemma unit_add_ext:
  assumes "valid u" "valid v"
  shows "unit_add s u v = ext_outcome s (ext_add (meaning u) (meaning v))"
  using assms
  by (cases u; cases v)
    (auto simp: unit_add_def meaning_def IsPlusInfinity_def IsMinusInfinity_def ToValue_i64
      FromValue_i64 signed_result_def defined_if_def)

lemma unit_sub_ext:
  assumes "valid u" "valid v"
  shows "unit_sub s u v = ext_outcome s (ext_add (meaning u) (ext_neg (meaning v)))"
  using assms
  by (cases u; cases v)
    (auto simp: unit_sub_def meaning_def IsPlusInfinity_def IsMinusInfinity_def ToValue_i64
      FromValue_i64 signed_result_def defined_if_def)

section \<open>Fractions and rounding\<close>

text \<open>\<open>q\<close> times \<open>d\<close> is a multiple of \<open>d\<close> nearest to \<open>n\<close>, a tie going away from zero.\<close>

definition nearest :: "int \<Rightarrow> int \<Rightarrow> int \<Rightarrow> bool" where
  "nearest d n q \<longleftrightarrow>
     2 * \<bar>n - q * d\<bar> \<le> d \<and>
     (2 * \<bar>n - q * d\<bar> = d \<longrightarrow> (if n \<ge> 0 then n < q * d else q * d < n))"

lemma floor_bounds: "0 < d \<Longrightarrow> n div d * d \<le> n \<and> n < n div d * d + d" for n d :: int
  by (metis add.commute div_mult_mod_eq le_add_same_cancel1 pos_mod_bound pos_mod_sign add_less_cancel_left)

lemma nearest_pos:
  assumes "0 < d" "0 \<le> n"
  shows "nearest d n ((n + d div 2) div d)"
proof -
  let ?q = "(n + d div 2) div d"
  have q: "?q * d \<le> n + d div 2" "n + d div 2 < ?q * d + d"
    using floor_bounds [OF assms(1), of "n + d div 2"] by auto
  have "2 * (d div 2) \<le> d" "d \<le> 2 * (d div 2) + 1" by auto
  moreover have "0 \<le> ?q * d"
    using assms by (simp add: pos_imp_zdiv_nonneg_iff)
  ultimately show ?thesis
    unfolding nearest_def using q assms by (auto simp: abs_if)
qed

lemma nearest_uminus:
  assumes "n < 0" "nearest d (- n) q"
  shows "nearest d n (- q)"
proof -
  have "\<bar>n - - q * d\<bar> = \<bar>- n - q * d\<bar>" by simp
  with assms show ?thesis by (auto simp: nearest_def)
qed

lemma nearest_unique:
  assumes "0 < d" "nearest d n p" "nearest d n q"
  shows "p = q"
proof (rule ccontr)
  assume "p \<noteq> q"
  then have "1 \<le> \<bar>p - q\<bar>" by auto
  then have "d \<le> \<bar>p - q\<bar> * d" using assms(1) mult_le_cancel_right1 [of d] by simp
  then have gap: "d \<le> \<bar>p * d - q * d\<bar>"
    using assms(1) by (simp add: abs_mult left_diff_distrib [symmetric])
  show False
    using assms(2,3) gap unfolding nearest_def by (auto simp: abs_if split: if_splits)
qed

lemma div_round_nearest:
  assumes "0 < d" "fits_signed 64 (n + (if n \<ge> 0 then d div 2 else - (d div 2)))"
  shows "\<exists>q. DivRoundToNearest n d = Inr q \<and> nearest d n q \<and> \<bar>q\<bar> \<le> \<bar>n\<bar> + d"
proof (cases "n \<ge> 0")
  case True
  with assms have "DivRoundToNearest n d = Inr ((n + d div 2) div d)"
    by (simp add: DivRoundToNearest_def tdiv_nonneg)
  moreover have "0 \<le> (n + d div 2) div d" "(n + d div 2) div d \<le> n + d"
    using True assms(1) zdiv_mono2 [of "n + d div 2" 1 d] by (auto simp: pos_imp_zdiv_nonneg_iff)
  ultimately show ?thesis using nearest_pos [OF assms(1) True] True by auto
next
  case False
  let ?q = "(- n + d div 2) div d"
  have "tdiv (- d) 2 = - (d div 2)" using assms(1) by (simp add: tdiv_neg)
  moreover have "tdiv (n - d div 2) d = - ?q"
    using False assms(1) tdiv_neg [of "n - d div 2" d] by simp
  ultimately have "DivRoundToNearest n d = Inr (- ?q)"
    using False assms by (simp add: DivRoundToNearest_def)
  moreover have "nearest d n (- ?q)"
    using nearest_uminus [of n d ?q] nearest_pos [of d "- n"] False assms(1) by simp
  moreover have "0 \<le> - n + d div 2" "d div 2 \<le> d" using False assms(1) by auto
  then have "0 \<le> ?q" "?q \<le> - n + d"
    using assms(1) zdiv_mono2 [of "- n + d div 2" 1 d] by (simp_all add: pos_imp_zdiv_nonneg_iff)
  ultimately show ?thesis using False by auto
qed

lemma div_round_positive: "0 \<le> n \<Longrightarrow> DivRoundPositiveToNearest n d = DivRoundToNearest n d"
  by (simp add: DivRoundPositiveToNearest_def DivRoundToNearest_def)

text \<open>The values for which the rounding division stays inside \<^verbatim>\<open>int64_t\<close>.\<close>

definition room_for_half :: "int \<Rightarrow> int \<Rightarrow> bool" where
  "room_for_half d n \<longleftrightarrow> fits_signed 64 (n + (if n \<ge> 0 then d div 2 else - (d div 2)))"

lemma nearest_small:
  assumes "0 < d" "nearest d n q" "fits_signed 64 n" "d < i64_max"
  shows "d = 1 \<or> fits_signed 64 q"
proof (cases "d = 1")
  case False
  then have "2 \<le> d" using assms(1) by simp
  then have "\<bar>q\<bar> * 2 \<le> \<bar>q\<bar> * d" by (intro mult_left_mono) auto
  moreover have "\<bar>q\<bar> * d = \<bar>q * d\<bar>" using assms(1) by (simp add: abs_mult)
  ultimately have "2 * \<bar>q\<bar> \<le> \<bar>q * d\<bar>" by simp
  moreover have "2 * \<bar>q * d\<bar> \<le> 2 * \<bar>n\<bar> + d"
    using assms(2) by (auto simp: nearest_def abs_if split: if_splits)
  moreover have "\<bar>n\<bar> \<le> 9223372036854775808" using assms(3) by (auto simp: int_bounds)
  ultimately have "\<bar>q\<bar> \<le> 9223372036854775807" using assms(4) by (simp add: int_bounds)
  then show ?thesis by (simp add: int_bounds abs_le_iff)
qed simp

lemma nearest_one: "nearest 1 n q \<longleftrightarrow> q = n"
  unfolding nearest_def by arith

lemma ToFraction_nearest:
  assumes "0 < d" "d < i64_max" "valid u" "IsFinite u" "s \<longrightarrow> 0 \<le> unit_value u"
    and "room_for_half d (unit_value u)"
  shows "\<exists>q. ToFraction s int64_type d u = Inr q \<and> nearest d (unit_value u) q"
proof -
  obtain q where q: "DivRoundToNearest (unit_value u) d = Inr q" "nearest d (unit_value u) q"
    using div_round_nearest [OF assms(1)] assms(6) unfolding room_for_half_def by blast
  then have "fits_signed 64 q"
    using nearest_small [OF assms(1) q(2) assms(3,2)] assms(3) nearest_one by metis
  with q assms(4,5) show ?thesis
    by (auto simp: ToFraction_def div_round_positive dchecked_cast_i64)
qed

lemma ToFraction_overflow:
  assumes "0 < d" "IsFinite u" "s \<longrightarrow> 0 \<le> unit_value u" "\<not> room_for_half d (unit_value u)"
  shows "ToFraction s T d u = Inl Undefined_behaviour"
proof -
  have "tdiv d 2 = d div 2" "tdiv (- d) 2 = - (d div 2)"
    using assms(1) by (simp_all add: tdiv_nonneg tdiv_neg)
  with assms show ?thesis
    by (auto simp: ToFraction_def div_round_positive DivRoundToNearest_def room_for_half_def
        split: if_splits)
qed

definition fraction_range :: "bool \<Rightarrow> int \<Rightarrow> int \<Rightarrow> bool" where
  "fraction_range s d v \<longleftrightarrow> - (9223372036854775808 div d) < v \<and> v < i64_max div d \<and> (s \<longrightarrow> 0 \<le> v)"

lemma fraction_range_room:
  assumes "0 < d" "fraction_range s d v"
  shows "i64_min + d \<le> v * d \<and> v * d \<le> i64_max - d"
proof -
  have "v * d \<le> (i64_max div d - 1) * d"
    using assms by (intro mult_right_mono) (auto simp: fraction_range_def)
  moreover have "(- (9223372036854775808 div d) + 1) * d \<le> v * d"
    using assms by (intro mult_right_mono) (auto simp: fraction_range_def)
  ultimately show ?thesis
    using floor_bounds [OF assms(1), of i64_max] floor_bounds [OF assms(1), of 9223372036854775808]
    by (simp add: algebra_simps smin_smax_64)
qed

lemma FromFraction_value:
  assumes "0 < d" "wf_type T" "size_of T \<le> 8" "represents T v"
  shows "FromFraction s T d v = dcheck (fraction_range s d v) (Inr (Unit (v * d)))"
proof -
  have dcheck: "FromFraction s T d v = dcheck (fraction_range s d v)
     (and_then (times_i64 T v d) (\<lambda>p. map_outcome Unit (dchecked_cast int64_type (product_type T) p)))"
    using assms(1) tdiv_neg [of i64_min d] tdiv_nonneg [of i64_max d]
    by (auto simp: FromFraction_def fraction_range_def dcheck_def smin_smax_64)
  have prod: "times_i64 T v d = Inr (v * d) \<and> dchecked_cast int64_type (product_type T) (v * d) = Inr (v * d)"
    if range: "fraction_range s d v"
  proof -
    have fits: "fits_signed 64 (v * d)"
      using fraction_range_room [OF assms(1) range] assms(1) by (simp add: int_bounds)
    have "0 \<le> v * d" if "\<not> is_signed T"
      using assms(1,4) that by (auto simp: represents_def limits_min_def)
    with fits show ?thesis
      by (auto simp: times_i64_def product_type_def dchecked_cast_ok int_bounds)
  qed
  show ?thesis
    by (cases "fraction_range s d v") (simp_all add: dcheck prod)
qed

lemma nearest_multiple: "0 < d \<Longrightarrow> nearest d (v * d) q \<longleftrightarrow> q = v"
  using nearest_unique [of d "v * d" v q] by (auto simp: nearest_def)

lemma fraction_round_trip:
  assumes "0 < d" "d < i64_max" "wf_type T" "size_of T \<le> 8" "represents T v"
    and "FromFraction s T d v = Inr u"
  shows "ToFraction s int64_type d u = Inr v"
proof -
  from assms have range: "fraction_range s d v" and u: "u = Unit (v * d)"
    by (auto simp: FromFraction_value outcome_simps)
  have ends: "i64_min + d \<le> v * d" "v * d \<le> i64_max - d"
    using fraction_range_room [OF assms(1) range] by auto
  have "0 \<le> d div 2" "d div 2 \<le> d" using assms(1) by auto
  then have "room_for_half d (v * d)"
    using ends assms(1) by (auto simp: room_for_half_def fits_signed_def)
  moreover have "s \<longrightarrow> 0 \<le> v * d" using range assms(1) by (auto simp: fraction_range_def)
  moreover have "valid u" "IsFinite u" using ends assms(1) u by (auto simp: int_bounds)
  ultimately show ?thesis
    using ToFraction_nearest [OF assms(1,2), of u s] u assms(1) by (auto simp: nearest_multiple)
qed

section \<open>Rounding to a multiple\<close>

lemma unit_times_in_scale:
  assumes "in_scale s (q * r)" "in_scale t q"
  shows "unit_times s (Unit q) r = Inr (Unit (q * r))"
  using in_scale_finite [OF assms(1)] in_scale_finite [OF assms(2)] assms
  by (simp add: unit_times_def ToValue_i64 FromValue_i64)

lemma multiple_bounds:
  fixes n r :: int
  assumes "0 \<le> n" "0 < r"
  shows "0 \<le> n div r \<and> n div r \<le> n \<and> 0 \<le> n div r * r \<and> n div r * r \<le> n"
proof -
  have "0 \<le> n div r" "n div r \<le> n"
    using assms zdiv_mono2 [of n 1 r] by (simp_all add: pos_imp_zdiv_nonneg_iff)
  with assms floor_bounds [OF assms(2), of n] show ?thesis by simp
qed

lemma multiple_in_scale:
  assumes "0 \<le> n" "n < i64_max" "0 < r"
  shows "in_scale s (n div r * r)" "in_scale s (n div r)"
  using multiple_bounds [OF assms(1,3)] assms(2) unfolding in_scale_def smin_smax_64 by linarith+

lemma negated_multiple_in_scale:
  assumes "0 \<le> n" "n \<le> i64_max" "0 < r"
  shows "in_scale False (- (n div r) * r)" "in_scale False (- (n div r))"
  using multiple_bounds [OF assms(1,3)] assms(2) by (auto simp: in_scale_def smin_smax_64)

lemma RoundDownTo_nonneg:
  assumes "in_scale True v" "in_scale True r" "0 < r"
  shows "RoundDownTo s (Unit v) (Unit r) = Inr (Unit (v div r * r))"
  using assms in_scale_finite [OF assms(1)] in_scale_finite [OF assms(2)]
    multiple_in_scale [of v r s] unit_times_in_scale [of s "v div r" r s]
  by (simp add: RoundDownTo_def in_scale_def tdiv_nonneg)

lemma RoundUpTo_nonneg:
  assumes "in_scale True v" "in_scale True r" "0 < r" "v + r \<le> i64_max"
  shows "RoundUpTo s (Unit v) (Unit r) = Inr (Unit ((v + r - 1) div r * r))"
  using assms in_scale_finite [OF assms(1)] in_scale_finite [OF assms(2)]
    multiple_in_scale [of "v + r - 1" r s] unit_times_in_scale [of s "(v + r - 1) div r" r s]
  by (simp add: RoundUpTo_def in_scale_def tdiv_nonneg int_bounds)

lemma RoundTo_nonneg:
  assumes "in_scale True v" "in_scale True r" "0 < r" "v + r div 2 < i64_max"
  shows "RoundTo s (Unit v) (Unit r) = Inr (Unit ((v + r div 2) div r * r))"
proof -
  have sum: "0 \<le> v + r div 2" using assms by (auto simp: in_scale_def)
  then have "fits_signed 64 (v + r div 2)" using assms(4) by (simp add: int_bounds)
  moreover have "unit_times s (Unit ((v + r div 2) div r)) r = Inr (Unit ((v + r div 2) div r * r))"
    by (intro unit_times_in_scale multiple_in_scale sum assms)
  ultimately show ?thesis
    using assms sum in_scale_finite [OF assms(1)] in_scale_finite [OF assms(2)]
    by (simp add: RoundTo_def tdiv_nonneg)
qed

lemma least_multiple:
  "0 < r \<Longrightarrow> n \<le> (n + r - 1) div r * r \<and> (n + r - 1) div r * r < n + r" for n r :: int
  using floor_bounds [of r "n + r - 1"] by linarith

lemma RoundUpTo_neg:
  assumes "in_scale False v" "in_scale True r" "0 < r" "v \<le> - r"
  shows "RoundUpTo False (Unit v) (Unit r) = Inr (Unit (- ((- v - r + 1) div r * r)))"
proof -
  let ?n = "- v - r + 1"
  have t: "tdiv (v + r - 1) r = - (?n div r)"
    using assms(3,4) tdiv_neg [of "v + r - 1" r] by (simp add: algebra_simps)
  have "0 \<le> ?n" "?n \<le> i64_max" using assms by (auto simp: in_scale_def smin_smax_64)
  from unit_times_in_scale [OF negated_multiple_in_scale [OF this assms(3)]] t assms in_scale_finite [OF assms(1)] in_scale_finite [OF assms(2)]
  show ?thesis
    by (simp add: RoundUpTo_def in_scale_def int_bounds)
qed

lemma RoundDownTo_neg:
  assumes "in_scale False v" "in_scale True r" "0 < r" "v < 0"
  shows "RoundDownTo False (Unit v) (Unit r) = Inr (Unit (- ((- v) div r * r)))"
proof -
  have "0 \<le> - v" "- v \<le> i64_max" using assms by (auto simp: in_scale_def smin_smax_64)
  from unit_times_in_scale [OF negated_multiple_in_scale [OF this assms(3)]] assms in_scale_finite [OF assms(1)] in_scale_finite [OF assms(2)]
  show ?thesis
    by (simp add: RoundDownTo_def tdiv_neg)
qed

section \<open>Properties\<close>

text \<open>
  C18: \<^verbatim>\<open>operator+\<close> and \<^verbatim>\<open>operator-\<close> of a relative unit compute the sum and the difference of the extended
  integers the operands stand for, on every branch: opposite infinities fail a check, an infinite
  operand is absorbing, a finite result outside \<^verbatim>\<open>int64_t\<close> is signed overflow, and one that would
  read as an infinity, or be negative in a one-sided unit, fails a check.
\<close>

theorem unit_arithmetic_extended:
  assumes "valid u" "valid v"
  shows "unit_add one_sided u v = ext_outcome one_sided (ext_add (meaning u) (meaning v)) \<and>
    unit_sub one_sided u v = ext_outcome one_sided (ext_add (meaning u) (ext_neg (meaning v)))"
  using unit_add_ext [OF assms] unit_sub_ext [OF assms] by simp

theorem unit_arithmetic_extended_witness:
  "unit_add False (Unit 7) (Unit (- 9)) = Inr (Unit (- 2)) \<and>
   unit_sub False PlusInfinity (Unit 3) = Inr PlusInfinity"
  using unit_arithmetic_extended [of "Unit 7" "Unit (- 9)" False]
    unit_arithmetic_extended [of PlusInfinity "Unit 3" False]
  by (simp add: meaning_def IsPlusInfinity_def IsMinusInfinity_def in_scale_def int_bounds
      PlusInfinity_def)

text \<open>
  C32: a value built from a count of \<open>d\<close>-fold units reads back as the same count, for every integral type
  of at most 64 bits; and the accessor of a finite unit returns the nearest count, ties away from
  zero, unless adding half of \<open>d\<close> to the value leaves \<^verbatim>\<open>int64_t\<close>, which the code does not guard against
  and which is undefined behaviour.
\<close>

theorem ToFraction_rounds:
  assumes "0 < d" "d < i64_max" "wf_type T" "size_of T \<le> 8" "represents T v"
    and "valid u" "IsFinite u" "one_sided \<longrightarrow> 0 \<le> unit_value u"
  shows "(FromFraction one_sided T d v = Inr w \<longrightarrow> ToFraction one_sided int64_type d w = Inr v) \<and>
    (if room_for_half d (unit_value u)
     then \<exists>q. ToFraction one_sided int64_type d u = Inr q \<and> nearest d (unit_value u) q
     else ToFraction one_sided int64_type d u = Inl Undefined_behaviour)"
  using fraction_round_trip [OF assms(1-5)] ToFraction_nearest [OF assms(1,2,6-8)]
    ToFraction_overflow [OF assms(1,7,8)] by auto

theorem ToFraction_rounds_witness:
  "ToFraction False int64_type 1000 (Unit 9223372036854775806) = Inl Undefined_behaviour"
  using ToFraction_rounds [of 1000 int64_type 5 "Unit 9223372036854775806" False "Unit 5000"]
  by (simp add: int_bounds room_for_half_def int64_type_def wf_type_def represents_def
      limits_min_def limits_max_def bits_of_def)

text \<open>
  for a non-negative finite unit \<open>RoundDownTo\<close>, \<open>RoundUpTo\<close> and \<open>RoundTo\<close> return the largest multiple of
  the resolution below, the least one above and the nearest one (a tie going up), as long as the
  addition inside stays within \<^verbatim>\<open>int64_t\<close>.
\<close>

theorem rounding_nonneg:
  assumes "in_scale True v" "in_scale True r" "0 < r" "v + r \<le> i64_max"
  shows "\<exists>a b c. RoundDownTo s (Unit v) (Unit r) = Inr (Unit (a * r)) \<and> a * r \<le> v \<and> v < a * r + r \<and>
    RoundUpTo s (Unit v) (Unit r) = Inr (Unit (b * r)) \<and> v \<le> b * r \<and> b * r < v + r \<and>
    RoundTo s (Unit v) (Unit r) = Inr (Unit (c * r)) \<and> nearest r v c"
proof -
  have "v + r div 2 < i64_max" using assms(3,4) by auto
  then show ?thesis
    using RoundDownTo_nonneg [OF assms(1-3)] RoundUpTo_nonneg [OF assms] RoundTo_nonneg [OF assms(1-3)]
      floor_bounds [OF assms(3), of v] least_multiple [OF assms(3), of v]
      nearest_pos [OF assms(3), of v] assms(1)
    by (metis in_scale_def)
qed

theorem rounding_nonneg_witness:
  "\<exists>a b c. RoundDownTo True (Unit 17) (Unit 5) = Inr (Unit (a * 5)) \<and> a * 5 \<le> 17 \<and> 17 < a * 5 + 5 \<and>
    RoundUpTo True (Unit 17) (Unit 5) = Inr (Unit (b * 5)) \<and> 17 \<le> b * 5 \<and> b * 5 < 17 + 5 \<and>
    RoundTo True (Unit 17) (Unit 5) = Inr (Unit (c * 5)) \<and> nearest 5 17 c"
  by (rule rounding_nonneg) (simp_all add: in_scale_def int_bounds)

text \<open>
  C34: on negative values the truncating division makes the rounding go the wrong way: \<open>RoundUpTo\<close> moves a
  negative multiple of a resolution greater than one to the next multiple above it, instead of leaving
  it, and \<open>RoundDownTo\<close> returns a value above its argument whenever that is not a multiple.
\<close>

theorem rounding_negative_wrong_way:
  assumes "in_scale False (- (k * r))" "in_scale False v" "in_scale True r" "1 < r" "0 < k"
    and "v < 0" "v mod r \<noteq> 0"
  shows "RoundUpTo False (Unit (- (k * r))) (Unit r) = Inr (Unit (- (k * r) + r)) \<and>
    (\<exists>w. RoundDownTo False (Unit v) (Unit r) = Inr (Unit w) \<and> v < w)"
proof -
  have "r \<le> k * r" using assms(4,5) mult_le_cancel_right1 [of r k] by simp
  moreover have "(k * r - r + 1) div r = k - 1"
    using assms(4) div_mult_self1 [of r 1 "k - 1"] by (simp add: algebra_simps)
  ultimately have up: "RoundUpTo False (Unit (- (k * r))) (Unit r) = Inr (Unit (- ((k - 1) * r)))"
    using RoundUpTo_neg [OF assms(1,3)] assms(4) by simp
  have "(- v) mod r \<noteq> 0" using assms(7) by (simp add: mod_eq_0_iff_dvd)
  then have "(- v) div r * r < - v"
    using floor_bounds [of r "- v"] assms(4) by (metis div_mult_mod_eq add.right_neutral add_cancel_left_right
        less_le zero_less_one less_trans)
  with up RoundDownTo_neg [OF assms(2,3)] assms(4,6) show ?thesis
    by (auto simp: algebra_simps)
qed

theorem rounding_negative_wrong_way_witness:
  "RoundUpTo False (Unit (- 20)) (Unit 10) = Inr (Unit (- 10)) \<and>
   (\<exists>w. RoundDownTo False (Unit (- 13)) (Unit 10) = Inr (Unit w) \<and> - 13 < w)"
  using rounding_negative_wrong_way [of 2 10 "- 13"] by (simp add: in_scale_def int_bounds)

end
