(* ===== verification/Units.thy ===== *)
theory Units
  imports Unit_Base
begin

text \<open>
  \<^verbatim>\<open>api/units\<close>: \<^verbatim>\<open>TimeDelta\<close>, \<^verbatim>\<open>Timestamp\<close>, \<^verbatim>\<open>DataSize\<close>, \<^verbatim>\<open>DataRate\<close> and \<^verbatim>\<open>Frequency\<close>, the unit types
  over \<^verbatim>\<open>UnitBase\<close>, with the operators that combine them.  \<^verbatim>\<open>TimeDelta\<close> is the only one that is not
  one-sided.  The argument \<open>T\<close> is the integral type of a constructor or accessor; the operators use
  the accessors at \<^verbatim>\<open>int64_t\<close>.  Dividing by zero is undefined behaviour.
\<close>

section \<open>Definitions\<close>

type_synonym TimeDelta = unit64
type_synonym Timestamp = unit64
type_synonym DataSize = unit64
type_synonym DataRate = unit64
type_synonym Frequency = unit64

definition quotient :: "int \<Rightarrow> int \<Rightarrow> int outcome" where
  "quotient a b = defined_if (b \<noteq> 0) (i64 (tdiv a b))"

subsection \<open>TimeDelta\<close>

definition TimeDelta_Seconds :: "NumericType \<Rightarrow> int \<Rightarrow> TimeDelta outcome" where
  "TimeDelta_Seconds T v = FromFraction False T 1000000 v"

definition TimeDelta_Millis :: "NumericType \<Rightarrow> int \<Rightarrow> TimeDelta outcome" where
  "TimeDelta_Millis T v = FromFraction False T 1000 v"

definition TimeDelta_Micros :: "NumericType \<Rightarrow> int \<Rightarrow> TimeDelta outcome" where
  "TimeDelta_Micros T v = FromValue False T v"

definition TimeDelta_seconds :: "NumericType \<Rightarrow> TimeDelta \<Rightarrow> int outcome" where
  "TimeDelta_seconds T t = ToFraction False T 1000000 t"

definition TimeDelta_ms :: "NumericType \<Rightarrow> TimeDelta \<Rightarrow> int outcome" where
  "TimeDelta_ms T t = ToFraction False T 1000 t"

definition TimeDelta_us :: "NumericType \<Rightarrow> TimeDelta \<Rightarrow> int outcome" where
  "TimeDelta_us T t = ToValue T t"

definition TimeDelta_ns :: "NumericType \<Rightarrow> TimeDelta \<Rightarrow> int outcome" where
  "TimeDelta_ns T t = ToMultiple T 1000 t"

definition TimeDelta_seconds_or :: "TimeDelta \<Rightarrow> int \<Rightarrow> int outcome" where
  "TimeDelta_seconds_or t fallback_value = ToFractionOr False 1000000 t fallback_value"

definition TimeDelta_ms_or :: "TimeDelta \<Rightarrow> int \<Rightarrow> int outcome" where
  "TimeDelta_ms_or t fallback_value = ToFractionOr False 1000 t fallback_value"

definition TimeDelta_us_or :: "TimeDelta \<Rightarrow> int \<Rightarrow> int" where
  "TimeDelta_us_or t fallback_value = ToValueOr t fallback_value"

definition TimeDelta_Abs :: "TimeDelta \<Rightarrow> TimeDelta outcome" where
  "TimeDelta_Abs t =
     and_then (TimeDelta_us int64_type t) (\<lambda>us.
       if us < 0 then and_then (i64 (- us)) (TimeDelta_Micros int64_type) else Inr t)"

subsection \<open>Timestamp\<close>

definition Timestamp_Seconds :: "NumericType \<Rightarrow> int \<Rightarrow> Timestamp outcome" where
  "Timestamp_Seconds T v = FromFraction True T 1000000 v"

definition Timestamp_Millis :: "NumericType \<Rightarrow> int \<Rightarrow> Timestamp outcome" where
  "Timestamp_Millis T v = FromFraction True T 1000 v"

definition Timestamp_Micros :: "NumericType \<Rightarrow> int \<Rightarrow> Timestamp outcome" where
  "Timestamp_Micros T v = FromValue True T v"

definition Timestamp_seconds :: "NumericType \<Rightarrow> Timestamp \<Rightarrow> int outcome" where
  "Timestamp_seconds T t = ToFraction True T 1000000 t"

definition Timestamp_ms :: "NumericType \<Rightarrow> Timestamp \<Rightarrow> int outcome" where
  "Timestamp_ms T t = ToFraction True T 1000 t"

definition Timestamp_us :: "NumericType \<Rightarrow> Timestamp \<Rightarrow> int outcome" where
  "Timestamp_us T t = ToValue T t"

definition Timestamp_seconds_or :: "Timestamp \<Rightarrow> int \<Rightarrow> int outcome" where
  "Timestamp_seconds_or t fallback_value = ToFractionOr True 1000000 t fallback_value"

definition Timestamp_ms_or :: "Timestamp \<Rightarrow> int \<Rightarrow> int outcome" where
  "Timestamp_ms_or t fallback_value = ToFractionOr True 1000 t fallback_value"

definition Timestamp_us_or :: "Timestamp \<Rightarrow> int \<Rightarrow> int" where
  "Timestamp_us_or t fallback_value = ToValueOr t fallback_value"

definition Timestamp_add :: "Timestamp \<Rightarrow> TimeDelta \<Rightarrow> Timestamp outcome" where
  "Timestamp_add t delta =
     (if IsPlusInfinity t \<or> IsPlusInfinity delta
      then dcheck (\<not> IsMinusInfinity t) (dcheck (\<not> IsMinusInfinity delta) (Inr PlusInfinity))
      else if IsMinusInfinity t \<or> IsMinusInfinity delta
      then dcheck (\<not> IsPlusInfinity t) (dcheck (\<not> IsPlusInfinity delta) (Inr MinusInfinity))
      else and_then (Timestamp_us int64_type t) (\<lambda>a. and_then (TimeDelta_us int64_type delta) (\<lambda>b.
             and_then (i64 (a + b)) (Timestamp_Micros int64_type))))"

definition Timestamp_sub_delta :: "Timestamp \<Rightarrow> TimeDelta \<Rightarrow> Timestamp outcome" where
  "Timestamp_sub_delta t delta =
     (if IsPlusInfinity t \<or> IsMinusInfinity delta
      then dcheck (\<not> IsMinusInfinity t) (dcheck (\<not> IsPlusInfinity delta) (Inr PlusInfinity))
      else if IsMinusInfinity t \<or> IsPlusInfinity delta
      then dcheck (\<not> IsPlusInfinity t) (dcheck (\<not> IsMinusInfinity delta) (Inr MinusInfinity))
      else and_then (Timestamp_us int64_type t) (\<lambda>a. and_then (TimeDelta_us int64_type delta) (\<lambda>b.
             and_then (i64 (a - b)) (Timestamp_Micros int64_type))))"

definition Timestamp_diff :: "Timestamp \<Rightarrow> Timestamp \<Rightarrow> TimeDelta outcome" where
  "Timestamp_diff t other =
     (if IsPlusInfinity t \<or> IsMinusInfinity other
      then dcheck (\<not> IsMinusInfinity t) (dcheck (\<not> IsPlusInfinity other) (Inr PlusInfinity))
      else if IsMinusInfinity t \<or> IsPlusInfinity other
      then dcheck (\<not> IsPlusInfinity t) (dcheck (\<not> IsMinusInfinity other) (Inr MinusInfinity))
      else and_then (Timestamp_us int64_type t) (\<lambda>a. and_then (Timestamp_us int64_type other) (\<lambda>b.
             and_then (i64 (a - b)) (TimeDelta_Micros int64_type))))"

definition Timestamp_sub_assign :: "Timestamp \<Rightarrow> TimeDelta \<Rightarrow> Timestamp outcome" where
  "Timestamp_sub_assign t delta = Timestamp_sub_delta t delta"

definition Timestamp_add_assign :: "Timestamp \<Rightarrow> TimeDelta \<Rightarrow> Timestamp outcome" where
  "Timestamp_add_assign t delta = Timestamp_add t delta"

subsection \<open>DataSize\<close>

definition DataSize_Bytes :: "NumericType \<Rightarrow> int \<Rightarrow> DataSize outcome" where
  "DataSize_Bytes T v = FromValue True T v"

definition DataSize_bytes :: "NumericType \<Rightarrow> DataSize \<Rightarrow> int outcome" where
  "DataSize_bytes T x = ToValue T x"

definition DataSize_bytes_or :: "DataSize \<Rightarrow> int \<Rightarrow> int" where
  "DataSize_bytes_or x fallback_value = ToValueOr x fallback_value"

subsection \<open>Frequency\<close>

definition MilliHertz :: "NumericType \<Rightarrow> int \<Rightarrow> Frequency outcome" where
  "MilliHertz T v = FromValue True T v"

definition Hertz :: "NumericType \<Rightarrow> int \<Rightarrow> Frequency outcome" where
  "Hertz T v = FromFraction True T 1000 v"

definition KiloHertz :: "NumericType \<Rightarrow> int \<Rightarrow> Frequency outcome" where
  "KiloHertz T v = FromFraction True T 1000000 v"

definition hertz :: "NumericType \<Rightarrow> Frequency \<Rightarrow> int outcome" where
  "hertz T f = ToFraction True T 1000 f"

definition millihertz :: "NumericType \<Rightarrow> Frequency \<Rightarrow> int outcome" where
  "millihertz T f = ToValue T f"

definition per_interval :: "int \<Rightarrow> TimeDelta \<Rightarrow> Frequency outcome" where
  "per_interval nominator interval =
     (let kKiloPerMicro = 1000 * 1000000 in
      dcheck (nominator \<le> tdiv (limits_max int64_type) kKiloPerMicro)
      (rtc_check (IsFinite interval)
      (rtc_check (\<not> IsZero interval)
      (and_then (i64 (nominator * kKiloPerMicro)) (\<lambda>p.
       and_then (TimeDelta_us int64_type interval) (\<lambda>us.
       and_then (quotient p us) (MilliHertz int64_type)))))))"

definition per_frequency :: "int \<Rightarrow> Frequency \<Rightarrow> TimeDelta outcome" where
  "per_frequency nominator frequency =
     (let kMegaPerMilli = 1000000 * 1000 in
      dcheck (nominator \<le> tdiv (limits_max int64_type) kMegaPerMilli)
      (rtc_check (IsFinite frequency)
      (rtc_check (\<not> IsZero frequency)
      (and_then (i64 (nominator * kMegaPerMilli)) (\<lambda>p.
       and_then (millihertz int64_type frequency) (\<lambda>mhz.
       and_then (quotient p mhz) (TimeDelta_Micros int64_type)))))))"

subsection \<open>DataRate\<close>

definition BitsPerSec :: "NumericType \<Rightarrow> int \<Rightarrow> DataRate outcome" where
  "BitsPerSec T v = FromValue True T v"

definition BytesPerSec :: "NumericType \<Rightarrow> int \<Rightarrow> DataRate outcome" where
  "BytesPerSec T v = FromFraction True T 8 v"

definition KilobitsPerSec :: "NumericType \<Rightarrow> int \<Rightarrow> DataRate outcome" where
  "KilobitsPerSec T v = FromFraction True T 1000 v"

definition Infinity :: unit64 where
  "Infinity = PlusInfinity"

definition bps :: "NumericType \<Rightarrow> DataRate \<Rightarrow> int outcome" where
  "bps T r = ToValue T r"

definition bytes_per_sec :: "NumericType \<Rightarrow> DataRate \<Rightarrow> int outcome" where
  "bytes_per_sec T r = ToFraction True T 8 r"

definition kbps :: "NumericType \<Rightarrow> DataRate \<Rightarrow> int outcome" where
  "kbps T r = ToFraction True T 1000 r"

definition bps_or :: "DataRate \<Rightarrow> int \<Rightarrow> int" where
  "bps_or r fallback_value = ToValueOr r fallback_value"

definition kbps_or :: "DataRate \<Rightarrow> int \<Rightarrow> int outcome" where
  "kbps_or r fallback_value = ToFractionOr True 1000 r fallback_value"

definition Microbits :: "DataSize \<Rightarrow> int outcome" where
  "Microbits size1 =
     (let kMaxBeforeConversion = tdiv (limits_max int64_type) 8000000 in
      and_then (DataSize_bytes int64_type size1) (\<lambda>b.
      dcheck (b \<le> kMaxBeforeConversion) (i64 (b * 8000000))))"

definition MillibytePerSec :: "DataRate \<Rightarrow> int outcome" where
  "MillibytePerSec rate =
     (let kMaxBeforeConversion = tdiv (limits_max int64_type) (tdiv 1000 8) in
      and_then (bps int64_type rate) (\<lambda>b.
      dcheck (b \<le> kMaxBeforeConversion) (i64 (b * tdiv 1000 8))))"

definition size_per_duration :: "DataSize \<Rightarrow> TimeDelta \<Rightarrow> DataRate outcome" where
  "size_per_duration size1 duration =
     and_then (Microbits size1) (\<lambda>m. and_then (TimeDelta_us int64_type duration) (\<lambda>us.
     and_then (quotient m us) (BitsPerSec int64_type)))"

definition size_per_rate :: "DataSize \<Rightarrow> DataRate \<Rightarrow> TimeDelta outcome" where
  "size_per_rate size1 rate =
     and_then (Microbits size1) (\<lambda>m. and_then (bps int64_type rate) (\<lambda>b.
     and_then (quotient m b) (TimeDelta_Micros int64_type)))"

definition rate_times_duration :: "DataRate \<Rightarrow> TimeDelta \<Rightarrow> DataSize outcome" where
  "rate_times_duration rate duration =
     and_then (bps int64_type rate) (\<lambda>b. and_then (TimeDelta_us int64_type duration) (\<lambda>us.
     and_then (i64 (b * us)) (\<lambda>microbits.
     and_then (i64 (microbits + 4000000)) (\<lambda>s.
     and_then (quotient s 8000000) (DataSize_Bytes int64_type)))))"

definition duration_times_rate :: "TimeDelta \<Rightarrow> DataRate \<Rightarrow> DataSize outcome" where
  "duration_times_rate duration rate = rate_times_duration rate duration"

definition rate_per_frequency :: "DataRate \<Rightarrow> Frequency \<Rightarrow> DataSize outcome" where
  "rate_per_frequency rate frequency =
     and_then (millihertz int64_type frequency) (\<lambda>mhz.
     and_then (MillibytePerSec rate) (\<lambda>mb.
     and_then (quotient mb mhz) (DataSize_Bytes int64_type)))"

definition rate_per_size :: "DataRate \<Rightarrow> DataSize \<Rightarrow> Frequency outcome" where
  "rate_per_size rate size1 =
     and_then (MillibytePerSec rate) (\<lambda>mb. and_then (DataSize_bytes int64_type size1) (\<lambda>b.
     and_then (quotient mb b) (MilliHertz int64_type)))"

definition size_times_frequency :: "DataSize \<Rightarrow> Frequency \<Rightarrow> DataRate outcome" where
  "size_times_frequency size1 frequency =
     and_then
       (if IsZero frequency then Inr True
        else and_then (DataSize_bytes int64_type size1) (\<lambda>b.
             and_then (millihertz int64_type frequency) (\<lambda>mhz.
             and_then (quotient (tdiv (limits_max int64_type) 8) mhz) (\<lambda>q. Inr (b \<le> q)))))
     (\<lambda>fits. dcheck fits
     (and_then (DataSize_bytes int64_type size1) (\<lambda>b.
      and_then (i64 (b * 8)) (\<lambda>bits.
      and_then (millihertz int64_type frequency) (\<lambda>mhz.
      and_then (i64 (bits * mhz)) (\<lambda>millibits_per_second.
      and_then (i64 (millibits_per_second + 500)) (\<lambda>s.
      and_then (quotient s 1000) (BitsPerSec int64_type))))))))"

definition frequency_times_size :: "Frequency \<Rightarrow> DataSize \<Rightarrow> DataRate outcome" where
  "frequency_times_size frequency size1 = size_times_frequency size1 frequency"

section \<open>Sums and differences\<close>

text \<open>
  What the additive operators of a unit type promise: they compute in the extended integers, the
  result on the scale \<open>s\<close> of the left operand.
\<close>

locale extended_arithmetic =
  fixes s :: bool
    and plus_unit :: "unit64 \<Rightarrow> unit64 \<Rightarrow> unit64 outcome"
    and minus_unit :: "unit64 \<Rightarrow> unit64 \<Rightarrow> unit64 outcome"
  assumes plus_ext: "valid u \<Longrightarrow> valid d \<Longrightarrow>
      plus_unit u d = ext_outcome s (ext_add (meaning u) (meaning d))"
    and minus_ext: "valid u \<Longrightarrow> valid d \<Longrightarrow>
      minus_unit u d = ext_outcome s (ext_add (meaning u) (ext_neg (meaning d)))"
begin

lemma plus_in_scale: "in_scale t a \<Longrightarrow> in_scale t' b \<Longrightarrow> in_scale s (a + b) \<Longrightarrow>
    plus_unit (Unit a) (Unit b) = Inr (Unit (a + b))"
  using in_scale_finite [of t a] in_scale_finite [of t' b] in_scale_finite [of s "a + b"]
  by (simp add: plus_ext meaning_def IsPlusInfinity_def IsMinusInfinity_def)

lemma minus_in_scale: "in_scale t a \<Longrightarrow> in_scale t' b \<Longrightarrow> in_scale s (a - b) \<Longrightarrow>
    minus_unit (Unit a) (Unit b) = Inr (Unit (a - b))"
  using in_scale_finite [of t a] in_scale_finite [of t' b] in_scale_finite [of s "a - b"]
  by (simp add: minus_ext meaning_def IsPlusInfinity_def IsMinusInfinity_def)

lemma plus_result:
  assumes "in_scale t a" "in_scale t' b" "plus_unit (Unit a) (Unit b) = Inr w"
  shows "w = Unit (a + b) \<and> in_scale s (a + b)"
  using assms in_scale_finite [of t a] in_scale_finite [of t' b]
  by (auto simp: plus_ext meaning_def IsPlusInfinity_def IsMinusInfinity_def outcome_simps)

lemma plus_minus_cancel:
  assumes "in_scale s a" "in_scale t b" "plus_unit (Unit a) (Unit b) = Inr w"
  shows "minus_unit w (Unit b) = Inr (Unit a)"
  using plus_result [OF assms] minus_in_scale [of s "a + b" t b] assms by simp

lemma plus_infinite:
  assumes "valid u" "u \<noteq> MinusInfinity"
  shows "plus_unit PlusInfinity u = Inr PlusInfinity \<and> plus_unit u PlusInfinity = Inr PlusInfinity"
  using assms
  by (cases u) (auto simp: plus_ext meaning_def IsPlusInfinity_def IsMinusInfinity_def
      PlusInfinity_def MinusInfinity_def fits_signed_def)

end

interpretation relative_unit: extended_arithmetic s "unit_add s" "unit_sub s" for s
  by unfold_locales (simp_all add: unit_add_ext unit_sub_ext)

lemma Timestamp_add_eq: "Timestamp_add t d = unit_add True t d"
  by (simp add: Timestamp_add_def unit_add_def Timestamp_us_def TimeDelta_us_def
      Timestamp_Micros_def [abs_def])

lemma Timestamp_sub_delta_eq: "Timestamp_sub_delta t d = unit_sub True t d"
  by (simp add: Timestamp_sub_delta_def unit_sub_def Timestamp_us_def TimeDelta_us_def
      Timestamp_Micros_def [abs_def])

lemma Timestamp_diff_eq: "Timestamp_diff t u = unit_sub False t u"
  by (simp add: Timestamp_diff_def unit_sub_def Timestamp_us_def
      TimeDelta_Micros_def [abs_def])

interpretation timestamp: extended_arithmetic True Timestamp_add Timestamp_sub_delta
  by unfold_locales (simp_all add: Timestamp_add_eq Timestamp_sub_delta_eq unit_add_ext unit_sub_ext)

section \<open>Scaled accessors\<close>

text \<open>
  A constructor and an accessor at the same scale \<open>d\<close>: what the constructor accepts is read back,
  and the accessor is the nearest count whatever the unit holds.
\<close>

locale scaled_view =
  fixes s :: bool
    and d :: int
    and make :: "NumericType \<Rightarrow> int \<Rightarrow> unit64 outcome"
    and read :: "NumericType \<Rightarrow> unit64 \<Rightarrow> int outcome"
  assumes scale_pos: "0 < d"
    and make_value: "wf_type T \<Longrightarrow> size_of T \<le> 8 \<Longrightarrow> represents T v \<Longrightarrow>
      make T v = dcheck (fraction_range s d v) (Inr (Unit (v * d)))"
    and read_make: "wf_type T \<Longrightarrow> size_of T \<le> 8 \<Longrightarrow> represents T v \<Longrightarrow> make T v = Inr u \<Longrightarrow>
      read int64_type u = Inr v"
    and read_nearest: "in_scale s n \<Longrightarrow> room_for_half d n \<Longrightarrow>
      \<exists>q. read int64_type (Unit n) = Inr q \<and> nearest d n q"
begin

lemma make_inj:
  assumes "fits_signed 64 v" "fits_signed 64 w" "make int64_type v = Inr u" "make int64_type w = Inr u"
  shows "v = w"
proof -
  have "size_of int64_type \<le> 8" by (simp add: int64_type_def)
  then have "read int64_type u = Inr v"
    using assms by (intro read_make) auto
  moreover have "read int64_type u = Inr w"
    using assms \<open>size_of int64_type \<le> 8\<close> by (intro read_make) auto
  ultimately show ?thesis by simp
qed

lemma read_mono:
  assumes "in_scale s m" "in_scale s n" "room_for_half d m" "room_for_half d n" "m \<le> n"
    and "read int64_type (Unit m) = Inr p" "read int64_type (Unit n) = Inr q"
  shows "p \<le> q"
proof (rule ccontr)
  assume "\<not> p \<le> q"
  then have "(q + 1) * d \<le> p * d" using scale_pos by (intro mult_right_mono) auto
  then have step: "q * d + d \<le> p * d" by (simp add: algebra_simps)
  have near: "nearest d m p" "nearest d n q"
    using read_nearest assms by force+
  then have "2 * \<bar>m - p * d\<bar> \<le> d" "2 * \<bar>n - q * d\<bar> \<le> d"
    by (simp_all add: nearest_def)
  then have "2 * (p * d - m) \<le> d" "2 * (n - q * d) \<le> d"
    by (simp_all add: abs_if split: if_splits)
  with step have "n \<le> m" by (simp add: algebra_simps)
  with assms(5) have "m = n" by simp
  with near nearest_unique [OF scale_pos] \<open>\<not> p \<le> q\<close> show False by blast
qed

end

lemma scaled_view_fraction:
  assumes "0 < d" "d < i64_max"
  shows "scaled_view s d (\<lambda>T. FromFraction s T d) (\<lambda>T. ToFraction s T d)"
proof
  show "\<exists>q. ToFraction s int64_type d (Unit n) = Inr q \<and> nearest d n q"
    if "in_scale s n" "room_for_half d n" for n
    using ToFraction_nearest [OF assms, of "Unit n" s] that in_scale_finite [OF that(1)]
    by (auto simp: in_scale_def)
qed (use assms FromFraction_value fraction_round_trip in \<open>auto simp: int_bounds\<close>)

interpretation timedelta_seconds: scaled_view False 1000000 TimeDelta_Seconds TimeDelta_seconds
  using scaled_view_fraction [of 1000000 False]
  by (simp add: TimeDelta_Seconds_def [abs_def] TimeDelta_seconds_def [abs_def] int_bounds)

interpretation timedelta_ms: scaled_view False 1000 TimeDelta_Millis TimeDelta_ms
  using scaled_view_fraction [of 1000 False]
  by (simp add: TimeDelta_Millis_def [abs_def] TimeDelta_ms_def [abs_def] int_bounds)

interpretation timestamp_seconds: scaled_view True 1000000 Timestamp_Seconds Timestamp_seconds
  using scaled_view_fraction [of 1000000 True]
  by (simp add: Timestamp_Seconds_def [abs_def] Timestamp_seconds_def [abs_def] int_bounds)

interpretation timestamp_ms: scaled_view True 1000 Timestamp_Millis Timestamp_ms
  using scaled_view_fraction [of 1000 True]
  by (simp add: Timestamp_Millis_def [abs_def] Timestamp_ms_def [abs_def] int_bounds)

interpretation datarate_bytes: scaled_view True 8 BytesPerSec bytes_per_sec
  using scaled_view_fraction [of 8 True]
  by (simp add: BytesPerSec_def [abs_def] bytes_per_sec_def [abs_def] int_bounds)

interpretation datarate_kbps: scaled_view True 1000 KilobitsPerSec kbps
  using scaled_view_fraction [of 1000 True]
  by (simp add: KilobitsPerSec_def [abs_def] kbps_def [abs_def] int_bounds)

interpretation frequency_hertz: scaled_view True 1000 Hertz hertz
  using scaled_view_fraction [of 1000 True]
  by (simp add: Hertz_def [abs_def] hertz_def [abs_def] int_bounds)

section \<open>Rates\<close>

lemma accessors_i64:
  assumes "in_scale s n"
  shows "TimeDelta_us int64_type (Unit n) = Inr n" "bps int64_type (Unit n) = Inr n"
    "DataSize_bytes int64_type (Unit n) = Inr n" "millihertz int64_type (Unit n) = Inr n"
  using in_scale_finite [OF assms]
  by (simp_all add: TimeDelta_us_def bps_def DataSize_bytes_def millihertz_def ToValue_i64)

lemma makers_i64:
  assumes "in_scale True n"
  shows "DataSize_Bytes int64_type n = Inr (Unit n)" "BitsPerSec int64_type n = Inr (Unit n)"
    "MilliHertz int64_type n = Inr (Unit n)"
  using in_scale_finite [OF assms] assms
  by (simp_all add: DataSize_Bytes_def BitsPerSec_def MilliHertz_def FromValue_i64)

lemma TimeDelta_Micros_i64: "in_scale False n \<Longrightarrow> TimeDelta_Micros int64_type n = Inr (Unit n)"
  using in_scale_finite [of False n] by (simp add: TimeDelta_Micros_def FromValue_i64)

lemma quotient_nonneg:
  assumes "0 \<le> a" "a \<le> i64_max" "0 < b"
  shows "quotient a b = Inr (a div b)"
proof -
  have "0 \<le> a div b" "a div b \<le> a" using multiple_bounds [OF assms(1,3)] by auto
  then show ?thesis using assms by (simp add: quotient_def tdiv_nonneg int_bounds)
qed

lemma rate_times_duration_value:
  assumes "in_scale True b" "in_scale True us" "b * us + 4000000 \<le> i64_max"
  shows "rate_times_duration (Unit b) (Unit us) = Inr (Unit ((b * us + 4000000) div 8000000))"
proof -
  have pos: "0 \<le> b * us" using assms by (simp add: in_scale_def)
  then have q: "0 \<le> (b * us + 4000000) div 8000000" "(b * us + 4000000) div 8000000 \<le> b * us + 4000000"
    using multiple_bounds [of "b * us + 4000000" 8000000] by auto
  have "(b * us + 4000000) div 8000000 < i64_max" using assms(3) by (simp add: int_bounds)
  with q have "in_scale True ((b * us + 4000000) div 8000000)"
    unfolding in_scale_def smin_smax_64 by linarith
  then show ?thesis
    using assms pos accessors_i64 [OF assms(1)] accessors_i64 [OF assms(2)]
    by (simp add: rate_times_duration_def quotient_nonneg makers_i64 int_bounds)
qed

lemma rate_times_duration_overflow:
  assumes "in_scale True b" "in_scale True us" "i64_max < b * us + 4000000"
  shows "rate_times_duration (Unit b) (Unit us) = Inl Undefined_behaviour"
  using assms accessors_i64 [OF assms(1)] accessors_i64 [OF assms(2)]
  by (cases "fits_signed 64 (b * us)") (simp_all add: rate_times_duration_def fits_signed_def)

lemma Microbits_value:
  assumes "in_scale True n"
  shows "Microbits (Unit n) = dcheck (n \<le> 1152921504606) (Inr (n * 8000000))"
proof -
  have "limits_max int64_type = i64_max" by (fact infinity_vals(1) [unfolded PlusInfinityVal_def])
  with assms show ?thesis
    using accessors_i64 [OF assms]
    by (auto simp: Microbits_def tdiv_nonneg dcheck_def in_scale_def int_bounds)
qed

lemma size_per_rate_value:
  assumes "in_scale True n" "in_scale True b" "0 < b" "n \<le> 1152921504606"
  shows "size_per_rate (Unit n) (Unit b) = Inr (Unit (n * 8000000 div b))"
proof -
  have n: "0 \<le> n * 8000000" "n * 8000000 \<le> 9223372036848000000"
    using assms by (auto simp: in_scale_def)
  then have "in_scale False (n * 8000000 div b)"
    using multiple_bounds [OF n(1) assms(3)] unfolding in_scale_def smin_smax_64 by linarith
  then show ?thesis
    using assms n accessors_i64 [OF assms(2)]
    by (simp add: size_per_rate_def Microbits_value quotient_nonneg TimeDelta_Micros_i64 int_bounds)
qed

lemma size_rate_there_and_back:
  assumes "in_scale True n" "n \<le> 1152921504606" "0 < b" "b \<le> 4000000"
  shows "\<exists>duration. size_per_rate (Unit n) (Unit b) = Inr duration \<and>
    rate_times_duration (Unit b) duration = Inr (Unit n)"
proof -
  let ?us = "n * 8000000 div b"
  have b: "in_scale True b" using assms by (simp add: in_scale_def int_bounds)
  have n: "0 \<le> n * 8000000" "n * 8000000 \<le> 9223372036848000000"
    using assms by (auto simp: in_scale_def)
  have us: "in_scale True ?us"
    using multiple_bounds [OF n(1) assms(3)] n(2) unfolding in_scale_def smin_smax_64 by linarith
  have prod: "b * ?us \<le> n * 8000000" "n * 8000000 < b * ?us + b"
    using floor_bounds [OF assms(3), of "n * 8000000"] by (simp_all add: mult.commute)
  then have "(b * ?us + 4000000) div 8000000 = n"
    using assms(4) by (intro div_pos_geq [THEN trans] int_div_pos_eq [of _ _ _ "b * ?us + 4000000 - 8000000 * n"]) auto
  then show ?thesis
    using size_per_rate_value [OF assms(1) b assms(3,2)] rate_times_duration_value [OF b us] prod(1) n(2)
    by (simp add: int_bounds)
qed

section \<open>Properties\<close>

text \<open>
  C29: timestamps and time deltas: the difference of two finite timestamps never fails, and adding it to
  the earlier operand gives the later one back; conversely, when a timestamp and a delta have a sum,
  subtracting either operand from it returns the other.
\<close>

theorem Timestamp_algebra:
  assumes "in_scale True a" "in_scale True b" "in_scale False d"
  shows "(\<exists>diff. Timestamp_diff (Unit a) (Unit b) = Inr diff \<and>
      Timestamp_add (Unit b) diff = Inr (Unit a)) \<and>
    (\<forall>w. Timestamp_add (Unit a) (Unit d) = Inr w \<longrightarrow>
      Timestamp_diff w (Unit a) = Inr (Unit d) \<and> Timestamp_sub_delta w (Unit d) = Inr (Unit a))"
proof (intro conjI allI impI)
  have ab: "in_scale False (a - b)" using assms by (auto simp: in_scale_def smin_smax_64)
  have "Timestamp_diff (Unit a) (Unit b) = Inr (Unit (a - b))"
    using relative_unit.minus_in_scale [OF assms(1,2) ab] by (simp add: Timestamp_diff_eq)
  moreover have "Timestamp_add (Unit b) (Unit (a - b)) = Inr (Unit a)"
    using timestamp.plus_in_scale [OF assms(2) ab] assms(1) by simp
  ultimately show "\<exists>diff. Timestamp_diff (Unit a) (Unit b) = Inr diff \<and>
    Timestamp_add (Unit b) diff = Inr (Unit a)" by blast
next
  fix w
  assume sum: "Timestamp_add (Unit a) (Unit d) = Inr w"
  show "Timestamp_sub_delta w (Unit d) = Inr (Unit a)"
    by (rule timestamp.plus_minus_cancel [OF assms(1,3) sum])
  from timestamp.plus_result [OF assms(1,3) sum]
  have "w = Unit (a + d)" "in_scale True (a + d)" by auto
  then show "Timestamp_diff w (Unit a) = Inr (Unit d)"
    using relative_unit.minus_in_scale [of True "a + d" True a False] assms
    by (simp add: Timestamp_diff_eq)
qed

theorem Timestamp_algebra_witness:
  "(\<exists>diff. Timestamp_diff (Unit 5) (Unit 12) = Inr diff \<and>
     Timestamp_add (Unit 12) diff = Inr (Unit 5)) \<and>
   Timestamp_diff (Unit 3) (Unit 5) = Inr (Unit (- 2))"
proof -
  have "Timestamp_add (Unit 5) (Unit (- 2)) = Inr (Unit 3)"
    using timestamp.plus_in_scale [of True 5 False "- 2"] by (simp add: in_scale_def int_bounds)
  then show ?thesis
    using Timestamp_algebra [of 5 12 "- 2"] by (simp add: in_scale_def int_bounds)
qed

text \<open>
  C30: the bytes sent at a rate during a non-negative time are the nearest number of bytes, for every
  product that leaves room for the rounding; past that the multiplication, which has no guard,
  overflows.
\<close>

theorem rate_times_duration_nearest:
  assumes "in_scale True b" "in_scale True us"
  shows "if b * us + 4000000 \<le> i64_max
    then \<exists>n. rate_times_duration (Unit b) (Unit us) = Inr (Unit n) \<and> nearest 8000000 (b * us) n
    else rate_times_duration (Unit b) (Unit us) = Inl Undefined_behaviour"
  using assms rate_times_duration_value [OF assms] rate_times_duration_overflow [OF assms]
    nearest_pos [of 8000000 "b * us"]
  by (auto simp: in_scale_def)

theorem rate_times_duration_nearest_witness:
  "rate_times_duration (Unit 10000000000) (Unit 1000000000) = Inl Undefined_behaviour"
  using rate_times_duration_nearest [of 10000000000 1000000000]
  by (simp add: in_scale_def int_bounds)

text \<open>
  C31: for a finite size of at most 1152921504606 bytes and a rate above zero and at most four megabits per second, the time to
  send the bytes, multiplied by the rate again, is exactly that number of bytes: the truncation of the time to microseconds
  is lost in the rounding of the product.  A larger size fails the check on the conversion, and a rate of zero
  divides by zero.
\<close>

theorem size_rate_round_trip:
  assumes "in_scale True n" "0 \<le> b" "b \<le> 4000000"
  shows "if 1152921504606 < n then size_per_rate (Unit n) (Unit b) = Inl Dcheck_failed
    else if b = 0 then size_per_rate (Unit n) (Unit b) = Inl Undefined_behaviour
    else \<exists>duration. size_per_rate (Unit n) (Unit b) = Inr duration \<and>
      rate_times_duration (Unit b) duration = Inr (Unit n)"
proof -
  have "in_scale True b" using assms by (simp add: in_scale_def int_bounds)
  from accessors_i64 [OF this] show ?thesis
    using assms size_rate_there_and_back [of n b]
    by (auto simp: size_per_rate_def Microbits_value quotient_def)
qed

theorem size_rate_round_trip_witness:
  "\<exists>duration. size_per_rate (Unit 1200) (Unit 300000) = Inr duration \<and>
    rate_times_duration (Unit 300000) duration = Inr (Unit 1200)"
  using size_rate_round_trip [of 1200 300000] by (simp add: in_scale_def int_bounds)

end
