(* ===== verification/Byte_IO.thy ===== *)
theory Byte_IO
  imports Prelude
begin

text \<open>
  \<^verbatim>\<open>modules/rtp_rtcp/source/byte_io.h\<close>: \<^verbatim>\<open>ByteReader\<close> and \<^verbatim>\<open>ByteWriter\<close>, which move integers of a type
  \<^verbatim>\<open>T\<close> to and from \<^verbatim>\<open>B\<close> bytes in either byte order.

  The bytes behind \<^verbatim>\<open>uint8_t* data\<close> are a list; touching a byte past its end is undefined.  An
  unsigned \<^verbatim>\<open>T\<close> is a word whose length is a multiple of eight, a signed one an \<open>int\<close> in its range and its
  unsigned equivalent \<^verbatim>\<open>UnsignedOf<T>\<close> the word of that length.  The partial specialisations for one, two,
  four and eight bytes are definitions of their own, and the readers and writers select among them
  and the generic loop as the compiler does.  The static assertions on the sizes are hypotheses of
  the theorems.
\<close>

unbundle bit_operations_syntax

type_synonym byte = "8 word"

section \<open>Definitions\<close>

definition sizeof :: "'a::len itself \<Rightarrow> nat" where
  "sizeof t = LENGTH('a) div 8"

subsection \<open>Reading unsigned integers\<close>

definition InternalReadBigEndian :: "nat \<Rightarrow> byte list \<Rightarrow> 'a::len word" where
  "InternalReadBigEndian B data =
     foldl (\<lambda>val i. val OR push_bit ((B - 1 - i) * 8) (ucast (data ! i))) 0 [0..<B]"

definition InternalReadLittleEndian :: "nat \<Rightarrow> byte list \<Rightarrow> 'a::len word" where
  "InternalReadLittleEndian B data =
     foldl (\<lambda>val i. val OR push_bit (i * 8) (ucast (data ! i))) 0 [0..<B]"

definition ReadBigEndian_1 :: "byte list \<Rightarrow> 'a::len word" where
  "ReadBigEndian_1 data = ucast (data ! 0)"

definition ReadLittleEndian_1 :: "byte list \<Rightarrow> 'a::len word" where
  "ReadLittleEndian_1 data = ucast (data ! 0)"

text \<open>The two byte readers compute in \<^verbatim>\<open>int\<close>, to which the bytes are promoted.\<close>

definition ReadBigEndian_2 :: "byte list \<Rightarrow> 'a::len word" where
  "ReadBigEndian_2 data = ucast (push_bit 8 (ucast (data ! 0)) OR ucast (data ! 1) :: 32 word)"

definition ReadLittleEndian_2 :: "byte list \<Rightarrow> 'a::len word" where
  "ReadLittleEndian_2 data = ucast (ucast (data ! 0) OR push_bit 8 (ucast (data ! 1)) :: 32 word)"

definition Get :: "byte list \<Rightarrow> nat \<Rightarrow> 'a::len word" where
  "Get data index = ucast (data ! index)"

definition ReadBigEndian_4 :: "byte list \<Rightarrow> 'a::len word" where
  "ReadBigEndian_4 data =
     push_bit 24 (Get data 0) OR push_bit 16 (Get data 1) OR push_bit 8 (Get data 2) OR Get data 3"

definition ReadLittleEndian_4 :: "byte list \<Rightarrow> 'a::len word" where
  "ReadLittleEndian_4 data =
     Get data 0 OR push_bit 8 (Get data 1) OR push_bit 16 (Get data 2) OR push_bit 24 (Get data 3)"

definition ReadBigEndian_8 :: "byte list \<Rightarrow> 'a::len word" where
  "ReadBigEndian_8 data =
     push_bit 56 (Get data 0) OR push_bit 48 (Get data 1) OR push_bit 40 (Get data 2) OR
     push_bit 32 (Get data 3) OR push_bit 24 (Get data 4) OR push_bit 16 (Get data 5) OR
     push_bit 8 (Get data 6) OR Get data 7"

definition ReadLittleEndian_8 :: "byte list \<Rightarrow> 'a::len word" where
  "ReadLittleEndian_8 data =
     Get data 0 OR push_bit 8 (Get data 1) OR push_bit 16 (Get data 2) OR
     push_bit 24 (Get data 3) OR push_bit 32 (Get data 4) OR push_bit 40 (Get data 5) OR
     push_bit 48 (Get data 6) OR push_bit 56 (Get data 7)"

definition ReadBigEndian :: "nat \<Rightarrow> byte list \<Rightarrow> 'a::len word outcome" where
  "ReadBigEndian B data =
     defined_if (B \<le> length data)
       (Inr (if B = 1 then ReadBigEndian_1 data
             else if B = 2 then ReadBigEndian_2 data
             else if B = 4 then ReadBigEndian_4 data
             else if B = 8 then ReadBigEndian_8 data
             else InternalReadBigEndian B data))"

definition ReadLittleEndian :: "nat \<Rightarrow> byte list \<Rightarrow> 'a::len word outcome" where
  "ReadLittleEndian B data =
     defined_if (B \<le> length data)
       (Inr (if B = 1 then ReadLittleEndian_1 data
             else if B = 2 then ReadLittleEndian_2 data
             else if B = 4 then ReadLittleEndian_4 data
             else if B = 8 then ReadLittleEndian_8 data
             else InternalReadLittleEndian B data))"

subsection \<open>Reading signed integers\<close>

definition ReinterpretAsSigned :: "'a::len word \<Rightarrow> int" where
  "ReinterpretAsSigned unsigned_val =
     (let kUnsignedHighestBitMask = push_bit (LENGTH('a) - 1) 1;
          kSignedHighestBitMask = - (2 ^ (LENGTH('a) - 1))
      in if unsigned_val AND kUnsignedHighestBitMask \<noteq> 0
         then uint (unsigned_val AND NOT kUnsignedHighestBitMask) OR kSignedHighestBitMask
         else uint unsigned_val)"

text \<open>The shift in the mask is of the \<^verbatim>\<open>int\<close> literal 1: undefined from 32 bits on.\<close>

definition kUsedBitsMask :: "nat \<Rightarrow> 'a::len word outcome" where
  "kUsedBitsMask B =
     (let amount = (B mod sizeof TYPE('a)) * 8
      in defined_if (amount < 32) (Inr (word_of_int (2 ^ amount - 1))))"

definition SignExtend :: "nat \<Rightarrow> 'a::len word \<Rightarrow> 'a word outcome" where
  "SignExtend B val =
     (let kMsb = ucast (drop_bit ((B - 1) * 8) val) :: byte
      in if kMsb AND 0x80 \<noteq> 0
         then and_then (kUsedBitsMask B) (\<lambda>mask. Inr (NOT mask OR val))
         else Inr val)"

definition ReadBigEndian_signed :: "'a::len itself \<Rightarrow> nat \<Rightarrow> byte list \<Rightarrow> int outcome" where
  "ReadBigEndian_signed T B data =
     and_then (ReadBigEndian B data) (\<lambda>unsigned_val :: 'a word.
     and_then (if B < sizeof TYPE('a) then SignExtend B unsigned_val else Inr unsigned_val) (\<lambda>v.
     Inr (ReinterpretAsSigned v)))"

definition ReadLittleEndian_signed :: "'a::len itself \<Rightarrow> nat \<Rightarrow> byte list \<Rightarrow> int outcome" where
  "ReadLittleEndian_signed T B data =
     and_then (ReadLittleEndian B data) (\<lambda>unsigned_val :: 'a word.
     and_then (if B < sizeof TYPE('a) then SignExtend B unsigned_val else Inr unsigned_val) (\<lambda>v.
     Inr (ReinterpretAsSigned v)))"

subsection \<open>Writing\<close>

definition WriteBigEndian_loop :: "nat \<Rightarrow> byte list \<Rightarrow> 'a::len word \<Rightarrow> byte list" where
  "WriteBigEndian_loop B data val =
     foldl (\<lambda>data i. data[i := ucast (drop_bit ((B - 1 - i) * 8) val)]) data [0..<B]"

definition WriteLittleEndian_loop :: "nat \<Rightarrow> byte list \<Rightarrow> 'a::len word \<Rightarrow> byte list" where
  "WriteLittleEndian_loop B data val =
     foldl (\<lambda>data i. data[i := ucast (drop_bit (i * 8) val)]) data [0..<B]"

definition WriteBigEndian_1 :: "byte list \<Rightarrow> 'a::len word \<Rightarrow> byte list" where
  "WriteBigEndian_1 data val = data[0 := ucast val]"

definition WriteLittleEndian_1 :: "byte list \<Rightarrow> 'a::len word \<Rightarrow> byte list" where
  "WriteLittleEndian_1 data val = data[0 := ucast val]"

definition WriteBigEndian_2 :: "byte list \<Rightarrow> 'a::len word \<Rightarrow> byte list" where
  "WriteBigEndian_2 data val = data[0 := ucast (drop_bit 8 val), 1 := ucast val]"

definition WriteLittleEndian_2 :: "byte list \<Rightarrow> 'a::len word \<Rightarrow> byte list" where
  "WriteLittleEndian_2 data val = data[0 := ucast val, 1 := ucast (drop_bit 8 val)]"

definition WriteBigEndian_4 :: "byte list \<Rightarrow> 'a::len word \<Rightarrow> byte list" where
  "WriteBigEndian_4 data val =
     data[0 := ucast (drop_bit 24 val), 1 := ucast (drop_bit 16 val),
          2 := ucast (drop_bit 8 val), 3 := ucast val]"

definition WriteLittleEndian_4 :: "byte list \<Rightarrow> 'a::len word \<Rightarrow> byte list" where
  "WriteLittleEndian_4 data val =
     data[0 := ucast val, 1 := ucast (drop_bit 8 val),
          2 := ucast (drop_bit 16 val), 3 := ucast (drop_bit 24 val)]"

definition WriteBigEndian_8 :: "byte list \<Rightarrow> 'a::len word \<Rightarrow> byte list" where
  "WriteBigEndian_8 data val =
     data[0 := ucast (drop_bit 56 val), 1 := ucast (drop_bit 48 val),
          2 := ucast (drop_bit 40 val), 3 := ucast (drop_bit 32 val),
          4 := ucast (drop_bit 24 val), 5 := ucast (drop_bit 16 val),
          6 := ucast (drop_bit 8 val), 7 := ucast val]"

definition WriteLittleEndian_8 :: "byte list \<Rightarrow> 'a::len word \<Rightarrow> byte list" where
  "WriteLittleEndian_8 data val =
     data[0 := ucast val, 1 := ucast (drop_bit 8 val),
          2 := ucast (drop_bit 16 val), 3 := ucast (drop_bit 24 val),
          4 := ucast (drop_bit 32 val), 5 := ucast (drop_bit 40 val),
          6 := ucast (drop_bit 48 val), 7 := ucast (drop_bit 56 val)]"

definition WriteBigEndian :: "nat \<Rightarrow> byte list \<Rightarrow> 'a::len word \<Rightarrow> byte list outcome" where
  "WriteBigEndian B data val =
     defined_if (B \<le> length data)
       (Inr (if B = 1 then WriteBigEndian_1 data val
             else if B = 2 then WriteBigEndian_2 data val
             else if B = 4 then WriteBigEndian_4 data val
             else if B = 8 then WriteBigEndian_8 data val
             else WriteBigEndian_loop B data val))"

definition WriteLittleEndian :: "nat \<Rightarrow> byte list \<Rightarrow> 'a::len word \<Rightarrow> byte list outcome" where
  "WriteLittleEndian B data val =
     defined_if (B \<le> length data)
       (Inr (if B = 1 then WriteLittleEndian_1 data val
             else if B = 2 then WriteLittleEndian_2 data val
             else if B = 4 then WriteLittleEndian_4 data val
             else if B = 8 then WriteLittleEndian_8 data val
             else WriteLittleEndian_loop B data val))"

definition ReinterpretAsUnsigned :: "int \<Rightarrow> 'a::len word" where
  "ReinterpretAsUnsigned val = word_of_int val"

definition WriteBigEndian_signed :: "'a::len itself \<Rightarrow> nat \<Rightarrow> byte list \<Rightarrow> int \<Rightarrow> byte list outcome" where
  "WriteBigEndian_signed T B data val =
     WriteBigEndian B data (ReinterpretAsUnsigned val :: 'a word)"

definition WriteLittleEndian_signed :: "'a::len itself \<Rightarrow> nat \<Rightarrow> byte list \<Rightarrow> int \<Rightarrow> byte list outcome" where
  "WriteLittleEndian_signed T B data val =
     WriteLittleEndian B data (ReinterpretAsUnsigned val :: 'a word)"

section \<open>The loops, bit by bit and byte by byte\<close>

lemma bit_foldl_or:
  "bit (foldl (\<lambda>val i. val OR g i) a xs) n \<longleftrightarrow> bit a n \<or> (\<exists>i\<in>set xs. bit (g i) n)"
  for a :: "'a::len word"
  by (induction xs arbitrary: a) (auto simp: bit_or_iff)

lemma bit_byte_shifted:
  "bit (push_bit (8 * i) (ucast x) :: 'a::len word) n \<longleftrightarrow>
     n < LENGTH('a) \<and> n div 8 = i \<and> bit x (n mod 8)" for x :: byte
proof -
  define q r where "q = n div 8" and "r = n mod 8"
  then have n: "n = 8 * q + r" and r: "r < 8" by simp_all
  have "bit x (n - 8 * i) \<longrightarrow> n - 8 * i < 8" by (auto dest: bit_imp_le_length)
  then have "8 * i \<le> n \<and> bit x (n - 8 * i) \<longleftrightarrow> q = i \<and> bit x r"
    using n r by (cases q i rule: linorder_cases) auto
  moreover have "bit (push_bit (8 * i) (ucast x) :: 'a word) n \<longleftrightarrow>
      n < LENGTH('a) \<and> 8 * i \<le> n \<and> bit x (n - 8 * i)"
    by (auto simp: bit_push_bit_iff bit_unsigned_iff)
  ultimately show ?thesis by (auto simp: q_def r_def)
qed

lemma bit_read_LE_loop:
  "bit (InternalReadLittleEndian B data :: 'a::len word) n \<longleftrightarrow>
     n < LENGTH('a) \<and> n div 8 < B \<and> bit (data ! (n div 8)) (n mod 8)"
  by (auto simp: InternalReadLittleEndian_def bit_foldl_or mult.commute [of _ 8] bit_byte_shifted)

lemma bit_read_BE_loop:
  "bit (InternalReadBigEndian B data :: 'a::len word) n \<longleftrightarrow>
     n < LENGTH('a) \<and> n div 8 < B \<and> bit (data ! (B - 1 - n div 8)) (n mod 8)"
proof -
  have "(\<exists>i<B. n < LENGTH('a) \<and> n div 8 = B - 1 - i \<and> bit (data ! i) (n mod 8)) \<longleftrightarrow>
      n < LENGTH('a) \<and> n div 8 < B \<and> bit (data ! (B - 1 - n div 8)) (n mod 8)" (is "?l = ?r")
  proof
    assume ?l
    then obtain i where i: "i < B" "n < LENGTH('a)" "n div 8 = B - 1 - i" "bit (data ! i) (n mod 8)"
      by blast
    then have "B - 1 - n div 8 = i" by simp
    with i show ?r by simp
  qed (force intro: exI [of _ "B - 1 - n div 8"])
  then show ?thesis
    unfolding InternalReadBigEndian_def bit_foldl_or mult.commute [of _ 8] bit_byte_shifted by auto
qed

lemma write_loop_nth:
  "length (foldl (\<lambda>data i. data[i := g i]) data [0..<B]) = length data \<and>
   (j < length data \<longrightarrow> foldl (\<lambda>data i. data[i := g i]) data [0..<B] ! j = (if j < B then g j else data ! j))"
  by (induction B) (auto simp: nth_list_update less_Suc_eq)

lemma write_LE_loop:
  "length (WriteLittleEndian_loop B data val) = length data"
  "j < length data \<Longrightarrow> WriteLittleEndian_loop B data val ! j =
     (if j < B then ucast (drop_bit (j * 8) val) else data ! j)"
  by (simp_all add: WriteLittleEndian_loop_def write_loop_nth)

lemma write_BE_loop:
  "length (WriteBigEndian_loop B data val) = length data"
  "j < length data \<Longrightarrow> WriteBigEndian_loop B data val ! j =
     (if j < B then ucast (drop_bit ((B - 1 - j) * 8) val) else data ! j)"
  by (simp_all add: WriteBigEndian_loop_def write_loop_nth)

lemmas loop_nth = write_LE_loop write_BE_loop

subsection \<open>The specialisations compute what the loop computes\<close>

lemma upt_small:
  "[0..<2] = [0, 1]" "[0..<4] = [0, 1, 2, 3]" "[0..<8] = [0, 1, 2, 3, 4, 5, 6, 7]"
  by (simp_all add: upt_rec eval_nat_numeral)

lemma read_1_loop:
  "ReadBigEndian_1 data = InternalReadBigEndian 1 data"
  "ReadLittleEndian_1 data = InternalReadLittleEndian 1 data"
  by (simp_all add: ReadBigEndian_1_def InternalReadBigEndian_def ReadLittleEndian_1_def
      InternalReadLittleEndian_def)

lemma bit_byte_less: "bit x n \<Longrightarrow> n < 8" for x :: byte
  using bit_imp_le_length [of x n] by simp

lemma promoted_or:
  "(ucast (push_bit 8 (ucast x) OR ucast y :: 32 word) :: 'a::len word) = push_bit 8 (ucast x) OR ucast y"
  for x y :: byte
proof (rule bit_word_eqI)
  fix n
  assume "n < LENGTH('a)"
  moreover have "n < 32" if "n div 8 = 1" using that by presburger
  ultimately show "bit (ucast (push_bit 8 (ucast x) OR ucast y :: 32 word) :: 'a word) n \<longleftrightarrow>
      bit (push_bit 8 (ucast x) OR ucast y :: 'a word) n"
    using bit_byte_shifted [of 1 x n, where 'a = 32] bit_byte_shifted [of 1 x n, where 'a = 'a]
      bit_byte_less [of y n]
    by (auto simp: bit_or_iff bit_unsigned_iff)
qed

lemma read_2_loop:
  "ReadBigEndian_2 data = InternalReadBigEndian 2 data"
  "ReadLittleEndian_2 data = InternalReadLittleEndian 2 data"
  by (simp_all add: ReadBigEndian_2_def InternalReadBigEndian_def ReadLittleEndian_2_def
      InternalReadLittleEndian_def upt_small promoted_or or.commute [of "ucast (data ! 0)"])

lemma read_4_loop:
  "ReadBigEndian_4 data = InternalReadBigEndian 4 data"
  "ReadLittleEndian_4 data = InternalReadLittleEndian 4 data"
  by (simp_all add: ReadBigEndian_4_def InternalReadBigEndian_def ReadLittleEndian_4_def
      InternalReadLittleEndian_def upt_small Get_def or.assoc)

lemma read_8_loop:
  "ReadBigEndian_8 data = InternalReadBigEndian 8 data"
  "ReadLittleEndian_8 data = InternalReadLittleEndian 8 data"
  by (simp_all add: ReadBigEndian_8_def InternalReadBigEndian_def ReadLittleEndian_8_def
      InternalReadLittleEndian_def upt_small Get_def or.assoc)

lemma write_loops:
  "WriteBigEndian_1 data val = WriteBigEndian_loop 1 data val"
  "WriteLittleEndian_1 data val = WriteLittleEndian_loop 1 data val"
  "WriteBigEndian_2 data val = WriteBigEndian_loop 2 data val"
  "WriteLittleEndian_2 data val = WriteLittleEndian_loop 2 data val"
  "WriteBigEndian_4 data val = WriteBigEndian_loop 4 data val"
  "WriteLittleEndian_4 data val = WriteLittleEndian_loop 4 data val"
  "WriteBigEndian_8 data val = WriteBigEndian_loop 8 data val"
  "WriteLittleEndian_8 data val = WriteLittleEndian_loop 8 data val"
  by (simp_all add: WriteBigEndian_1_def WriteBigEndian_2_def WriteBigEndian_4_def
      WriteBigEndian_8_def WriteLittleEndian_1_def WriteLittleEndian_2_def WriteLittleEndian_4_def
      WriteLittleEndian_8_def WriteBigEndian_loop_def WriteLittleEndian_loop_def upt_small)

lemma ReadBigEndian_loop:
  "ReadBigEndian B data = defined_if (B \<le> length data) (Inr (InternalReadBigEndian B data))"
  by (simp add: ReadBigEndian_def read_1_loop read_2_loop read_4_loop read_8_loop)

lemma ReadLittleEndian_loop:
  "ReadLittleEndian B data = defined_if (B \<le> length data) (Inr (InternalReadLittleEndian B data))"
  by (simp add: ReadLittleEndian_def read_1_loop read_2_loop read_4_loop read_8_loop)

lemma WriteBigEndian_eq:
  "WriteBigEndian B data val = defined_if (B \<le> length data) (Inr (WriteBigEndian_loop B data val))"
  by (simp add: WriteBigEndian_def write_loops)

lemma WriteLittleEndian_eq:
  "WriteLittleEndian B data val =
     defined_if (B \<le> length data) (Inr (WriteLittleEndian_loop B data val))"
  by (simp add: WriteLittleEndian_def write_loops)

lemmas dispatch_eq = ReadBigEndian_loop ReadLittleEndian_loop WriteBigEndian_eq WriteLittleEndian_eq

section \<open>A codec on byte strings\<close>

text \<open>
  What a byte order promises: a write leaves the bytes after the first \<open>B\<close> alone and is read back
  up to the bits that \<open>B\<close> bytes hold; writing what was just read changes nothing; and the bytes
  written depend on the value alone.
\<close>

locale byte_codec =
  fixes write_bytes :: "nat \<Rightarrow> byte list \<Rightarrow> 'a::len word \<Rightarrow> byte list outcome"
    and read_bytes :: "nat \<Rightarrow> byte list \<Rightarrow> 'a word outcome"
  assumes write_ok: "B \<le> length d \<Longrightarrow>
      \<exists>e. write_bytes B d v = Inr e \<and> length e = length d \<and> drop B e = drop B d \<and>
        read_bytes B e = Inr (take_bit (8 * B) v)"
    and write_read: "8 * B \<le> LENGTH('a) \<Longrightarrow> read_bytes B d = Inr v \<Longrightarrow> write_bytes B d v = Inr d"
    and write_prefix: "write_bytes B d v = Inr d' \<Longrightarrow> write_bytes B e v = Inr e' \<Longrightarrow>
      take B d' = take B e'"
    and too_short: "length d < B \<Longrightarrow>
      write_bytes B d v = Inl Undefined_behaviour \<and> read_bytes B d = Inl Undefined_behaviour"
begin

lemma write_inv:
  "write_bytes B d v = Inr e \<Longrightarrow>
     B \<le> length d \<and> length e = length d \<and> drop B e = drop B d \<and> read_bytes B e = Inr (take_bit (8 * B) v)"
  using too_short [of d B v] write_ok [of B d v] by (cases "B \<le> length d") auto

lemma overwrite:
  assumes "write_bytes B d v = Inr e"
  shows "write_bytes B e w = write_bytes B d w"
proof -
  note e = write_inv [OF assms]
  obtain d' where d': "write_bytes B d w = Inr d'" using write_ok e by blast
  obtain e' where e': "write_bytes B e w = Inr e'" using write_ok e by metis
  have "take B d' = take B e'" by (rule write_prefix [OF d' e'])
  moreover have "drop B d' = drop B e'" using write_inv [OF d'] write_inv [OF e'] e by simp
  ultimately have "d' = e'" by (metis append_take_drop_id)
  with d' e' show ?thesis by simp
qed

lemma read_determines:
  assumes "8 * B \<le> LENGTH('a)" "read_bytes B d = Inr v" "read_bytes B e = Inr v" "drop B d = drop B e"
  shows "d = e"
proof -
  have "write_bytes B d v = Inr d" "write_bytes B e v = Inr e"
    using write_read [OF assms(1)] assms(2,3) by auto
  with write_prefix have "take B d = take B e" by blast
  with assms(4) show ?thesis by (metis append_take_drop_id)
qed

end

lemma drop_eq_nth: "length e = length d \<Longrightarrow> (\<And>j. B \<le> j \<Longrightarrow> j < length d \<Longrightarrow> e ! j = d ! j) \<Longrightarrow>
    drop B e = drop B d"
  by (simp add: list_eq_iff_nth_eq)

lemma take_eq_nth: "B \<le> length d \<Longrightarrow> B \<le> length e \<Longrightarrow> (\<And>j. j < B \<Longrightarrow> e ! j = d ! j) \<Longrightarrow>
    take B e = take B d"
  by (simp add: list_eq_iff_nth_eq)

lemma div_mod_8: "n div 8 * 8 + n mod 8 = (n :: nat)" "n div 8 < B \<longleftrightarrow> n < 8 * B"
  by (simp, simp add: div_less_iff_less_mult mult.commute)

lemma read_write_LE:
  fixes v :: "'a::len word"
  assumes "B \<le> length d"
  shows "InternalReadLittleEndian B (WriteLittleEndian_loop B d v) = take_bit (8 * B) v"
proof (rule bit_word_eqI)
  fix n
  assume "n < LENGTH('a)"
  then show "bit (InternalReadLittleEndian B (WriteLittleEndian_loop B d v) :: 'a word) n \<longleftrightarrow>
      bit (take_bit (8 * B) v) n"
    using assms
    by (auto simp: bit_read_LE_loop loop_nth bit_unsigned_iff bit_drop_bit_eq bit_take_bit_iff div_mod_8)
qed

lemma read_write_BE:
  fixes v :: "'a::len word"
  assumes "B \<le> length d"
  shows "InternalReadBigEndian B (WriteBigEndian_loop B d v) = take_bit (8 * B) v"
proof (rule bit_word_eqI)
  fix n
  assume "n < LENGTH('a)"
  moreover have "B - 1 - (B - 1 - n div 8) = n div 8" if "n div 8 < B" using that by simp
  ultimately show "bit (InternalReadBigEndian B (WriteBigEndian_loop B d v) :: 'a word) n \<longleftrightarrow>
      bit (take_bit (8 * B) v) n"
    using assms
    by (auto simp: bit_read_BE_loop loop_nth bit_unsigned_iff bit_drop_bit_eq bit_take_bit_iff div_mod_8)
qed

lemma write_read_LE:
  fixes v :: "'a::len word"
  assumes "8 * B \<le> LENGTH('a)" "B \<le> length d" "InternalReadLittleEndian B d = v"
  shows "WriteLittleEndian_loop B d v = d"
proof (rule nth_equalityI)
  fix j
  assume "j < length (WriteLittleEndian_loop B d v)"
  moreover have "ucast (drop_bit (j * 8) v) = d ! j" if "j < B"
  proof (rule bit_word_eqI)
    fix m
    assume "m < LENGTH(8)"
    with that assms(1) have "(j * 8 + m) div 8 = j" "(j * 8 + m) mod 8 = m" "j * 8 + m < LENGTH('a)"
      by auto
    with that show "bit (ucast (drop_bit (j * 8) v) :: byte) m \<longleftrightarrow> bit (d ! j) m"
      using \<open>m < LENGTH(8)\<close>
      by (simp add: assms(3) [symmetric] bit_unsigned_iff bit_drop_bit_eq bit_read_LE_loop)
  qed
  ultimately show "WriteLittleEndian_loop B d v ! j = d ! j" by (simp add: loop_nth)
qed (simp add: loop_nth)

lemma write_read_BE:
  fixes v :: "'a::len word"
  assumes "8 * B \<le> LENGTH('a)" "B \<le> length d" "InternalReadBigEndian B d = v"
  shows "WriteBigEndian_loop B d v = d"
proof (rule nth_equalityI)
  fix j
  assume "j < length (WriteBigEndian_loop B d v)"
  moreover have "ucast (drop_bit ((B - 1 - j) * 8) v) = d ! j" if "j < B"
  proof (rule bit_word_eqI)
    fix m
    assume m: "m < LENGTH(8)"
    let ?n = "(B - 1 - j) * 8 + m"
    have "?n div 8 = B - 1 - j" "?n mod 8 = m" using m by auto
    moreover have "?n < LENGTH('a)" using that assms(1) m by simp
    moreover have "B - 1 - (B - 1 - j) = j" "B - 1 - j < B" using that by simp_all
    ultimately show "bit (ucast (drop_bit ((B - 1 - j) * 8) v) :: byte) m \<longleftrightarrow> bit (d ! j) m"
      using m by (simp add: assms(3) [symmetric] bit_unsigned_iff bit_drop_bit_eq bit_read_BE_loop)
  qed
  ultimately show "WriteBigEndian_loop B d v ! j = d ! j" by (simp add: loop_nth)
qed (simp add: loop_nth)

interpretation big_endian: byte_codec WriteBigEndian ReadBigEndian
proof
  fix B and d e d' e' :: "byte list" and v :: "'a::len word"
  show "B \<le> length d \<Longrightarrow> \<exists>e. WriteBigEndian B d v = Inr e \<and> length e = length d \<and>
      drop B e = drop B d \<and> ReadBigEndian B e = Inr (take_bit (8 * B) v)"
    using drop_eq_nth [of "WriteBigEndian_loop B d v" d B]
    by (simp add: dispatch_eq loop_nth read_write_BE)
  show "8 * B \<le> LENGTH('a) \<Longrightarrow> ReadBigEndian B d = Inr v \<Longrightarrow> WriteBigEndian B d v = Inr d"
    by (auto simp: dispatch_eq outcome_simps write_read_BE)
  show "WriteBigEndian B d v = Inr d' \<Longrightarrow> WriteBigEndian B e v = Inr e' \<Longrightarrow> take B d' = take B e'"
    by (auto simp: dispatch_eq outcome_simps loop_nth intro!: take_eq_nth)
  show "length d < B \<Longrightarrow>
      WriteBigEndian B d v = Inl Undefined_behaviour \<and> ReadBigEndian B d = Inl Undefined_behaviour"
    by (simp add: dispatch_eq)
qed

interpretation little_endian: byte_codec WriteLittleEndian ReadLittleEndian
proof
  fix B and d e d' e' :: "byte list" and v :: "'a::len word"
  show "B \<le> length d \<Longrightarrow> \<exists>e. WriteLittleEndian B d v = Inr e \<and> length e = length d \<and>
      drop B e = drop B d \<and> ReadLittleEndian B e = Inr (take_bit (8 * B) v)"
    using drop_eq_nth [of "WriteLittleEndian_loop B d v" d B]
    by (simp add: dispatch_eq loop_nth read_write_LE)
  show "8 * B \<le> LENGTH('a) \<Longrightarrow> ReadLittleEndian B d = Inr v \<Longrightarrow> WriteLittleEndian B d v = Inr d"
    by (auto simp: dispatch_eq outcome_simps write_read_LE)
  show "WriteLittleEndian B d v = Inr d' \<Longrightarrow> WriteLittleEndian B e v = Inr e' \<Longrightarrow> take B d' = take B e'"
    by (auto simp: dispatch_eq outcome_simps loop_nth intro!: take_eq_nth)
  show "length d < B \<Longrightarrow>
      WriteLittleEndian B d v = Inl Undefined_behaviour \<and> ReadLittleEndian B d = Inl Undefined_behaviour"
    by (simp add: dispatch_eq)
qed

section \<open>Signed integers\<close>

lemma ReinterpretAsSigned_sint: "ReinterpretAsSigned w = sint w" for w :: "'a::len word"
proof (cases "bit w (LENGTH('a) - 1)")
  case True
  have "uint (w AND NOT (push_bit (LENGTH('a) - 1) 1)) OR - (2 ^ (LENGTH('a) - 1)) = sint w"
  proof (rule bit_eqI)
    fix n
    show "bit (uint (w AND NOT (push_bit (LENGTH('a) - 1) 1)) OR - (2 ^ (LENGTH('a) - 1)) :: int) n \<longleftrightarrow>
        bit (sint w) n"
      using True
      by (cases "n = LENGTH('a) - 1")
        (auto simp: bit_or_iff bit_minus_exp_iff bit_sint_iff bit_uint_iff bit_and_iff bit_not_iff
          bit_push_bit_iff bit_1_iff bit_exp_iff dest: bit_imp_le_length)
  qed
  with True show ?thesis by (simp add: ReinterpretAsSigned_def and_exp_eq_0_iff_not_bit Let_def)
next
  case False
  then have "sint w = uint w"
    by (intro bit_eqI) (auto simp: bit_sint_iff bit_uint_iff dest: bit_imp_le_length)
  with False show ?thesis by (simp add: ReinterpretAsSigned_def and_exp_eq_0_iff_not_bit Let_def)
qed

definition signed_in :: "nat \<Rightarrow> int \<Rightarrow> bool" where
  "signed_in B v \<longleftrightarrow> - (2 ^ (8 * B - 1)) \<le> v \<and> v < 2 ^ (8 * B - 1)"

lemma bit_signed_in:
  assumes "signed_in B v" "8 * B - 1 \<le> n"
  shows "bit v n \<longleftrightarrow> v < 0"
proof -
  have "signed_take_bit (8 * B - 1) v = v"
    using assms(1) by (simp add: signed_in_def signed_take_bit_int_eq_self)
  then have "bit v n \<longleftrightarrow> bit v (8 * B - 1)"
    using assms(2) by (metis bit_signed_take_bit_iff min.absorb2 min.absorb_iff1 possible_bit_int)
  moreover have "bit v (8 * B - 1) \<longleftrightarrow> v < 0"
    using \<open>signed_take_bit (8 * B - 1) v = v\<close> by (metis signed_take_bit_negative_iff)
  ultimately show ?thesis by simp
qed

lemma msb_test: "x AND 0x80 \<noteq> 0 \<longleftrightarrow> bit x 7" for x :: byte
  using and_exp_eq_0_iff_not_bit [of x 7] by simp

lemma sign_bit_test:
  fixes v :: int
  assumes "signed_in B v" "0 < B" "8 * B \<le> LENGTH('a::len)"
  shows "ucast (drop_bit ((B - 1) * 8) (take_bit (8 * B) (word_of_int v :: 'a word))) AND (0x80 :: byte) \<noteq> 0
    \<longleftrightarrow> v < 0"
proof -
  have "(B - 1) * 8 + 7 = 8 * B - 1" "8 * B - 1 < LENGTH('a)" using assms(2,3) by linarith+
  then show ?thesis
    using assms(2,3) bit_signed_in [OF assms(1), of "8 * B - 1"]
    by (simp add: msb_test bit_unsigned_iff bit_drop_bit_eq bit_take_bit_iff bit_word_of_int_iff)
qed

lemma masked_word:
  fixes v :: int
  assumes "signed_in B v" "0 < B"
  shows "v < 0 \<Longrightarrow> NOT (word_of_int (2 ^ (8 * B) - 1)) OR take_bit (8 * B) (word_of_int v) = (word_of_int v :: 'a::len word)"
    and "\<not> v < 0 \<Longrightarrow> take_bit (8 * B) (word_of_int v) = (word_of_int v :: 'a word)"
proof -
  have mask: "bit (2 ^ (8 * B) - 1 :: 'a word) n \<longleftrightarrow> n < LENGTH('a) \<and> n < 8 * B" for n
    by (simp add: bit_mask_iff flip: mask_eq_exp_minus_1)
  have high: "bit v n \<longleftrightarrow> v < 0" if "8 * B \<le> n" for n
    using bit_signed_in [OF assms(1)] that by simp
  show "NOT (word_of_int (2 ^ (8 * B) - 1)) OR take_bit (8 * B) (word_of_int v) = (word_of_int v :: 'a word)"
    if "v < 0"
    using that high
    by (intro bit_word_eqI) (auto simp: bit_or_iff bit_not_iff mask bit_take_bit_iff bit_word_of_int_iff)
  show "take_bit (8 * B) (word_of_int v) = (word_of_int v :: 'a word)" if "\<not> v < 0"
    using that high
    by (intro bit_word_eqI) (auto simp: bit_take_bit_iff bit_word_of_int_iff simp flip: not_le)
qed

lemma sint_signed_in:
  assumes "signed_in B v" "0 < B" "8 * B \<le> LENGTH('a::len)"
  shows "sint (word_of_int v :: 'a word) = v"
proof -
  have "(2 :: int) ^ (8 * B - 1) \<le> 2 ^ (LENGTH('a) - 1)"
    using assms(3) by (intro power_increasing diff_le_mono) auto
  then have "- (2 ^ (LENGTH('a) - 1)) \<le> v" "v < 2 ^ (LENGTH('a) - 1)"
    using assms(1) unfolding signed_in_def by linarith+
  then show ?thesis by (simp add: sint_sbintrunc' signed_take_bit_int_eq_self)
qed

text \<open>
  What sign extension and reinterpretation make of the masked value: the value itself when the mask
  is defined, that is when all of \<^verbatim>\<open>T\<close> is used or fewer than four bytes are; undefined behaviour for
  a negative value otherwise.
\<close>

lemma extend_reinterpret:
  fixes v :: int
  assumes "signed_in B v" "0 < B" "8 * B \<le> LENGTH('a::len)" "LENGTH('a) = 8 * sizeof TYPE('a)"
  shows "and_then (if B < sizeof TYPE('a) then SignExtend B (take_bit (8 * B) (word_of_int v))
           else Inr (take_bit (8 * B) (word_of_int v))) (\<lambda>w :: 'a word. Inr (ReinterpretAsSigned w)) =
    (if B = sizeof TYPE('a) \<or> B < 4 \<or> 0 \<le> v then Inr v else Inl Undefined_behaviour)"
proof (cases "B = sizeof TYPE('a)")
  case True
  then have "take_bit (8 * B) (word_of_int v) = (word_of_int v :: 'a word)"
    using assms(4) by (intro bit_word_eqI) (auto simp: bit_take_bit_iff)
  with True sint_signed_in [OF assms(1-3)] show ?thesis by (simp add: ReinterpretAsSigned_sint)
next
  case False
  then have B: "B < sizeof TYPE('a)" using assms(3,4) by simp
  show ?thesis
  proof (cases "v < 0")
    case True
    have "(kUsedBitsMask B :: 'a word outcome) = defined_if (B < 4) (Inr (word_of_int (2 ^ (8 * B) - 1)))"
      using B by (simp add: kUsedBitsMask_def mult.commute)
    with True B False masked_word(1) [OF assms(1,2) True, where 'a = 'a] show ?thesis
      using sign_bit_test [OF assms(1-3)] sint_signed_in [OF assms(1-3)]
      by (simp add: SignExtend_def Let_def ReinterpretAsSigned_sint defined_if_def)
  next
    case nonneg: False
    with B False masked_word(2) [OF assms(1,2) nonneg, where 'a = 'a] show ?thesis
      using sign_bit_test [OF assms(1-3)] sint_signed_in [OF assms(1-3)]
      by (simp add: SignExtend_def Let_def ReinterpretAsSigned_sint)
  qed
qed

section \<open>Properties\<close>

text \<open>
  C15: unsigned integers, either byte order, every byte count that fits the buffer, specialised or not: a
  write succeeds, keeps the rest of the buffer, and reading it back gives the low \<open>8 * B\<close> bits of the
  value; writing back a value just read leaves the buffer as it was; and a second write hides the
  first.
\<close>

theorem byte_order_round_trip:
  fixes v w :: "'a::len word"
  assumes "B \<le> length data" "8 * B \<le> LENGTH('a)"
  shows "(\<exists>e. WriteBigEndian B data v = Inr e \<and> drop B e = drop B data \<and>
      ReadBigEndian B e = Inr (take_bit (8 * B) v) \<and> WriteBigEndian B e w = WriteBigEndian B data w) \<and>
    (\<exists>e. WriteLittleEndian B data v = Inr e \<and> drop B e = drop B data \<and>
      ReadLittleEndian B e = Inr (take_bit (8 * B) v) \<and>
      WriteLittleEndian B e w = WriteLittleEndian B data w) \<and>
    (ReadBigEndian B data = Inr v \<longrightarrow> WriteBigEndian B data v = Inr data) \<and>
    (ReadLittleEndian B data = Inr v \<longrightarrow> WriteLittleEndian B data v = Inr data)"
  using big_endian.write_ok [OF assms(1), of v] little_endian.write_ok [OF assms(1), of v]
    big_endian.overwrite [of B data v] little_endian.overwrite [of B data v]
    big_endian.write_read [OF assms(2)] little_endian.write_read [OF assms(2)]
  by blast

theorem byte_order_round_trip_witness:
  "\<exists>e. WriteBigEndian 3 [1, 2, 3, 4] (0xAABBCC :: 32 word) = Inr e \<and> drop 3 e = [4] \<and>
    ReadBigEndian 3 e = Inr (take_bit (8 * 3) (0xAABBCC :: 32 word)) \<and>
    WriteBigEndian 3 e (5 :: 32 word) = WriteBigEndian 3 [1, 2, 3, 4] (5 :: 32 word)"
  using byte_order_round_trip [of 3 "[1, 2, 3, 4]" "0xAABBCC :: 32 word" 5] by simp

text \<open>
  the two byte orders are mirror images: reading big endian is reading the first \<open>B\<close> bytes in reverse
  order little endian.
\<close>

theorem big_endian_mirrors_little_endian:
  assumes "B \<le> length data"
  shows "(ReadBigEndian B data :: 'a::len word outcome) = ReadLittleEndian B (rev (take B data))"
proof -
  have "InternalReadBigEndian B data = (InternalReadLittleEndian B (rev (take B data)) :: 'a word)"
    using assms
    by (intro bit_word_eqI) (auto simp: bit_read_BE_loop bit_read_LE_loop rev_nth)
  with assms show ?thesis by (simp add: dispatch_eq)
qed

theorem big_endian_mirrors_little_endian_witness:
  "(ReadBigEndian 4 [1, 2, 3, 4, 5] :: 32 word outcome) = ReadLittleEndian 4 [4, 3, 2, 1]"
  using big_endian_mirrors_little_endian [of 4 "[1, 2, 3, 4, 5]"] by simp

text \<open>
  C33: a signed value written to \<open>B\<close> bytes that can hold it is read back, in either byte order, when the
  value is non-negative, when \<open>B\<close> is all of the type or when \<open>B\<close> is at most three.  For a negative
  value in four to seven bytes of an eight byte type the sign extension shifts an \<^verbatim>\<open>int\<close> by 32 bits
  or more, which is undefined.
\<close>

theorem signed_round_trip:
  assumes "B \<le> length data" "0 < B" "8 * B \<le> LENGTH('a::len)" "LENGTH('a) = 8 * sizeof TYPE('a)"
    and "signed_in B v"
  shows "and_then (WriteBigEndian_signed TYPE('a) B data v) (ReadBigEndian_signed TYPE('a) B) =
      (if B = sizeof TYPE('a) \<or> B < 4 \<or> 0 \<le> v then Inr v else Inl Undefined_behaviour) \<and>
    and_then (WriteLittleEndian_signed TYPE('a) B data v) (ReadLittleEndian_signed TYPE('a) B) =
      (if B = sizeof TYPE('a) \<or> B < 4 \<or> 0 \<le> v then Inr v else Inl Undefined_behaviour)"
proof -
  obtain e f where
    "WriteBigEndian B data (word_of_int v :: 'a word) = Inr e"
    "ReadBigEndian B e = Inr (take_bit (8 * B) (word_of_int v :: 'a word))"
    "WriteLittleEndian B data (word_of_int v :: 'a word) = Inr f"
    "ReadLittleEndian B f = Inr (take_bit (8 * B) (word_of_int v :: 'a word))"
    using big_endian.write_ok [OF assms(1)] little_endian.write_ok [OF assms(1)] by metis
  then show ?thesis
    using extend_reinterpret [OF assms(5,2-4)]
    by (simp add: WriteBigEndian_signed_def ReadBigEndian_signed_def WriteLittleEndian_signed_def
        ReadLittleEndian_signed_def ReinterpretAsUnsigned_def)
qed

theorem signed_round_trip_witness:
  "and_then (WriteBigEndian_signed TYPE(64) 5 [0, 0, 0, 0, 0] (- 2)) (ReadBigEndian_signed TYPE(64) 5) =
     Inl Undefined_behaviour \<and>
   and_then (WriteBigEndian_signed TYPE(32) 3 [0, 0, 0] (- 2)) (ReadBigEndian_signed TYPE(32) 3) = Inr (- 2)"
  using signed_round_trip [where 'a = 64, of 5 "[0, 0, 0, 0, 0]" "- 2"]
    signed_round_trip [where 'a = 32, of 3 "[0, 0, 0]" "- 2"]
  by (simp add: sizeof_def signed_in_def)

end
