(* ===== verification/Swap_Queue.thy ===== *)
theory Swap_Queue
  imports Prelude
begin

text \<open>
  \<^verbatim>\<open>rtc_base/swap_queue.h\<close>: \<^verbatim>\<open>SwapQueue<T>\<close>, the bounded queue between one producer and one consumer
  thread, which passes a full item one way and an empty one back by \<^verbatim>\<open>swap\<close>.

  The state is the class's fields; the verifier functor is an argument \<open>ok\<close>.  \<^verbatim>\<open>size_t\<close> values are
  natural numbers: indices stay below the size of the vector and the one sum, in \<^verbatim>\<open>Clear\<close>, below twice
  that.  Each operation is composed of its accesses to the shared fields, and the second half of
  the theory interleaves the producer's and the consumer's accesses as the atomic steps of a
  transition relation.  The acquire and release orderings of the source are what makes one access
  at a time an adequate granularity; weaker orders are not modelled.
\<close>

section \<open>Definitions\<close>

record 'a SwapQueue =
  queue :: "'a list"
  next_write_index :: nat
  next_read_index :: nat
  num_elements :: nat

abbreviation queue_size :: "'a SwapQueue \<Rightarrow> nat" where
  "queue_size q \<equiv> length (queue q)"

definition VerifyQueueSlots :: "('a \<Rightarrow> bool) \<Rightarrow> 'a SwapQueue \<Rightarrow> bool outcome" where
  "VerifyQueueSlots ok q =
     foldr (\<lambda>v rest. dcheck (ok v) rest) (queue q) (Inr True)"

definition SwapQueue_prototype :: "('a \<Rightarrow> bool) \<Rightarrow> nat \<Rightarrow> 'a \<Rightarrow> 'a SwapQueue outcome" where
  "SwapQueue_prototype ok n prototype =
     (let q = \<lparr>queue = replicate n prototype, next_write_index = 0, next_read_index = 0,
               num_elements = 0\<rparr>
      in and_then (VerifyQueueSlots ok q) (\<lambda>b. dcheck b (Inr q)))"

text \<open>The constructors without a prototype fill the slots with default constructed items.\<close>

definition SwapQueue_default :: "'a \<Rightarrow> ('a \<Rightarrow> bool) \<Rightarrow> nat \<Rightarrow> 'a SwapQueue outcome" where
  "SwapQueue_default default_T ok n =
     (let q = \<lparr>queue = replicate n default_T, next_write_index = 0, next_read_index = 0,
               num_elements = 0\<rparr>
      in and_then (VerifyQueueSlots ok q) (\<lambda>b. dcheck b (Inr q)))"

subsection \<open>The accesses of each operation\<close>

definition swap_slot :: "nat \<Rightarrow> 'a \<Rightarrow> 'a SwapQueue \<Rightarrow> 'a \<times> 'a SwapQueue" where
  "swap_slot i x q = (queue q ! i, q\<lparr>queue := (queue q)[i := x]\<rparr>)"

definition advance :: "nat \<Rightarrow> nat \<Rightarrow> nat" where
  "advance n i = (if Suc i = n then 0 else Suc i)"

definition fetch_add :: "'a SwapQueue \<Rightarrow> nat \<times> 'a SwapQueue" where
  "fetch_add q = (num_elements q, q\<lparr>num_elements := num_elements q + 1\<rparr>)"

definition fetch_sub :: "'a SwapQueue \<Rightarrow> 'a SwapQueue" where
  "fetch_sub q = q\<lparr>num_elements := num_elements q - 1\<rparr>"

definition exchange_zero :: "'a SwapQueue \<Rightarrow> nat \<times> 'a SwapQueue" where
  "exchange_zero q = (num_elements q, q\<lparr>num_elements := 0\<rparr>)"

definition skip_read :: "nat \<Rightarrow> 'a SwapQueue \<Rightarrow> 'a SwapQueue" where
  "skip_read n q =
     (let r = next_read_index q + n
      in q\<lparr>next_read_index := if r \<ge> queue_size q then r - queue_size q else r\<rparr>)"

subsection \<open>The operations\<close>

definition Clear :: "'a SwapQueue \<Rightarrow> 'a SwapQueue outcome" where
  "Clear q =
     (let (n, q') = exchange_zero q; q'' = skip_read n q'
      in dcheck (next_read_index q'' < queue_size q'') (Inr q''))"

definition Insert :: "('a \<Rightarrow> bool) \<Rightarrow> 'a \<Rightarrow> 'a SwapQueue \<Rightarrow> (bool \<times> 'a \<times> 'a SwapQueue) outcome" where
  "Insert ok input q =
     dcheck (ok input)
       (if num_elements q = queue_size q then Inr (False, input, q)
        else defined_if (next_write_index q < queue_size q)
          (let (input', q1) = swap_slot (next_write_index q) input q;
               (old_num_elements, q2) = fetch_add q1;
               q3 = q2\<lparr>next_write_index := advance (queue_size q2) (next_write_index q2)\<rparr>
           in dcheck (next_write_index q3 < queue_size q3)
                (dcheck (old_num_elements < queue_size q3) (Inr (True, input', q3)))))"

definition Remove :: "('a \<Rightarrow> bool) \<Rightarrow> 'a \<Rightarrow> 'a SwapQueue \<Rightarrow> (bool \<times> 'a \<times> 'a SwapQueue) outcome" where
  "Remove ok output q =
     dcheck (ok output)
       (if num_elements q = 0 then Inr (False, output, q)
        else defined_if (next_read_index q < queue_size q)
          (let (output', q1) = swap_slot (next_read_index q) output q;
               q2 = fetch_sub q1;
               q3 = q2\<lparr>next_read_index := advance (queue_size q2) (next_read_index q2)\<rparr>
           in dcheck (next_read_index q3 < queue_size q3) (Inr (True, output', q3))))"

definition SizeAtLeast :: "'a SwapQueue \<Rightarrow> nat" where
  "SizeAtLeast q = num_elements q"

subsection \<open>Two threads\<close>

text \<open>
  Where a thread stands inside its current call, with the item it holds.  \<open>Swapped\<close> is between the
  swap and the update of the counter, \<open>Counted\<close> between that and the update of its index.
\<close>

datatype 'a producer = P_idle 'a | P_checked 'a | P_swapped 'a 'a | P_counted 'a nat
datatype 'a consumer = C_idle 'a | C_checked 'a | C_swapped 'a | C_counted 'a | C_cleared 'a nat

record 'a threads =
  shared :: "'a SwapQueue"
  producer :: "'a producer"
  consumer :: "'a consumer"

datatype 'a event = Internal | Inserted 'a | Refused | Removed 'a | Empty | Dropped

definition set_write :: "'a SwapQueue \<Rightarrow> 'a SwapQueue" where
  "set_write q = q\<lparr>next_write_index := advance (queue_size q) (next_write_index q)\<rparr>"

definition set_read :: "'a SwapQueue \<Rightarrow> 'a SwapQueue" where
  "set_read q = q\<lparr>next_read_index := advance (queue_size q) (next_read_index q)\<rparr>"

inductive step :: "'a threads \<Rightarrow> 'a event \<Rightarrow> 'a threads \<Rightarrow> bool" where
  fill: "producer t = P_idle x \<Longrightarrow> step t Internal (t\<lparr>producer := P_idle y\<rparr>)"
| insert_full: "producer t = P_idle x \<Longrightarrow> num_elements (shared t) = queue_size (shared t) \<Longrightarrow>
    step t Refused t"
| insert_check: "producer t = P_idle x \<Longrightarrow> num_elements (shared t) \<noteq> queue_size (shared t) \<Longrightarrow>
    step t Internal (t\<lparr>producer := P_checked x\<rparr>)"
| insert_swap: "producer t = P_checked x \<Longrightarrow>
    swap_slot (next_write_index (shared t)) x (shared t) = (y, q) \<Longrightarrow>
    step t Internal (t\<lparr>shared := q, producer := P_swapped x y\<rparr>)"
| insert_count: "producer t = P_swapped x y \<Longrightarrow> fetch_add (shared t) = (n, q) \<Longrightarrow>
    step t (Inserted x) (t\<lparr>shared := q, producer := P_counted y n\<rparr>)"
| insert_advance: "producer t = P_counted y n \<Longrightarrow>
    step t Internal (t\<lparr>shared := set_write (shared t), producer := P_idle y\<rparr>)"
| drink: "consumer t = C_idle x \<Longrightarrow> step t Internal (t\<lparr>consumer := C_idle y\<rparr>)"
| remove_empty: "consumer t = C_idle x \<Longrightarrow> num_elements (shared t) = 0 \<Longrightarrow> step t Empty t"
| remove_check: "consumer t = C_idle x \<Longrightarrow> num_elements (shared t) \<noteq> 0 \<Longrightarrow>
    step t Internal (t\<lparr>consumer := C_checked x\<rparr>)"
| remove_swap: "consumer t = C_checked x \<Longrightarrow>
    swap_slot (next_read_index (shared t)) x (shared t) = (y, q) \<Longrightarrow>
    step t Internal (t\<lparr>shared := q, consumer := C_swapped y\<rparr>)"
| remove_count: "consumer t = C_swapped y \<Longrightarrow>
    step t (Removed y) (t\<lparr>shared := fetch_sub (shared t), consumer := C_counted y\<rparr>)"
| remove_advance: "consumer t = C_counted y \<Longrightarrow>
    step t Internal (t\<lparr>shared := set_read (shared t), consumer := C_idle y\<rparr>)"
| clear_exchange: "consumer t = C_idle x \<Longrightarrow> exchange_zero (shared t) = (n, q) \<Longrightarrow>
    step t Dropped (t\<lparr>shared := q, consumer := C_cleared x n\<rparr>)"
| clear_skip: "consumer t = C_cleared x n \<Longrightarrow>
    step t Internal (t\<lparr>shared := skip_read n (shared t), consumer := C_idle x\<rparr>)"

inductive run :: "'a threads \<Rightarrow> 'a event list \<Rightarrow> 'a threads \<Rightarrow> bool" where
  run_start: "run t [] t"
| run_step: "run t es t' \<Longrightarrow> step t' e t'' \<Longrightarrow> run t (es @ [e]) t''"

section \<open>The window of full slots\<close>

definition window :: "'a list \<Rightarrow> nat \<Rightarrow> nat \<Rightarrow> 'a list" where
  "window Q r n = map (\<lambda>i. Q ! ((r + i) mod length Q)) [0..<n]"

named_theorems window_simps

lemma window_0 [window_simps]: "window Q r 0 = []"
  by (simp add: window_def)

lemma window_length [window_simps]: "length (window Q r n) = n"
  by (simp add: window_def)

lemma window_back: "window Q r (Suc n) = window Q r n @ [Q ! ((r + n) mod length Q)]"
  by (simp add: window_def)

lemma window_front: "window Q r (Suc n) = Q ! (r mod length Q) # window Q (Suc r) n"
proof -
  have "[0..<Suc n] = 0 # map Suc [0..<n]" by (simp add: upt_conv_Cons map_Suc_upt del: upt_Suc)
  then show ?thesis by (simp add: window_def del: upt_Suc)
qed

lemma window_mod [window_simps]: "window Q (r mod length Q) n = window Q r n"
  by (simp add: window_def mod_simps)

lemma window_update:
  "(\<And>i. i < n \<Longrightarrow> (r + i) mod length Q \<noteq> k) \<Longrightarrow> window (Q[k := x]) r n = window Q r n"
  unfolding window_def by (rule map_cong) (auto, metis nth_list_update_neq)

lemma mod_add_neq:
  fixes m :: nat
  assumes "i < j" "j < i + m"
  shows "(r + i) mod m \<noteq> (r + j) mod m"
proof
  assume "(r + i) mod m = (r + j) mod m"
  then have "m dvd (r + j) - (r + i)" using assms(1) by (metis mod_eq_dvd_iff_nat add_le_mono le_refl less_imp_le)
  then have "m dvd j - i" by simp
  with assms show False by (auto dest!: dvd_imp_le)
qed

lemma advance_mod: "i < n \<Longrightarrow> advance n i = Suc i mod n"
  by (auto simp: advance_def)

lemma advance_less: "i < n \<Longrightarrow> advance n i < n"
  by (auto simp: advance_def)

section \<open>The sequential queue\<close>

definition sq_wf :: "'a SwapQueue \<Rightarrow> bool" where
  "sq_wf q \<longleftrightarrow> 0 < queue_size q \<and> next_read_index q < queue_size q \<and>
     num_elements q \<le> queue_size q \<and>
     next_write_index q = (next_read_index q + num_elements q) mod queue_size q"

definition sq_items :: "'a SwapQueue \<Rightarrow> 'a list" where
  "sq_items q = window (queue q) (next_read_index q) (num_elements q)"

definition slots_ok :: "('a \<Rightarrow> bool) \<Rightarrow> 'a SwapQueue \<Rightarrow> bool" where
  "slots_ok ok q \<longleftrightarrow> list_all ok (queue q)"

lemma VerifyQueueSlots_ok: "VerifyQueueSlots ok q = (if slots_ok ok q then Inr True else Inl Dcheck_failed)"
proof -
  have "foldr (\<lambda>v rest. dcheck (ok v) rest) xs (Inr True) = (if list_all ok xs then Inr True else Inl Dcheck_failed)"
    for xs by (induction xs) (auto simp: dcheck_def)
  then show ?thesis by (simp add: VerifyQueueSlots_def slots_ok_def)
qed

lemma slots_ok_swap:
  assumes "slots_ok ok q" "ok x" "i < queue_size q"
  shows "slots_ok ok (snd (swap_slot i x q))" "ok (fst (swap_slot i x q))"
  using assms by (auto simp: slots_ok_def swap_slot_def list_all_length nth_list_update)

lemma Insert_full:
  "ok x \<Longrightarrow> num_elements q = queue_size q \<Longrightarrow> Insert ok x q = Inr (False, x, q)"
  by (simp add: Insert_def)

lemma Insert_room:
  assumes "sq_wf q" "slots_ok ok q" "ok x" "num_elements q < queue_size q"
  shows "\<exists>y q'. Insert ok x q = Inr (True, y, q') \<and> sq_wf q' \<and> slots_ok ok q' \<and> ok y \<and>
    queue_size q' = queue_size q \<and> sq_items q' = sq_items q @ [x]"
proof -
  let ?N = "queue_size q" and ?k = "next_write_index q"
  have k: "?k < ?N" "?k = (next_read_index q + num_elements q) mod ?N"
    using assms(1) by (auto simp: sq_wf_def)
  define q' where "q' = q\<lparr>queue := (queue q)[?k := x], num_elements := num_elements q + 1,
    next_write_index := advance ?N ?k\<rparr>"
  have "Insert ok x q = Inr (True, queue q ! ?k, q')"
    using assms(3,4) k(1) by (simp add: Insert_def swap_slot_def fetch_add_def q'_def advance_less)
  moreover have "sq_wf q'"
    using assms(1,4) k by (simp add: sq_wf_def q'_def advance_mod mod_simps)
  moreover have "(next_read_index q + i) mod ?N \<noteq> ?k" if "i < num_elements q" for i
    using mod_add_neq [of i "num_elements q" ?N] that assms(4) k(2) by simp
  then have "sq_items q' = sq_items q @ [x]"
    using k by (simp add: sq_items_def q'_def window_back window_update)
  moreover have "slots_ok ok q'" "ok (queue q ! ?k)"
    using slots_ok_swap [OF assms(2,3) k(1)] by (simp_all add: q'_def swap_slot_def slots_ok_def)
  ultimately show ?thesis by (auto simp: q'_def)
qed

lemma Remove_empty: "ok y \<Longrightarrow> num_elements q = 0 \<Longrightarrow> Remove ok y q = Inr (False, y, q)"
  by (simp add: Remove_def)

lemma Remove_front:
  assumes "sq_wf q" "slots_ok ok q" "ok y" "sq_items q = x # xs"
  shows "\<exists>q'. Remove ok y q = Inr (True, x, q') \<and> sq_wf q' \<and> slots_ok ok q' \<and> ok x \<and>
    queue_size q' = queue_size q \<and> sq_items q' = xs"
proof -
  let ?N = "queue_size q" and ?k = "next_read_index q"
  obtain n where n: "num_elements q = Suc n"
    using assms(4) by (cases "num_elements q") (auto simp: sq_items_def window_simps)
  have k: "?k < ?N" "Suc n \<le> ?N" using assms(1) n by (auto simp: sq_wf_def)
  have x: "x = queue q ! ?k" "xs = window (queue q) (Suc ?k) n"
    using assms(4) k by (simp_all add: sq_items_def n window_front)
  define q' where "q' = q\<lparr>queue := (queue q)[?k := y], num_elements := n,
    next_read_index := advance ?N ?k\<rparr>"
  have "Remove ok y q = Inr (True, x, q')"
    using assms(3) k(1) n x by (simp add: Remove_def swap_slot_def fetch_sub_def q'_def advance_less)
  moreover have "sq_wf q'"
    using assms(1) k n by (simp add: sq_wf_def q'_def advance_mod advance_less mod_simps)
  moreover have "(Suc ?k + i) mod ?N \<noteq> ?k" if "i < n" for i
    using mod_add_neq [of 0 "Suc i" ?N ?k] that k by simp
  then have "sq_items q' = xs"
    using k window_mod [of "(queue q)[?k := y]" "Suc ?k" n]
    by (simp add: sq_items_def q'_def advance_mod window_update x)
  moreover have "slots_ok ok q'" "ok x"
    using slots_ok_swap [OF assms(2,3) k(1)] by (simp_all add: q'_def swap_slot_def slots_ok_def x)
  ultimately show ?thesis by (auto simp: q'_def)
qed

lemma skip_read_less:
  assumes "next_read_index q < queue_size q" "n \<le> queue_size q"
  shows "next_read_index (skip_read n q) = (next_read_index q + n) mod queue_size q"
  using assms mod_if [of "next_read_index q + n" "queue_size q"] by (auto simp: skip_read_def Let_def)

lemma Clear_empties:
  assumes "sq_wf q"
  shows "\<exists>q'. Clear q = Inr q' \<and> sq_wf q' \<and> queue q' = queue q \<and> sq_items q' = []"
proof -
  define q' where "q' = skip_read (num_elements q) (q\<lparr>num_elements := 0\<rparr>)"
  have "next_read_index q' = next_write_index q"
    using assms skip_read_less [of "q\<lparr>num_elements := 0\<rparr>" "num_elements q"]
    by (simp add: q'_def sq_wf_def)
  moreover have "queue q' = queue q" "num_elements q' = 0" "next_write_index q' = next_write_index q"
    by (simp_all add: q'_def skip_read_def Let_def)
  moreover have "next_write_index q < queue_size q" using assms by (simp add: sq_wf_def)
  ultimately show ?thesis
    using assms by (auto simp: Clear_def exchange_zero_def sq_wf_def sq_items_def window_simps simp flip: q'_def)
qed

section \<open>A bounded first-in first-out queue\<close>

text \<open>
  What a client of a queue relies on: \<open>put\<close> appends while there is room, \<open>get\<close>, handed a spare
  item, takes the front.
\<close>

locale bounded_fifo =
  fixes good :: "'s \<Rightarrow> bool"
    and items :: "'s \<Rightarrow> 'a list"
    and cap :: "'s \<Rightarrow> nat"
    and okay :: "'a \<Rightarrow> bool"
    and put :: "'a \<Rightarrow> 's \<Rightarrow> 's outcome"
    and get :: "'a \<Rightarrow> 's \<Rightarrow> ('a \<times> 's) outcome"
  assumes put_room: "good s \<Longrightarrow> okay x \<Longrightarrow> length (items s) < cap s \<Longrightarrow>
      \<exists>s'. put x s = Inr s' \<and> good s' \<and> cap s' = cap s \<and> items s' = items s @ [x]"
    and get_front: "good s \<Longrightarrow> okay y \<Longrightarrow> items s = x # xs \<Longrightarrow>
      \<exists>s'. get y s = Inr (x, s') \<and> good s' \<and> cap s' = cap s \<and> items s' = xs"
begin

fun put_all :: "'a list \<Rightarrow> 's \<Rightarrow> 's outcome" where
  "put_all [] s = Inr s"
| "put_all (x # xs) s = and_then (put x s) (put_all xs)"

fun get_all :: "'a list \<Rightarrow> 's \<Rightarrow> ('a list \<times> 's) outcome" where
  "get_all [] s = Inr ([], s)"
| "get_all (y # ys) s =
     and_then (get y s) (\<lambda>(x, s'). and_then (get_all ys s') (\<lambda>(xs, s''). Inr (x # xs, s'')))"

lemma put_all_room:
  "good s \<Longrightarrow> list_all okay xs \<Longrightarrow> length (items s) + length xs \<le> cap s \<Longrightarrow>
     \<exists>s'. put_all xs s = Inr s' \<and> good s' \<and> cap s' = cap s \<and> items s' = items s @ xs"
proof (induction xs arbitrary: s)
  case (Cons x xs)
  then obtain s' where s': "put x s = Inr s'" "good s'" "cap s' = cap s" "items s' = items s @ [x]"
    using put_room [of s x] by auto
  from Cons.IH [of s'] Cons.prems s' show ?case by auto
qed simp

lemma get_all_front:
  "good s \<Longrightarrow> list_all okay ys \<Longrightarrow> length ys = length (items s) \<Longrightarrow>
     \<exists>s'. get_all ys s = Inr (items s, s') \<and> good s' \<and> cap s' = cap s \<and> items s' = []"
proof (induction ys arbitrary: s)
  case (Cons y ys)
  then obtain x xs where xs: "items s = x # xs" by (cases "items s") auto
  then obtain s' where s': "get y s = Inr (x, s')" "good s'" "cap s' = cap s" "items s' = xs"
    using get_front [of s y x xs] Cons.prems by auto
  from Cons.IH [of s'] Cons.prems s' xs show ?case by auto
qed simp

lemma through:
  assumes "good s" "items s = []" "list_all okay xs" "length xs \<le> cap s" "list_all okay ys"
    and "length ys = length xs"
  shows "\<exists>s' s''. put_all xs s = Inr s' \<and> get_all ys s' = Inr (xs, s'') \<and> good s'' \<and> items s'' = []"
  using put_all_room [OF assms(1,3)] get_all_front [OF _ assms(5)] assms by fastforce

end

definition sq_put :: "('a \<Rightarrow> bool) \<Rightarrow> 'a \<Rightarrow> 'a SwapQueue \<Rightarrow> 'a SwapQueue outcome" where
  "sq_put ok x q = and_then (Insert ok x q) (\<lambda>(b, y, q'). dcheck b (Inr q'))"

definition sq_get :: "('a \<Rightarrow> bool) \<Rightarrow> 'a \<Rightarrow> 'a SwapQueue \<Rightarrow> ('a \<times> 'a SwapQueue) outcome" where
  "sq_get ok y q = and_then (Remove ok y q) (\<lambda>(b, x, q'). dcheck b (Inr (x, q')))"

lemma sq_items_length: "length (sq_items q) = num_elements q"
  by (simp add: sq_items_def window_simps)

interpretation swap_queue: bounded_fifo "\<lambda>q. sq_wf q \<and> slots_ok ok q" sq_items "\<lambda>q. length (queue q)" ok
  "sq_put ok" "sq_get ok" for ok
proof unfold_locales
  fix q x
  assume "sq_wf q \<and> slots_ok ok q" "ok x" "length (sq_items q) < length (queue q)"
  then show "\<exists>q'. sq_put ok x q = Inr q' \<and> (sq_wf q' \<and> slots_ok ok q') \<and>
      length (queue q') = length (queue q) \<and> sq_items q' = sq_items q @ [x]"
    using Insert_room [of q ok x] by (auto simp: sq_put_def sq_items_length)
next
  fix q x y xs
  assume "sq_wf q \<and> slots_ok ok q" "ok y" "sq_items q = x # xs"
  then show "\<exists>q'. sq_get ok y q = Inr (x, q') \<and> (sq_wf q' \<and> slots_ok ok q') \<and>
      length (queue q') = length (queue q) \<and> sq_items q' = xs"
    using Remove_front [of q ok y x xs] by (auto simp: sq_get_def)
qed

section \<open>Producer and consumer together\<close>

definition read_pos :: "'a threads \<Rightarrow> nat" where
  "read_pos t = (case consumer t of
       C_counted y \<Rightarrow> Suc (next_read_index (shared t))
     | C_cleared y n \<Rightarrow> next_read_index (shared t) + n
     | _ \<Rightarrow> next_read_index (shared t))"

definition write_pos :: "'a threads \<Rightarrow> nat" where
  "write_pos t = (case producer t of
       P_counted y n \<Rightarrow> Suc (next_write_index (shared t))
     | _ \<Rightarrow> next_write_index (shared t))"

text \<open>
  The items in transit: the window of full slots, with the item the consumer has swapped out but not
  yet accounted for still in front.
\<close>

definition transit :: "'a threads \<Rightarrow> 'a list" where
  "transit t = (case consumer t of
       C_swapped x \<Rightarrow>
         x # window (queue (shared t)) (Suc (next_read_index (shared t))) (num_elements (shared t) - 1)
     | _ \<Rightarrow> window (queue (shared t)) (read_pos t) (num_elements (shared t)))"

definition producer_inv :: "'a threads \<Rightarrow> bool" where
  "producer_inv t = (case producer t of
       P_idle x \<Rightarrow> True
     | P_checked x \<Rightarrow> num_elements (shared t) < queue_size (shared t)
     | P_swapped x y \<Rightarrow> num_elements (shared t) < queue_size (shared t) \<and>
         queue (shared t) ! next_write_index (shared t) = x
     | P_counted y n \<Rightarrow> n < queue_size (shared t))"

definition consumer_inv :: "'a threads \<Rightarrow> bool" where
  "consumer_inv t = (case consumer t of
       C_checked x \<Rightarrow> 0 < num_elements (shared t)
     | C_swapped x \<Rightarrow> 0 < num_elements (shared t)
     | C_cleared x n \<Rightarrow> n \<le> queue_size (shared t)
     | _ \<Rightarrow> True)"

definition threads_inv :: "'a threads \<Rightarrow> bool" where
  "threads_inv t \<longleftrightarrow>
     next_read_index (shared t) < queue_size (shared t) \<and>
     next_write_index (shared t) < queue_size (shared t) \<and>
     num_elements (shared t) \<le> queue_size (shared t) \<and>
     write_pos t mod queue_size (shared t) =
       (read_pos t + num_elements (shared t)) mod queue_size (shared t) \<and>
     producer_inv t \<and> consumer_inv t"

fun fifo_spec :: "nat \<Rightarrow> 'a list \<Rightarrow> 'a event \<Rightarrow> 'a list \<Rightarrow> bool" where
  "fifo_spec n xs Internal ys \<longleftrightarrow> ys = xs"
| "fifo_spec n xs (Inserted x) ys \<longleftrightarrow> length xs < n \<and> ys = xs @ [x]"
| "fifo_spec n xs Refused ys \<longleftrightarrow> length xs = n \<and> ys = xs"
| "fifo_spec n xs (Removed x) ys \<longleftrightarrow> xs = x # ys"
| "fifo_spec n xs Empty ys \<longleftrightarrow> xs = [] \<and> ys = []"
| "fifo_spec n xs Dropped ys \<longleftrightarrow> ys = []"

lemmas thread_defs = threads_inv_def transit_def read_pos_def write_pos_def producer_inv_def
  consumer_inv_def

lemma threads_inv_pos: "threads_inv t \<Longrightarrow> queue (shared t) \<noteq> []"
  by (auto simp: threads_inv_def)

lemma transit_length:
  assumes "threads_inv t"
  shows "length (transit t) = num_elements (shared t)"
  using assms by (auto simp: thread_defs window_simps split: consumer.splits)

text \<open>While the producer may touch its slot, that slot is outside the window, and not the consumer's.\<close>

lemma write_slot_free:
  assumes "threads_inv t" "num_elements (shared t) < queue_size (shared t)"
    and "write_pos t = next_write_index (shared t)"
  shows "i < num_elements (shared t) \<Longrightarrow>
    (read_pos t + i) mod queue_size (shared t) \<noteq> next_write_index (shared t)"
proof -
  assume "i < num_elements (shared t)"
  then have "(read_pos t + i) mod queue_size (shared t) \<noteq>
      (read_pos t + num_elements (shared t)) mod queue_size (shared t)"
    using assms(2) by (intro mod_add_neq) auto
  moreover have "next_write_index (shared t) =
      (read_pos t + num_elements (shared t)) mod queue_size (shared t)"
    using assms(1,3) by (auto simp: threads_inv_def)
  ultimately show ?thesis by simp
qed

lemma step_swap_in:
  assumes "threads_inv t" "producer t = P_checked x"
    and "swap_slot (next_write_index (shared t)) x (shared t) = (y, q)"
  shows "threads_inv (t\<lparr>shared := q, producer := P_swapped x y\<rparr>) \<and>
    transit (t\<lparr>shared := q, producer := P_swapped x y\<rparr>) = transit t"
proof -
  have w: "write_pos t = next_write_index (shared t)" using assms(2) by (simp add: write_pos_def)
  have room: "num_elements (shared t) < queue_size (shared t)"
    using assms(1,2) by (simp add: threads_inv_def producer_inv_def)
  note free = write_slot_free [OF assms(1) room w]
  have "Suc (next_read_index (shared t) + i) mod queue_size (shared t) \<noteq> next_write_index (shared t)"
    if "consumer t = C_swapped z" "i < num_elements (shared t) - 1" for z i
    using free [of "Suc i"] that by (simp add: read_pos_def)
  with free assms show ?thesis
    by (auto simp: thread_defs swap_slot_def window_update split: consumer.splits)
qed

lemma step_count_in:
  assumes "threads_inv t" "producer t = P_swapped x y" "fetch_add (shared t) = (n, q)"
  shows "threads_inv (t\<lparr>shared := q, producer := P_counted y n\<rparr>) \<and>
    transit (t\<lparr>shared := q, producer := P_counted y n\<rparr>) = transit t @ [x] \<and>
    num_elements (shared t) < queue_size (shared t)"
proof -
  let ?Q = "queue (shared t)" and ?n = "num_elements (shared t)"
  have slot: "next_write_index (shared t) = (read_pos t + ?n) mod queue_size (shared t)"
    "?Q ! next_write_index (shared t) = x" "?n < queue_size (shared t)"
    using assms by (auto simp: threads_inv_def producer_inv_def write_pos_def)
  have "window ?Q (Suc (next_read_index (shared t))) ?n =
      window ?Q (Suc (next_read_index (shared t))) (?n - 1) @ [x]" if "consumer t = C_swapped z" for z
    using that assms(1) slot window_back [of ?Q "Suc (next_read_index (shared t))" "?n - 1"]
    by (simp add: threads_inv_def consumer_inv_def read_pos_def)
  moreover have "write_pos (t\<lparr>shared := q, producer := P_counted y n\<rparr>) mod queue_size (shared t) =
      (read_pos t + Suc ?n) mod queue_size (shared t)"
    using assms(2,3) slot(1) by (auto simp: write_pos_def fetch_add_def mod_simps)
  ultimately show ?thesis
    using assms slot
    by (auto simp: thread_defs fetch_add_def window_back mod_simps split: consumer.splits)
qed

lemma step_advance_in:
  assumes "threads_inv t" "producer t = P_counted y n"
  shows "threads_inv (t\<lparr>shared := set_write (shared t), producer := P_idle y\<rparr>) \<and>
    transit (t\<lparr>shared := set_write (shared t), producer := P_idle y\<rparr>) = transit t"
  using assms threads_inv_pos [OF assms(1)]
  by (auto simp: thread_defs set_write_def advance_mod mod_simps split: consumer.splits)

lemma step_swap_out:
  assumes "threads_inv t" "consumer t = C_checked x"
    and "swap_slot (next_read_index (shared t)) x (shared t) = (y, q)"
  shows "threads_inv (t\<lparr>shared := q, consumer := C_swapped y\<rparr>) \<and>
    transit (t\<lparr>shared := q, consumer := C_swapped y\<rparr>) = transit t"
proof -
  let ?Q = "queue (shared t)" and ?r = "next_read_index (shared t)"
  obtain m where m: "num_elements (shared t) = Suc m"
    using assms(1,2) by (cases "num_elements (shared t)") (auto simp: thread_defs)
  have r: "?r < queue_size (shared t)" "Suc m \<le> queue_size (shared t)"
    using assms(1) m by (auto simp: threads_inv_def)
  have "(Suc ?r + i) mod queue_size (shared t) \<noteq> ?r" if "i < m" for i
    using mod_add_neq [of 0 "Suc i" "queue_size (shared t)" ?r] that r by simp
  then have "window (?Q[?r := x]) (Suc ?r) m = window ?Q (Suc ?r) m" by (rule window_update)
  moreover have "?r \<noteq> next_write_index (shared t)" if "producer t = P_swapped u v" for u v
    using write_slot_free [OF assms(1), of 0] that assms(1,2) m r
    by (simp add: thread_defs)
  ultimately show ?thesis
    using assms r
    by (auto simp: thread_defs swap_slot_def m window_front split: producer.splits)
qed

lemma step_count_out:
  assumes "threads_inv t" "consumer t = C_swapped y"
  shows "threads_inv (t\<lparr>shared := fetch_sub (shared t), consumer := C_counted y\<rparr>) \<and>
    transit t = y # transit (t\<lparr>shared := fetch_sub (shared t), consumer := C_counted y\<rparr>)"
  using assms
  by (cases "num_elements (shared t)") (auto simp: thread_defs fetch_sub_def split: producer.splits)

lemma step_advance_out:
  assumes "threads_inv t" "consumer t = C_counted y"
  shows "threads_inv (t\<lparr>shared := set_read (shared t), consumer := C_idle y\<rparr>) \<and>
    transit (t\<lparr>shared := set_read (shared t), consumer := C_idle y\<rparr>) = transit t"
  using assms threads_inv_pos [OF assms(1)]
  by (auto simp: thread_defs set_read_def advance_mod advance_less window_simps mod_simps split: producer.splits)

lemma step_clear:
  assumes "threads_inv t" "consumer t = C_idle x" "exchange_zero (shared t) = (n, q)"
  shows "threads_inv (t\<lparr>shared := q, consumer := C_cleared x n\<rparr>) \<and>
    transit (t\<lparr>shared := q, consumer := C_cleared x n\<rparr>) = []"
  using assms by (auto simp: thread_defs exchange_zero_def window_simps split: producer.splits)

lemma step_skip:
  assumes "threads_inv t" "consumer t = C_cleared x n"
  shows "threads_inv (t\<lparr>shared := skip_read n (shared t), consumer := C_idle x\<rparr>) \<and>
    transit (t\<lparr>shared := skip_read n (shared t), consumer := C_idle x\<rparr>) = transit t"
proof -
  have "next_read_index (skip_read n (shared t)) = (next_read_index (shared t) + n) mod queue_size (shared t)"
    using assms by (intro skip_read_less) (auto simp: thread_defs)
  moreover have "queue (skip_read n (shared t)) = queue (shared t)"
    "num_elements (skip_read n (shared t)) = num_elements (shared t)"
    "next_write_index (skip_read n (shared t)) = next_write_index (shared t)"
    by (simp_all add: skip_read_def Let_def)
  ultimately show ?thesis
    using assms threads_inv_pos [OF assms(1)] window_mod [of "queue (shared t)"]
    by (auto simp: thread_defs mod_simps split: producer.splits)
qed

inductive_cases step_cases: "step t e t'"

lemma producer_irrelevant:
  assumes "threads_inv t" "producer t = P_idle x"
  shows "transit (t\<lparr>producer := P_idle y\<rparr>) = transit t \<and> threads_inv (t\<lparr>producer := P_idle y\<rparr>)"
    and "num_elements (shared t) \<noteq> queue_size (shared t) \<Longrightarrow>
      transit (t\<lparr>producer := P_checked x\<rparr>) = transit t \<and> threads_inv (t\<lparr>producer := P_checked x\<rparr>)"
  using assms by (auto simp: thread_defs split: consumer.splits)

lemma consumer_irrelevant:
  assumes "threads_inv t" "consumer t = C_idle x"
  shows "transit (t\<lparr>consumer := C_idle y\<rparr>) = transit t \<and> threads_inv (t\<lparr>consumer := C_idle y\<rparr>)"
    and "num_elements (shared t) \<noteq> 0 \<Longrightarrow>
      transit (t\<lparr>consumer := C_checked x\<rparr>) = transit t \<and> threads_inv (t\<lparr>consumer := C_checked x\<rparr>)"
  using assms by (auto simp: thread_defs split: producer.splits)

lemma step_refines:
  assumes "threads_inv t" "step t e t'"
  shows "threads_inv t' \<and> fifo_spec (queue_size (shared t)) (transit t) e (transit t')"
  using assms(2)
proof cases
  case insert_full
  then show ?thesis using assms(1) transit_length [OF assms(1)] by simp
next
  case (insert_count x y n q)
  then show ?thesis
    using step_count_in [OF assms(1), of x y n q] transit_length [OF assms(1)] by simp
next
  case remove_empty
  then show ?thesis using assms(1) transit_length [OF assms(1)] by simp
next
  case (remove_count y)
  then show ?thesis using step_count_out [OF assms(1), of y] by simp
qed (use assms(1) in \<open>simp_all add: producer_irrelevant consumer_irrelevant step_swap_in
    step_advance_in step_swap_out step_advance_out step_clear step_skip\<close>)

lemma step_size: "step t e t' \<Longrightarrow> queue_size (shared t') = queue_size (shared t)"
  by (induction rule: step.induct)
    (auto simp: swap_slot_def fetch_add_def fetch_sub_def set_write_def set_read_def
      exchange_zero_def skip_read_def Let_def)

lemma run_inv:
  "run t es t' \<Longrightarrow> threads_inv t \<Longrightarrow> threads_inv t' \<and> queue_size (shared t') = queue_size (shared t)"
  by (induction rule: run.induct) (use step_refines step_size in \<open>fastforce+\<close>)

fun inserted :: "'a event list \<Rightarrow> 'a list" where
  "inserted [] = []"
| "inserted (Inserted x # es) = x # inserted es"
| "inserted (e # es) = inserted es"

fun removed :: "'a event list \<Rightarrow> 'a list" where
  "removed [] = []"
| "removed (Removed x # es) = x # removed es"
| "removed (e # es) = removed es"

lemma trace_append:
  "inserted (es @ fs) = inserted es @ inserted fs" "removed (es @ fs) = removed es @ removed fs"
  by (induction es rule: inserted.induct; simp)
    (induction es rule: removed.induct; simp)

lemma run_in_order:
  assumes "run t es t'" "threads_inv t" "Dropped \<notin> set es"
  shows "transit t @ inserted es = removed es @ transit t'"
  using assms
proof (induction rule: run.induct)
  case (run_step t es t' e t'')
  then have IH: "transit t @ inserted es = removed es @ transit t'" and inv: "threads_inv t'"
    using run_inv [OF run_step.hyps(1)] by auto
  have "fifo_spec (queue_size (shared t')) (transit t') e (transit t'')" "e \<noteq> Dropped"
    using step_refines [OF inv run_step.hyps(2)] run_step.prems by auto
  then have "transit t' @ inserted [e] = removed [e] @ transit t''" by (cases e) auto
  moreover have "transit t @ inserted es @ inserted [e] = (removed es @ transit t') @ inserted [e]"
    using IH by (simp flip: append_assoc)
  ultimately show ?case by (simp add: trace_append)
qed simp

text \<open>The queue right after construction, both threads outside any call.\<close>

definition threads_init :: "nat \<Rightarrow> 'a \<Rightarrow> 'a \<Rightarrow> 'a \<Rightarrow> 'a threads" where
  "threads_init n prototype x y =
     \<lparr>shared = \<lparr>queue = replicate n prototype, next_write_index = 0, next_read_index = 0,
                 num_elements = 0\<rparr>,
      producer = P_idle x, consumer = C_idle y\<rparr>"

lemma threads_init_inv: "0 < n \<Longrightarrow> threads_inv (threads_init n p x y)"
  by (simp add: threads_init_def thread_defs)

lemma threads_init_transit: "transit (threads_init n p x y) = []"
  by (simp add: threads_init_def thread_defs window_simps)

section \<open>Properties\<close>

text \<open>
  C16: called by one thread at a time, the queue is a bounded first-in first-out queue of items that pass
  the verifier: \<open>Insert\<close> appends or, exactly when the queue is full, refuses and hands the item back;
  \<open>Remove\<close> takes the front or, exactly when it is empty, refuses; \<open>Clear\<close> empties it; no check
  fails, and what the caller gets back passes the verifier again.
\<close>

theorem SwapQueue_refines_fifo:
  assumes "sq_wf q" "slots_ok ok q" "ok x"
  shows "(\<exists>b y q'. Insert ok x q = Inr (b, y, q') \<and> sq_wf q' \<and> slots_ok ok q' \<and> ok y \<and>
      (if length (sq_items q) < queue_size q then b \<and> sq_items q' = sq_items q @ [x]
       else \<not> b \<and> y = x \<and> q' = q)) \<and>
    (\<exists>b y q'. Remove ok x q = Inr (b, y, q') \<and> sq_wf q' \<and> slots_ok ok q' \<and> ok y \<and>
      (case sq_items q of [] \<Rightarrow> \<not> b \<and> y = x \<and> q' = q | z # zs \<Rightarrow> b \<and> y = z \<and> sq_items q' = zs)) \<and>
    (\<exists>q'. Clear q = Inr q' \<and> sq_wf q' \<and> slots_ok ok q' \<and> sq_items q' = [])"
proof (intro conjI)
  show "\<exists>b y q'. Insert ok x q = Inr (b, y, q') \<and> sq_wf q' \<and> slots_ok ok q' \<and> ok y \<and>
      (if length (sq_items q) < queue_size q then b \<and> sq_items q' = sq_items q @ [x]
       else \<not> b \<and> y = x \<and> q' = q)"
  proof (cases "num_elements q < queue_size q")
    case True
    then show ?thesis using Insert_room [OF assms True] by (auto simp: sq_items_length)
  next
    case False
    then show ?thesis using assms Insert_full [of ok x q] by (auto simp: sq_items_length sq_wf_def)
  qed
  show "\<exists>b y q'. Remove ok x q = Inr (b, y, q') \<and> sq_wf q' \<and> slots_ok ok q' \<and> ok y \<and>
      (case sq_items q of [] \<Rightarrow> \<not> b \<and> y = x \<and> q' = q | z # zs \<Rightarrow> b \<and> y = z \<and> sq_items q' = zs)"
  proof (cases "sq_items q")
    case Nil
    then have "num_elements q = 0" using sq_items_length [of q] by simp
    then show ?thesis using Nil assms Remove_empty [of ok x q] by auto
  next
    case (Cons z zs)
    then show ?thesis using Remove_front [OF assms Cons] by auto
  qed
  show "\<exists>q'. Clear q = Inr q' \<and> sq_wf q' \<and> slots_ok ok q' \<and> sq_items q' = []"
    using Clear_empties [OF assms(1)] assms(2) by (auto simp: slots_ok_def)
qed

theorem SwapQueue_refines_fifo_witness:
  "\<exists>b y q'. Insert (\<lambda>n. n < 9) (4 :: nat)
      \<lparr>queue = [7, 8, 6], next_write_index = 0, next_read_index = 2, num_elements = 1\<rparr> = Inr (b, y, q') \<and>
    b \<and> sq_items q' = [6, 4]"
  using SwapQueue_refines_fifo [of "\<lparr>queue = [7, 8, 6], next_write_index = 0, next_read_index = 2,
      num_elements = 1\<rparr>" "\<lambda>n. n < 9" "4 :: nat"]
  by (auto simp: sq_wf_def slots_ok_def sq_items_def window_def)

text \<open>
  C4: with the producer's and the consumer's accesses interleaved in any way, items come out in the order
  they went in: as long as the consumer never calls \<open>Clear\<close>, what has been inserted is what has been
  removed followed by what is in transit, of which there is never more than the queue's size.
\<close>

theorem threads_in_order:
  assumes "0 < n" "run (threads_init n prototype x y) es t" "Dropped \<notin> set es"
  shows "inserted es = removed es @ transit t \<and> length (transit t) \<le> n"
proof -
  have "threads_inv t" "queue_size (shared t) = n"
    using run_inv [OF assms(2) threads_init_inv [OF assms(1)]] by (simp_all add: threads_init_def)
  then have "length (transit t) \<le> n" using transit_length [of t] by (auto simp: threads_inv_def)
  then show ?thesis
    using run_in_order [OF assms(2) threads_init_inv [OF assms(1)] assms(3)]
    by (simp add: threads_init_transit)
qed

lemma run_cons:
  "step t e t' \<Longrightarrow> run t' es t'' \<Longrightarrow> run t (e # es) t''"
proof (rotate_tac, induction rule: run.induct)
  case (run_start t')
  then show ?case using run_step [OF run.run_start, of t e t'] by simp
next
  case (run_step t' es u f v)
  then show ?case using run.run_step [of t "e # es" u f v] by simp
qed

text \<open>A run for the witnesses: one item goes in, then both threads enter a call.\<close>

definition demo :: "nat threads" where
  "demo = threads_init 2 0 5 9"

definition demo_in :: "nat threads" where
  "demo_in = demo\<lparr>shared := \<lparr>queue = [5, 0], next_write_index = 0, next_read_index = 0,
     num_elements = 1\<rparr>, producer := P_counted 0 0\<rparr>"

definition demo_both :: "nat threads" where
  "demo_both = demo\<lparr>shared := \<lparr>queue = [5, 0], next_write_index = 1, next_read_index = 0,
     num_elements = 1\<rparr>, producer := P_checked 0, consumer := C_checked 9\<rparr>"

lemmas demo_defs = demo_def demo_in_def demo_both_def threads_init_def

lemma demo_run: "run demo [Internal, Internal, Inserted 5] demo_in"
proof -
  let ?t1 = "demo\<lparr>producer := P_checked 5\<rparr>"
  let ?t2 = "?t1\<lparr>shared := shared demo\<lparr>queue := [5, 0]\<rparr>, producer := P_swapped 5 0\<rparr>"
  have "step demo Internal ?t1" by (rule insert_check) (simp_all add: demo_defs)
  moreover have "step ?t1 Internal ?t2"
    by (rule insert_swap) (simp_all add: demo_defs swap_slot_def numeral_2_eq_2)
  moreover have "step ?t2 (Inserted 5) (?t2\<lparr>shared := shared ?t2\<lparr>num_elements := 1\<rparr>, producer := P_counted 0 0\<rparr>)"
    by (rule insert_count) (simp_all add: demo_defs fetch_add_def)
  then have "step ?t2 (Inserted 5) demo_in" by (simp add: demo_defs)
  ultimately show ?thesis
    by (intro run_cons [OF _ run_cons [OF _ run_cons [OF _ run_start]]])
qed

lemma demo_run_both: "\<exists>es. run demo es demo_both"
proof -
  let ?t4 = "demo_in\<lparr>shared := set_write (shared demo_in), producer := P_idle 0\<rparr>"
  let ?t5 = "?t4\<lparr>producer := P_checked 0\<rparr>"
  have "step demo_in Internal ?t4" by (rule insert_advance) (simp add: demo_defs)
  moreover have "step ?t4 Internal ?t5"
    by (rule insert_check) (simp_all add: demo_defs set_write_def)
  moreover have "step ?t5 Internal (?t5\<lparr>consumer := C_checked 9\<rparr>)"
    by (rule remove_check) (simp_all add: demo_defs set_write_def)
  then have "step ?t5 Internal demo_both" by (simp add: demo_defs set_write_def advance_def)
  ultimately show ?thesis using run_step demo_run by blast
qed

theorem threads_in_order_witness:
  "\<exists>es. run demo es demo_in \<and> inserted es = removed es @ transit demo_in \<and> length (transit demo_in) \<le> 2"
  using threads_in_order [of 2 0 5 9 _ demo_in] demo_run unfolding demo_def by force

text \<open>
  C3: the two threads never touch the same slot at the same time: whenever the producer is between its
  test of the counter and its increment and the consumer between its test and its decrement, the slot
  the one swaps with is not the slot the other swaps with; and both indices stay inside the vector.
\<close>

theorem threads_no_data_race:
  assumes "0 < n" "run (threads_init n prototype x y) es t"
    and "producer t = P_checked u \<or> producer t = P_swapped u v"
    and "consumer t = C_checked w \<or> consumer t = C_swapped w"
  shows "next_write_index (shared t) \<noteq> next_read_index (shared t) \<and>
    next_write_index (shared t) < n \<and> next_read_index (shared t) < n"
proof -
  have inv: "threads_inv t" and n: "queue_size (shared t) = n"
    using run_inv [OF assms(2) threads_init_inv [OF assms(1)]] by (simp_all add: threads_init_def)
  from inv assms(3,4) have "0 < num_elements (shared t)" "num_elements (shared t) < n"
    "write_pos t = next_write_index (shared t)" "read_pos t = next_read_index (shared t)"
    by (auto simp: thread_defs n)
  with write_slot_free [OF inv, of 0] inv show ?thesis by (auto simp: threads_inv_def n)
qed

theorem threads_no_data_race_witness:
  "\<exists>es. run demo es demo_both \<and>
     next_write_index (shared demo_both) \<noteq> next_read_index (shared demo_both)"
proof -
  obtain es where es: "run demo es demo_both" using demo_run_both by blast
  have "producer demo_both = P_checked 0" "consumer demo_both = C_checked 9" by (simp_all add: demo_defs)
  with es threads_no_data_race [of 2 0 5 9 es demo_both 0 0 9] show ?thesis by (auto simp: demo_def)
qed

end
