(* ===== verification/Buffer.thy ===== *)
theory Buffer
  imports Prelude
begin

text \<open>
  \<^verbatim>\<open>rtc_base/buffer.h\<close>: \<^verbatim>\<open>BufferT<T, ZeroOnFree>\<close>, a growable buffer of trivially copyable elements.

  A heap block is a list of cells, \<open>None\<close> for a cell that was never written; \<open>data\<close> is \<open>None\<close> for the null
  pointer.  The flag \<open>zof\<close> is the template argument \<^verbatim>\<open>ZeroOnFree\<close> and \<open>z\<close> the element whose bytes are all
  zero.  The ghost field \<open>freed\<close> collects the blocks given back to the heap, as they were at that
  moment.  Sizes are natural numbers: their sums are assumed to stay below the limit of \<^verbatim>\<open>size_t\<close>.  A source
  range is passed by value, so a range inside the buffer itself is not modelled, and neither is moving a buffer to
  itself; \<open>OnMovedFrom\<close> is that of a build with checks.  A copy of no elements
  does nothing, null pointers included.  A setter passed to \<^verbatim>\<open>SetData\<close> or \<^verbatim>\<open>AppendData\<close> is an argument
  that maps the cells of its view to their new contents and its result.
\<close>

section \<open>Definitions\<close>

type_synonym 'a cell = "'a option"

record 'a BufferT =
  buf_size :: nat
  buf_capacity :: nat
  buf_data :: "'a cell list option"
  freed :: "'a cell list list"

definition BufferT_IsConsistent :: "'a BufferT \<Rightarrow> bool" where
  "BufferT_IsConsistent b \<longleftrightarrow>
     (buf_data b \<noteq> None \<or> buf_capacity b = 0) \<and> buf_capacity b \<ge> buf_size b"

text \<open>Copying, zeroing and releasing memory.\<close>

definition put_cells :: "nat \<Rightarrow> 'a cell list \<Rightarrow> 'a cell list \<Rightarrow> 'a cell list" where
  "put_cells pos xs cells = take pos cells @ xs @ drop (pos + length xs) cells"

definition copy_in :: "nat \<Rightarrow> 'a cell list \<Rightarrow> 'a BufferT \<Rightarrow> 'a BufferT outcome" where
  "copy_in pos xs b =
     (if xs = [] then Inr b
      else case buf_data b of
        None \<Rightarrow> Inl Undefined_behaviour
      | Some cells \<Rightarrow> defined_if (pos + length xs \<le> length cells)
          (Inr (b\<lparr>buf_data := Some (put_cells pos xs cells)\<rparr>)))"

definition release :: "'a BufferT \<Rightarrow> 'a BufferT" where
  "release b = (case buf_data b of None \<Rightarrow> b
     | Some cells \<Rightarrow> b\<lparr>buf_data := None, freed := freed b @ [cells]\<rparr>)"

definition MaybeZeroCompleteBuffer :: "bool \<Rightarrow> 'a \<Rightarrow> 'a BufferT \<Rightarrow> 'a BufferT outcome" where
  "MaybeZeroCompleteBuffer zof z b =
     (if zof \<and> buf_capacity b > 0 then copy_in 0 (replicate (buf_capacity b) (Some z)) b else Inr b)"

definition ZeroTrailingData :: "'a \<Rightarrow> nat \<Rightarrow> 'a BufferT \<Rightarrow> 'a BufferT outcome" where
  "ZeroTrailingData z count b =
     dcheck (BufferT_IsConsistent b)
     (dcheck (count \<le> buf_capacity b - buf_size b)
     (copy_in (buf_size b) (replicate count (Some z)) b))"

definition OnMovedFrom :: "'a BufferT \<Rightarrow> 'a BufferT outcome" where
  "OnMovedFrom b = dcheck (buf_data b = None) (Inr (b\<lparr>buf_size := 1, buf_capacity := 0\<rparr>))"

definition EnsureCapacityWithHeadroom ::
  "bool \<Rightarrow> 'a \<Rightarrow> nat \<Rightarrow> bool \<Rightarrow> 'a BufferT \<Rightarrow> 'a BufferT outcome" where
  "EnsureCapacityWithHeadroom zof z capacity extra_headroom b =
     dcheck (BufferT_IsConsistent b)
       (if capacity \<le> buf_capacity b then Inr b
        else
          let new_capacity =
                (if extra_headroom then max capacity (buf_capacity b + buf_capacity b div 2)
                 else capacity);
              new_data = replicate new_capacity None;
              copied = (case buf_data b of None \<Rightarrow> new_data
                | Some cells \<Rightarrow> put_cells 0 (take (buf_size b) cells) new_data)
          in and_then (MaybeZeroCompleteBuffer zof z b) (\<lambda>b1.
             let b2 = (release b1)\<lparr>buf_data := Some copied, buf_capacity := new_capacity\<rparr>
             in dcheck (BufferT_IsConsistent b2) (Inr b2)))"

subsection \<open>Construction, move and destruction\<close>

definition BufferT_empty :: "'a BufferT outcome" where
  "BufferT_empty =
     (let b = \<lparr>buf_size = 0, buf_capacity = 0, buf_data = None, freed = []\<rparr>
      in dcheck (BufferT_IsConsistent b) (Inr b))"

definition BufferT_sized :: "nat \<Rightarrow> nat \<Rightarrow> 'a BufferT outcome" where
  "BufferT_sized n capacity =
     (let c = max n capacity;
          b = \<lparr>buf_size = n, buf_capacity = c,
               buf_data = (if c > 0 then Some (replicate c None) else None), freed = []\<rparr>
      in dcheck (BufferT_IsConsistent b) (Inr b))"

definition BufferT_copy :: "'a list \<Rightarrow> nat \<Rightarrow> 'a BufferT outcome" where
  "BufferT_copy data capacity =
     and_then (BufferT_sized (length data) capacity) (copy_in 0 (map Some data))"

definition BufferT_move :: "'a BufferT \<Rightarrow> ('a BufferT \<times> 'a BufferT) outcome" where
  "BufferT_move buf =
     dcheck (BufferT_IsConsistent buf)
       (let b = buf\<lparr>freed := []\<rparr>; buf' = buf\<lparr>buf_data := None\<rparr>
        in dcheck (BufferT_IsConsistent b)
           (and_then (OnMovedFrom buf') (\<lambda>buf''. Inr (b, buf''))))"

definition BufferT_destroy :: "bool \<Rightarrow> 'a \<Rightarrow> 'a BufferT \<Rightarrow> 'a BufferT outcome" where
  "BufferT_destroy zof z b = map_outcome release (MaybeZeroCompleteBuffer zof z b)"

definition BufferT_move_assign ::
  "bool \<Rightarrow> 'a \<Rightarrow> 'a BufferT \<Rightarrow> 'a BufferT \<Rightarrow> ('a BufferT \<times> 'a BufferT) outcome" where
  "BufferT_move_assign zof z b buf =
     dcheck (BufferT_IsConsistent buf)
     (and_then (MaybeZeroCompleteBuffer zof z b) (\<lambda>b1.
        let b2 = b1\<lparr>buf_size := buf_size buf, buf_capacity := buf_capacity buf,
                    buf_data := buf_data buf\<rparr>;
            buf1 = release (buf\<lparr>buf_data := buf_data b1\<rparr>)
        in and_then (OnMovedFrom buf1) (\<lambda>buf2. Inr (b2, buf2))))"

definition BufferT_swap :: "'a BufferT \<Rightarrow> 'a BufferT \<Rightarrow> 'a BufferT \<times> 'a BufferT" where
  "BufferT_swap a b =
     (a\<lparr>buf_size := buf_size b, buf_capacity := buf_capacity b, buf_data := buf_data b\<rparr>,
      b\<lparr>buf_size := buf_size a, buf_capacity := buf_capacity a, buf_data := buf_data a\<rparr>)"

subsection \<open>Observers\<close>

definition BufferT_data :: "'a BufferT \<Rightarrow> 'a cell list option outcome" where
  "BufferT_data b = dcheck (BufferT_IsConsistent b) (Inr (buf_data b))"

definition BufferT_is_empty :: "'a BufferT \<Rightarrow> bool outcome" where
  "BufferT_is_empty b = dcheck (BufferT_IsConsistent b) (Inr (buf_size b = 0))"

definition BufferT_size :: "'a BufferT \<Rightarrow> nat outcome" where
  "BufferT_size b = dcheck (BufferT_IsConsistent b) (Inr (buf_size b))"

definition BufferT_capacity :: "'a BufferT \<Rightarrow> nat outcome" where
  "BufferT_capacity b = dcheck (BufferT_IsConsistent b) (Inr (buf_capacity b))"

text \<open>Reading a cell that was never written is undefined.\<close>

definition cell_at :: "'a cell list option \<Rightarrow> nat \<Rightarrow> 'a outcome" where
  "cell_at d i = (case d of None \<Rightarrow> Inl Undefined_behaviour
     | Some cells \<Rightarrow> defined_if (i < length cells)
         (case cells ! i of None \<Rightarrow> Inl Undefined_behaviour | Some x \<Rightarrow> Inr x))"

definition BufferT_at :: "'a BufferT \<Rightarrow> nat \<Rightarrow> 'a outcome" where
  "BufferT_at b index =
     dcheck (index < buf_size b) (and_then (BufferT_data b) (\<lambda>d. cell_at d index))"

fun compare_from :: "nat \<Rightarrow> nat \<Rightarrow> 'a BufferT \<Rightarrow> 'a BufferT \<Rightarrow> bool outcome" where
  "compare_from i 0 a b = Inr True"
| "compare_from i (Suc n) a b =
     and_then (cell_at (buf_data a) i) (\<lambda>x. and_then (cell_at (buf_data b) i) (\<lambda>y.
       if x \<noteq> y then Inr False else compare_from (Suc i) n a b))"

definition BufferT_eq :: "'a BufferT \<Rightarrow> 'a BufferT \<Rightarrow> bool outcome" where
  "BufferT_eq a b =
     dcheck (BufferT_IsConsistent a)
       (if buf_size a \<noteq> buf_size b then Inr False else compare_from 0 (buf_size a) a b)"

definition BufferT_ne :: "'a BufferT \<Rightarrow> 'a BufferT \<Rightarrow> bool outcome" where
  "BufferT_ne a b = map_outcome Not (BufferT_eq a b)"

subsection \<open>Modifiers\<close>

definition BufferT_set_at :: "'a BufferT \<Rightarrow> nat \<Rightarrow> 'a \<Rightarrow> 'a BufferT outcome" where
  "BufferT_set_at b index x =
     dcheck (index < buf_size b) (and_then (BufferT_data b) (\<lambda>d. copy_in index [Some x] b))"

definition BufferT_SetSize :: "bool \<Rightarrow> 'a \<Rightarrow> nat \<Rightarrow> 'a BufferT \<Rightarrow> 'a BufferT outcome" where
  "BufferT_SetSize zof z n b =
     (let old_size = buf_size b
      in and_then (EnsureCapacityWithHeadroom zof z n True b) (\<lambda>b1.
         let b2 = b1\<lparr>buf_size := n\<rparr>
         in if zof \<and> buf_size b2 < old_size then ZeroTrailingData z (old_size - buf_size b2) b2
            else Inr b2))"

definition BufferT_EnsureCapacity :: "bool \<Rightarrow> 'a \<Rightarrow> nat \<Rightarrow> 'a BufferT \<Rightarrow> 'a BufferT outcome" where
  "BufferT_EnsureCapacity zof z capacity b = EnsureCapacityWithHeadroom zof z capacity False b"

definition BufferT_Clear :: "bool \<Rightarrow> 'a \<Rightarrow> 'a BufferT \<Rightarrow> 'a BufferT outcome" where
  "BufferT_Clear zof z b =
     and_then (MaybeZeroCompleteBuffer zof z b) (\<lambda>b1.
       let b2 = b1\<lparr>buf_size := 0\<rparr> in dcheck (BufferT_IsConsistent b2) (Inr b2))"

definition BufferT_AppendData :: "bool \<Rightarrow> 'a \<Rightarrow> 'a list \<Rightarrow> 'a BufferT \<Rightarrow> 'a BufferT outcome" where
  "BufferT_AppendData zof z data b =
     dcheck (BufferT_IsConsistent b)
       (let new_size = buf_size b + length data
        in and_then (EnsureCapacityWithHeadroom zof z new_size True b) (\<lambda>b1.
           and_then (copy_in (buf_size b1) (map Some data) b1) (\<lambda>b2.
             let b3 = b2\<lparr>buf_size := new_size\<rparr> in dcheck (BufferT_IsConsistent b3) (Inr b3))))"

definition BufferT_SetData :: "bool \<Rightarrow> 'a \<Rightarrow> 'a list \<Rightarrow> 'a BufferT \<Rightarrow> 'a BufferT outcome" where
  "BufferT_SetData zof z data b =
     dcheck (BufferT_IsConsistent b)
       (let old_size = buf_size b
        in and_then (BufferT_AppendData zof z data (b\<lparr>buf_size := 0\<rparr>)) (\<lambda>b1.
           if zof \<and> buf_size b1 < old_size then ZeroTrailingData z (old_size - buf_size b1) b1
           else Inr b1))"

type_synonym 'a setter = "'a cell list \<Rightarrow> 'a cell list \<times> nat"

definition view_of :: "nat \<Rightarrow> nat \<Rightarrow> 'a BufferT \<Rightarrow> 'a cell list" where
  "view_of pos n b = (case buf_data b of None \<Rightarrow> [] | Some cells \<Rightarrow> take n (drop pos cells))"

definition BufferT_AppendData_setter ::
  "bool \<Rightarrow> 'a \<Rightarrow> nat \<Rightarrow> 'a setter \<Rightarrow> 'a BufferT \<Rightarrow> (nat \<times> 'a BufferT) outcome" where
  "BufferT_AppendData_setter zof z max_elements setter b =
     dcheck (BufferT_IsConsistent b)
       (let old_size = buf_size b
        in and_then (BufferT_SetSize zof z (old_size + max_elements) b) (\<lambda>b1.
           and_then (BufferT_data b1) (\<lambda>d.
             let (cells, written_elements) = setter (view_of old_size max_elements b1)
             in and_then (copy_in old_size cells b1) (\<lambda>b2.
                rtc_check (written_elements \<le> max_elements)
                  (let b3 = b2\<lparr>buf_size := old_size + written_elements\<rparr>
                   in dcheck (BufferT_IsConsistent b3) (Inr (written_elements, b3)))))))"

definition BufferT_SetData_setter ::
  "bool \<Rightarrow> 'a \<Rightarrow> nat \<Rightarrow> 'a setter \<Rightarrow> 'a BufferT \<Rightarrow> (nat \<times> 'a BufferT) outcome" where
  "BufferT_SetData_setter zof z max_elements setter b =
     dcheck (BufferT_IsConsistent b)
       (let old_size = buf_size b
        in and_then (BufferT_AppendData_setter zof z max_elements setter (b\<lparr>buf_size := 0\<rparr>))
           (\<lambda>(written, b1).
              if zof \<and> buf_size b1 < old_size
              then map_outcome (Pair written) (ZeroTrailingData z (old_size - buf_size b1) b1)
              else Inr (written, b1)))"

section \<open>Well-formed buffers\<close>

definition block_ok :: "'a BufferT \<Rightarrow> bool" where
  "block_ok b = (case buf_data b of None \<Rightarrow> buf_capacity b = 0 | Some cells \<Rightarrow> length cells = buf_capacity b)"

definition buf_ok :: "'a BufferT \<Rightarrow> bool" where
  "buf_ok b \<longleftrightarrow> block_ok b \<and> buf_size b \<le> buf_capacity b"

definition cells_of :: "'a BufferT \<Rightarrow> 'a cell list" where
  "cells_of b = (case buf_data b of None \<Rightarrow> [] | Some cells \<Rightarrow> cells)"

definition contents :: "'a BufferT \<Rightarrow> 'a cell list" where
  "contents b = take (buf_size b) (cells_of b)"

text \<open>
  Memory that holds nothing of value: never written, or zero.  \<open>clean_from z k b\<close>: this is so of the
  block from cell \<open>k\<close> on and of every block released.
\<close>

definition scrubbed :: "'a \<Rightarrow> 'a cell list \<Rightarrow> bool" where
  "scrubbed z cs \<longleftrightarrow> set cs \<subseteq> {None, Some z}"

definition clean_from :: "'a \<Rightarrow> nat \<Rightarrow> 'a BufferT \<Rightarrow> bool" where
  "clean_from z k b \<longleftrightarrow> scrubbed z (drop k (cells_of b)) \<and> (\<forall>blk \<in> set (freed b). scrubbed z blk)"

lemma buf_ok_consistent: "buf_ok b \<Longrightarrow> BufferT_IsConsistent b"
  by (auto simp: buf_ok_def block_ok_def BufferT_IsConsistent_def split: option.splits)

lemma block_ok_length: "block_ok b \<Longrightarrow> length (cells_of b) = buf_capacity b"
  by (auto simp: block_ok_def cells_of_def split: option.splits)

lemma resize_simps [simp]:
  "block_ok (b\<lparr>buf_size := n\<rparr>) = block_ok b" "cells_of (b\<lparr>buf_size := n\<rparr>) = cells_of b"
  "clean_from z k (b\<lparr>buf_size := n\<rparr>) = clean_from z k b"
  by (simp_all add: block_ok_def cells_of_def clean_from_def split: option.splits)

lemma put_cells_length [simp]: "pos + length xs \<le> length cells \<Longrightarrow> length (put_cells pos xs cells) = length cells"
  by (simp add: put_cells_def)

lemma scrubbed_simps [simp]:
  "scrubbed z []" "scrubbed z (replicate n (Some z))" "scrubbed z (replicate n None)"
  "scrubbed z (xs @ ys) \<longleftrightarrow> scrubbed z xs \<and> scrubbed z ys"
  by (auto simp: scrubbed_def)

lemma scrubbed_drop: "scrubbed z (drop k xs) \<Longrightarrow> k \<le> l \<Longrightarrow> scrubbed z (drop l xs)"
  using set_drop_subset_set_drop [of k l xs] by (auto simp: scrubbed_def)

lemma clean_mono: "clean_from z k b \<Longrightarrow> k \<le> l \<Longrightarrow> clean_from z l b"
  by (auto simp: clean_from_def intro: scrubbed_drop)

lemma copy_in_ok:
  assumes "block_ok b" "pos + length xs \<le> buf_capacity b"
  shows "\<exists>b'. copy_in pos xs b = Inr b' \<and> block_ok b' \<and> cells_of b' = put_cells pos xs (cells_of b) \<and>
    buf_size b' = buf_size b \<and> buf_capacity b' = buf_capacity b \<and> freed b' = freed b"
  using assms
  by (cases "buf_data b") (auto simp: copy_in_def block_ok_def cells_of_def put_cells_def)

lemma MaybeZero_ok:
  assumes "block_ok b"
  shows "\<exists>b'. MaybeZeroCompleteBuffer zof z b = Inr b' \<and> block_ok b' \<and> buf_size b' = buf_size b \<and>
    buf_capacity b' = buf_capacity b \<and> freed b' = freed b \<and>
    cells_of b' = (if zof then replicate (buf_capacity b) (Some z) else cells_of b)"
proof (cases "zof \<and> buf_capacity b > 0")
  case True
  then show ?thesis
    using copy_in_ok [OF assms, of 0 "replicate (buf_capacity b) (Some z)"] block_ok_length [OF assms]
    by (auto simp: MaybeZeroCompleteBuffer_def put_cells_def)
next
  case False
  then show ?thesis
    using assms block_ok_length [OF assms] by (auto simp: MaybeZeroCompleteBuffer_def)
qed

lemma release_simps [simp]:
  "buf_data (release b) = None" "buf_size (release b) = buf_size b"
  "buf_capacity (release b) = buf_capacity b"
  "freed (release b) = freed b @ (case buf_data b of None \<Rightarrow> [] | Some cells \<Rightarrow> [cells])"
  by (simp_all add: release_def split: option.splits)

lemma put_cells_take: "put_cells 0 (take n cells) (replicate m None) =
    take n cells @ replicate (m - length (take n cells)) None"
  by (simp add: put_cells_def)

lemma EnsureCapacity_ok:
  assumes "buf_ok b"
  shows "\<exists>b'. EnsureCapacityWithHeadroom zof z c extra b = Inr b' \<and> buf_ok b' \<and>
    buf_size b' = buf_size b \<and> contents b' = contents b \<and>
    c \<le> buf_capacity b' \<and> buf_capacity b \<le> buf_capacity b' \<and>
    (\<forall>k. zof \<and> clean_from z k b \<and> buf_size b \<le> k \<longrightarrow> clean_from z k b')"
proof (cases "c \<le> buf_capacity b")
  case True
  then show ?thesis
    using assms by (auto simp: EnsureCapacityWithHeadroom_def buf_ok_consistent)
next
  case False
  define c' where "c' = (if extra then max c (buf_capacity b + buf_capacity b div 2) else c)"
  define new where "new = take (buf_size b) (cells_of b) @ replicate (c' - buf_size b) None"
  have c': "c \<le> c'" "buf_capacity b < c'" using False by (auto simp: c'_def)
  have ok: "block_ok b" "buf_size b \<le> buf_capacity b" using assms by (auto simp: buf_ok_def)
  obtain b1 where b1: "MaybeZeroCompleteBuffer zof z b = Inr b1" "buf_size b1 = buf_size b"
    "freed b1 = freed b" "cells_of b1 = (if zof then replicate (buf_capacity b) (Some z) else cells_of b)"
    using MaybeZero_ok [OF ok(1), of zof z] by blast
  define b2 where "b2 = (release b1)\<lparr>buf_data := Some new, buf_capacity := c'\<rparr>"
  have new_eq: "(case buf_data b of None \<Rightarrow> replicate c' None
      | Some cells \<Rightarrow> put_cells 0 (take (buf_size b) cells) (replicate c' None)) = new"
    using ok c' by (auto simp: new_def block_ok_def cells_of_def put_cells_take min_def split: option.splits)
  have len: "length new = c'" using ok c' block_ok_length [OF ok(1)] by (auto simp: new_def)
  have "EnsureCapacityWithHeadroom zof z c extra b = Inr b2" "buf_ok b2"
    using False assms b1 c' ok len
    by (simp_all add: EnsureCapacityWithHeadroom_def buf_ok_consistent Let_def new_eq
        flip: c'_def b2_def) (auto simp: b2_def BufferT_IsConsistent_def buf_ok_def block_ok_def)
  moreover have "contents b2 = contents b"
    using ok block_ok_length [OF ok(1)] b1 by (simp add: contents_def b2_def cells_of_def [of "b2"] new_def)
      (simp add: cells_of_def)
  moreover have "clean_from z k b2" if "zof" "clean_from z k b" "buf_size b \<le> k" for k
    using that b1 ok block_ok_length [OF ok(1)]
    by (auto simp: clean_from_def b2_def cells_of_def new_def split: option.splits)
  ultimately show ?thesis using c' b1 by (auto simp: b2_def)
qed

section \<open>The modifiers\<close>

lemma clean_put:
  assumes "clean_from z k b" "cells_of b' = put_cells pos xs (cells_of b)" "freed b' = freed b"
    and "pos + length xs \<le> l" "k \<le> l" "pos + length xs \<le> length (cells_of b)"
  shows "clean_from z l b'"
proof -
  have "drop l (cells_of b') = drop l (cells_of b)"
    using assms(2,4,6) by (simp add: put_cells_def)
  then show ?thesis
    using assms(1,3,5) scrubbed_drop [of z k "cells_of b" l] by (simp add: clean_from_def)
qed

lemma AppendData_ok:
  assumes "buf_ok b"
  shows "\<exists>b'. BufferT_AppendData zof z data b = Inr b' \<and> buf_ok b' \<and>
    buf_size b' = buf_size b + length data \<and> contents b' = contents b @ map Some data \<and>
    buf_capacity b \<le> buf_capacity b' \<and>
    (\<forall>k. zof \<and> clean_from z k b \<and> buf_size b \<le> k \<longrightarrow> clean_from z (max k (buf_size b')) b')"
proof -
  let ?n = "buf_size b + length data"
  obtain b1 where b1: "EnsureCapacityWithHeadroom zof z ?n True b = Inr b1" "buf_ok b1"
    "buf_size b1 = buf_size b" "contents b1 = contents b" "?n \<le> buf_capacity b1"
    "buf_capacity b \<le> buf_capacity b1"
    "\<forall>k. zof \<and> clean_from z k b \<and> buf_size b \<le> k \<longrightarrow> clean_from z k b1"
    using EnsureCapacity_ok [OF assms, of zof z ?n True] by blast
  have ok1: "block_ok b1" using b1(2) by (simp add: buf_ok_def)
  then obtain b2 where b2: "copy_in (buf_size b1) (map Some data) b1 = Inr b2" "block_ok b2"
    "cells_of b2 = put_cells (buf_size b1) (map Some data) (cells_of b1)"
    "buf_size b2 = buf_size b1" "buf_capacity b2 = buf_capacity b1" "freed b2 = freed b1"
    using copy_in_ok [of b1 "buf_size b1" "map Some data"] b1 by auto
  define b3 where "b3 = b2\<lparr>buf_size := ?n\<rparr>"
  have b3: "buf_ok b3" using b2 b1 by (simp add: b3_def buf_ok_def)
  have cells: "cells_of b3 = cells_of b2" by (simp add: b3_def cells_of_def)
  have "BufferT_AppendData zof z data b = Inr b3"
    using assms b1(1) b2(1) buf_ok_consistent [OF b3]
    by (simp add: BufferT_AppendData_def buf_ok_consistent b3_def)
  moreover have "contents b3 = contents b @ map Some data"
    using b1 block_ok_length [OF ok1] assms block_ok_length [of b]
    by (simp add: contents_def cells b2(3) put_cells_def buf_ok_def) (simp add: b3_def)
  moreover have "clean_from z (max k (buf_size b3)) b3" if "zof" "clean_from z k b" "buf_size b \<le> k" for k
    using b1 that block_ok_length [OF ok1]
    by (intro clean_put [where b = b1, OF _ cells [unfolded b2(3)]]) (auto simp: b3_def b2)
  ultimately show ?thesis using b3 b1 b2 by (auto simp: b3_def)
qed

lemma ZeroTrailing_ok:
  assumes "buf_ok b" "count \<le> buf_capacity b - buf_size b"
  shows "\<exists>b'. ZeroTrailingData z count b = Inr b' \<and> buf_ok b' \<and> buf_size b' = buf_size b \<and>
    buf_capacity b' = buf_capacity b \<and> contents b' = contents b \<and>
    (clean_from z (buf_size b + count) b \<longrightarrow> clean_from z (buf_size b) b')"
proof -
  have ok: "block_ok b" "buf_size b + count \<le> buf_capacity b"
    using assms unfolding buf_ok_def by linarith+
  then obtain b' where b': "copy_in (buf_size b) (replicate count (Some z)) b = Inr b'" "block_ok b'"
    "cells_of b' = put_cells (buf_size b) (replicate count (Some z)) (cells_of b)"
    "buf_size b' = buf_size b" "buf_capacity b' = buf_capacity b" "freed b' = freed b"
    using copy_in_ok [of b "buf_size b" "replicate count (Some z)"] assms by auto
  then show ?thesis
    using assms ok block_ok_length [OF ok(1)]
    by (auto simp: ZeroTrailingData_def buf_ok_consistent buf_ok_def contents_def put_cells_def clean_from_def)
qed

lemma SetSize_ok:
  assumes "buf_ok b"
  shows "\<exists>b'. BufferT_SetSize zof z n b = Inr b' \<and> buf_ok b' \<and> buf_size b' = n \<and>
    buf_capacity b \<le> buf_capacity b' \<and> take (buf_size b) (contents b') = take n (contents b) \<and>
    (zof \<and> clean_from z (buf_size b) b \<longrightarrow> clean_from z n b') \<and>
    (buf_size b \<le> n \<longrightarrow> (\<forall>k. zof \<and> clean_from z k b \<and> buf_size b \<le> k \<longrightarrow> clean_from z k b'))"
proof -
  obtain b1 where b1: "EnsureCapacityWithHeadroom zof z n True b = Inr b1" "buf_ok b1"
    "buf_size b1 = buf_size b" "contents b1 = contents b" "n \<le> buf_capacity b1"
    "buf_capacity b \<le> buf_capacity b1"
    "\<forall>k. zof \<and> clean_from z k b \<and> buf_size b \<le> k \<longrightarrow> clean_from z k b1"
    using EnsureCapacity_ok [OF assms, of zof z n True] by blast
  define b2 where "b2 = b1\<lparr>buf_size := n\<rparr>"
  have b2: "buf_ok b2" using b1 by (simp add: b2_def buf_ok_def)
  have same: "cells_of b2 = cells_of b1" "freed b2 = freed b1"
    "buf_capacity b2 = buf_capacity b1" "buf_size b2 = n"
    by (simp_all add: b2_def cells_of_def)
  have cont: "take (buf_size b) (contents b2) = take n (contents b)"
    using arg_cong [OF b1(4), of "take n"] b1(3) by (simp add: contents_def same min.commute)
  have clean: "clean_from z k b2" if "zof" "clean_from z k b" "buf_size b \<le> k" for k
    using b1(7) that unfolding b2_def resize_simps by blast
  show ?thesis
  proof (cases "zof \<and> n < buf_size b")
    case True
    have "buf_size b - n \<le> buf_capacity b2 - buf_size b2"
      using b1(2,3) by (simp add: same buf_ok_def diff_le_mono)
    then obtain b3 where b3: "ZeroTrailingData z (buf_size b - n) b2 = Inr b3" "buf_ok b3"
      "buf_size b3 = buf_size b2" "buf_capacity b3 = buf_capacity b2" "contents b3 = contents b2"
      "clean_from z (buf_size b2 + (buf_size b - n)) b2 \<longrightarrow> clean_from z (buf_size b2) b3"
      using ZeroTrailing_ok [OF b2, of _ z] by blast
    have "BufferT_SetSize zof z n b = Inr b3"
      using True b1(1) b3(1) by (simp add: BufferT_SetSize_def Let_def b2_def)
    moreover have "zof \<and> clean_from z (buf_size b) b \<longrightarrow> clean_from z n b3"
      using clean [of "buf_size b"] b3(6) True by (simp add: same)
    ultimately show ?thesis
      using True b1(6) b3 cont same by (intro exI [of _ b3]) simp
  next
    case False
    then have "BufferT_SetSize zof z n b = Inr b2"
      using b1(1) by (auto simp: BufferT_SetSize_def Let_def b2_def)
    moreover have "zof \<and> clean_from z (buf_size b) b \<longrightarrow> clean_from z n b2"
      using clean [of "buf_size b"] False clean_mono [of z "buf_size b" b2 n] by auto
    ultimately show ?thesis
      using b1(6) b2 cont same clean by (intro exI [of _ b2]) simp
  qed
qed

lemma shorten_ok: "buf_ok b \<Longrightarrow> buf_ok (b\<lparr>buf_size := 0\<rparr>)"
  and shorten_contents: "contents (b\<lparr>buf_size := 0\<rparr>) = []"
  by (simp_all add: buf_ok_def contents_def)

lemma SetData_ok:
  assumes "buf_ok b"
  shows "\<exists>b'. BufferT_SetData zof z data b = Inr b' \<and> buf_ok b' \<and> contents b' = map Some data \<and>
    buf_size b' = length data \<and>
    (zof \<and> clean_from z (buf_size b) b \<longrightarrow> clean_from z (buf_size b') b')"
proof -
  obtain b1 where b1: "BufferT_AppendData zof z data (b\<lparr>buf_size := 0\<rparr>) = Inr b1" "buf_ok b1"
    "buf_size b1 = length data" "contents b1 = map Some data" "buf_capacity b \<le> buf_capacity b1"
    "\<forall>k. zof \<and> clean_from z k b \<longrightarrow> clean_from z (max k (buf_size b1)) b1"
    using AppendData_ok [OF shorten_ok [OF assms], of zof z data]
    by (auto simp: shorten_contents)
  show ?thesis
  proof (cases "zof \<and> length data < buf_size b")
    case True
    have "buf_size b - length data \<le> buf_capacity b1 - buf_size b1"
      using b1(3,5) assms by (simp add: buf_ok_def diff_le_mono)
    then obtain b3 where b3: "ZeroTrailingData z (buf_size b - length data) b1 = Inr b3" "buf_ok b3"
      "buf_size b3 = buf_size b1" "contents b3 = contents b1"
      "clean_from z (buf_size b1 + (buf_size b - length data)) b1 \<longrightarrow> clean_from z (buf_size b1) b3"
      using ZeroTrailing_ok [OF b1(2), of _ z] by blast
    have "BufferT_SetData zof z data b = Inr b3"
      using True b1(1,3) assms b3(1) by (simp add: BufferT_SetData_def buf_ok_consistent Let_def)
    moreover have "clean_from z (buf_size b) b \<longrightarrow> clean_from z (buf_size b) b1"
      using b1(3,6) True by (metis max.absorb1 less_imp_le)
    ultimately show ?thesis
      using True b1(3,4) b3 by (intro exI [of _ b3]) simp
  next
    case False
    then have "BufferT_SetData zof z data b = Inr b1"
      using b1 assms by (auto simp: BufferT_SetData_def buf_ok_consistent Let_def)
    moreover have "zof \<and> clean_from z (buf_size b) b \<longrightarrow> clean_from z (length data) b1"
      using b1(3,6) False by (metis max.absorb2 not_le_imp_less)
    ultimately show ?thesis using b1(2-4) by (intro exI [of _ b1]) simp
  qed
qed

lemma Clear_ok:
  assumes "block_ok b"
  shows "\<exists>b'. BufferT_Clear zof z b = Inr b' \<and> buf_ok b' \<and> contents b' = [] \<and> buf_size b' = 0 \<and>
    buf_capacity b' = buf_capacity b \<and> (\<forall>k. zof \<and> clean_from z k b \<longrightarrow> clean_from z 0 b')"
proof -
  obtain b1 where b1: "MaybeZeroCompleteBuffer zof z b = Inr b1" "block_ok b1"
    "buf_capacity b1 = buf_capacity b" "freed b1 = freed b"
    "cells_of b1 = (if zof then replicate (buf_capacity b) (Some z) else cells_of b)"
    using MaybeZero_ok [OF assms, of zof z] by blast
  define b2 where "b2 = b1\<lparr>buf_size := 0\<rparr>"
  have b2: "buf_ok b2" "cells_of b2 = cells_of b1" "freed b2 = freed b1"
    using b1 by (auto simp: b2_def buf_ok_def)
  then have "BufferT_Clear zof z b = Inr b2"
    using b1 buf_ok_consistent [OF b2(1)] by (simp add: BufferT_Clear_def b2_def)
  then show ?thesis using b1 b2 by (auto simp: clean_from_def contents_def b2_def)
qed

subsection \<open>Setters\<close>

text \<open>
  What the comment on the setter asks for: it fills the front of its view, says how much, and
  leaves the rest of the view alone.
\<close>

definition documented :: "nat \<Rightarrow> 'a setter \<Rightarrow> bool" where
  "documented n setter \<longleftrightarrow>
     (\<forall>view. length view = n \<longrightarrow> length (fst (setter view)) = n \<and> snd (setter view) \<le> n \<and>
        drop (snd (setter view)) (fst (setter view)) = drop (snd (setter view)) view)"

lemma view_of_cells: "view_of pos n b = take n (drop pos (cells_of b))"
  by (simp add: view_of_def cells_of_def split: option.splits)

lemma put_view_tail:
  assumes "drop w cells = drop w (take n (drop pos xs))" "length cells = n" "w \<le> n"
    and "pos + n \<le> length xs"
  shows "drop (pos + w) (put_cells pos cells xs) = drop (pos + w) xs"
proof -
  have "drop (pos + w) (put_cells pos cells xs) = drop w cells @ drop (pos + n) xs"
    using assms(2-4) by (simp add: put_cells_def)
  also have "drop w cells = take (n - w) (drop (pos + w) xs)"
    using assms(1) by (simp add: drop_take add.commute [of w pos])
  also have "drop (pos + n) xs = drop (n - w) (drop (pos + w) xs)"
    using assms(3) by (simp add: add.commute)
  finally show ?thesis by (simp only: append_take_drop_id)
qed

lemma AppendData_setter_ok:
  assumes "buf_ok b" "documented n setter"
  shows "\<exists>w b' view. BufferT_AppendData_setter zof z n setter b = Inr (w, b') \<and> buf_ok b' \<and>
    length view = n \<and> w = snd (setter view) \<and> w \<le> n \<and> buf_size b' = buf_size b + w \<and>
    contents b' = contents b @ take w (fst (setter view)) \<and> buf_capacity b \<le> buf_capacity b' \<and>
    (\<forall>k. zof \<and> clean_from z k b \<and> buf_size b \<le> k \<longrightarrow> clean_from z (max k (buf_size b')) b')"
proof -
  let ?s = "buf_size b"
  obtain b1 where b1: "BufferT_SetSize zof z (?s + n) b = Inr b1" "buf_ok b1" "buf_size b1 = ?s + n"
    "buf_capacity b \<le> buf_capacity b1" "take ?s (contents b1) = take (?s + n) (contents b)"
    "\<forall>k. zof \<and> clean_from z k b \<and> ?s \<le> k \<longrightarrow> clean_from z k b1"
    using SetSize_ok [OF assms(1), of zof z "?s + n"] by auto
  have ok1: "block_ok b1" "?s + n \<le> buf_capacity b1" using b1(2,3) by (auto simp: buf_ok_def)
  note len1 = block_ok_length [OF ok1(1)]
  define view where "view = view_of ?s n b1"
  have view: "length view = n" using ok1 len1 by (simp add: view_def view_of_cells)
  obtain cells w where set: "setter view = (cells, w)" by (cases "setter view")
  have doc: "length cells = n" "w \<le> n" "drop w cells = drop w view"
    using assms(2) view set by (auto simp: documented_def dest!: spec [of _ view])
  obtain b2 where b2: "copy_in ?s cells b1 = Inr b2" "block_ok b2"
    "cells_of b2 = put_cells ?s cells (cells_of b1)" "buf_capacity b2 = buf_capacity b1"
    "freed b2 = freed b1"
    using copy_in_ok [OF ok1(1), of ?s cells] ok1(2) doc by auto
  define b3 where "b3 = b2\<lparr>buf_size := ?s + w\<rparr>"
  have b3: "buf_ok b3" using b2 ok1 doc by (simp add: b3_def buf_ok_def)
  have "BufferT_AppendData_setter zof z n setter b = Inr (w, b3)"
    using assms(1) b1(1) b2(1) buf_ok_consistent [OF b3] buf_ok_consistent [OF b1(2)] doc set
    by (simp add: BufferT_AppendData_setter_def buf_ok_consistent BufferT_data_def Let_def
        flip: view_def b3_def)
  moreover have "contents b3 = contents b @ take w cells"
  proof -
    have "take ?s (cells_of b1) = contents b" using b1(3,5) len1 ok1 by (simp add: contents_def)
    then show ?thesis
      using doc len1 ok1 assms(1) block_ok_length [of b]
      by (simp add: contents_def b3_def b2 put_cells_def buf_ok_def)
  qed
  moreover have "clean_from z (max k (?s + w)) b3" if "zof" "clean_from z k b" "?s \<le> k" for k
  proof -
    have "drop (?s + w) (cells_of b3) = drop (?s + w) (cells_of b1)"
      using put_view_tail [of w cells n ?s "cells_of b1"] doc ok1 len1
      by (simp add: b3_def b2 view_def view_of_cells)
    then have "drop (max k (?s + w)) (cells_of b3) = drop (max k (?s + w)) (cells_of b1)"
      by (metis drop_drop le_add_diff_inverse2 max.cobounded2)
    moreover have "clean_from z k b1" using b1 that by blast
    ultimately show ?thesis
      using scrubbed_drop [of z k "cells_of b1" "max k (?s + w)"]
      by (simp add: clean_from_def b3_def b2)
  qed
  moreover have "buf_size b3 = ?s + w" "buf_capacity b3 = buf_capacity b1" by (simp_all add: b3_def b2)
  ultimately show ?thesis
    using b3 b1(4) doc(2) view set by (intro exI [of _ w] exI [of _ b3] exI [of _ view]) simp
qed

lemma SetData_setter_ok:
  assumes "buf_ok b" "documented n setter"
  shows "\<exists>w b' view. BufferT_SetData_setter zof z n setter b = Inr (w, b') \<and> buf_ok b' \<and>
    length view = n \<and> w = snd (setter view) \<and> buf_size b' = w \<and>
    contents b' = take w (fst (setter view)) \<and>
    (zof \<and> clean_from z (buf_size b) b \<longrightarrow> clean_from z (buf_size b') b')"
proof -
  obtain w b1 view where b1: "BufferT_AppendData_setter zof z n setter (b\<lparr>buf_size := 0\<rparr>) = Inr (w, b1)"
    "buf_ok b1" "length view = n" "w = snd (setter view)" "buf_size b1 = w"
    "contents b1 = take w (fst (setter view))" "buf_capacity b \<le> buf_capacity b1"
    "\<forall>k. zof \<and> clean_from z k b \<longrightarrow> clean_from z (max k (buf_size b1)) b1"
    using AppendData_setter_ok [OF shorten_ok [OF assms(1)] assms(2), of zof z]
    by (auto simp: shorten_contents)
  show ?thesis
  proof (cases "zof \<and> w < buf_size b")
    case True
    obtain b3 where "ZeroTrailingData z (buf_size b - w) b1 = Inr b3" "buf_ok b3"
      "buf_size b3 = w" "contents b3 = contents b1"
      "clean_from z (buf_size b) b1 \<longrightarrow> clean_from z w b3"
      using ZeroTrailing_ok [OF b1(2), of "buf_size b - w" z] b1(5,7) True assms(1)
        diff_le_mono [of "buf_size b" "buf_capacity b1" w]
      by (auto simp: buf_ok_def)
    moreover have "max (buf_size b) w = buf_size b" using True by simp
    moreover have "BufferT_SetData_setter zof z n setter b = Inr (w, b3)"
      using True b1(1,5) assms calculation(1)
      by (simp add: BufferT_SetData_setter_def buf_ok_consistent Let_def)
    moreover have "zof \<and> clean_from z (buf_size b) b \<longrightarrow> clean_from z (buf_size b) b1"
      using b1(5,8) calculation(6) by metis
    ultimately show ?thesis
      using b1(3-6) by (intro exI [of _ w] exI [of _ b3] exI [of _ view]) simp
  next
    case False
    then have "BufferT_SetData_setter zof z n setter b = Inr (w, b1)"
      using b1 assms by (auto simp: BufferT_SetData_setter_def buf_ok_consistent Let_def)
    moreover have "clean_from z w b1" if "zof" "clean_from z (buf_size b) b"
    proof -
      have "max (buf_size b) w = w" using that(1) False by simp
      with b1(5,8) that show ?thesis by metis
    qed
    ultimately show ?thesis using b1(2-6) by (intro exI [of _ w] exI [of _ b1] exI [of _ view]) simp
  qed
qed

section \<open>The life of a buffer\<close>

datatype 'a buffer_op =
    Append "'a list" | Assign "'a list" | Resize nat | Reserve nat | Reset
  | Append_with nat "'a setter" | Assign_with nat "'a setter"

fun apply_op :: "bool \<Rightarrow> 'a \<Rightarrow> 'a buffer_op \<Rightarrow> 'a BufferT \<Rightarrow> 'a BufferT outcome" where
  "apply_op zof z (Append xs) b = BufferT_AppendData zof z xs b"
| "apply_op zof z (Assign xs) b = BufferT_SetData zof z xs b"
| "apply_op zof z (Resize n) b = BufferT_SetSize zof z n b"
| "apply_op zof z (Reserve n) b = BufferT_EnsureCapacity zof z n b"
| "apply_op zof z Reset b = BufferT_Clear zof z b"
| "apply_op zof z (Append_with n f) b = map_outcome snd (BufferT_AppendData_setter zof z n f b)"
| "apply_op zof z (Assign_with n f) b = map_outcome snd (BufferT_SetData_setter zof z n f b)"

fun apply_ops :: "bool \<Rightarrow> 'a \<Rightarrow> 'a buffer_op list \<Rightarrow> 'a BufferT \<Rightarrow> 'a BufferT outcome" where
  "apply_ops zof z [] b = Inr b"
| "apply_ops zof z (p # ps) b = and_then (apply_op zof z p b) (apply_ops zof z ps)"

fun op_documented :: "'a buffer_op \<Rightarrow> bool" where
  "op_documented (Append_with n f) = documented n f"
| "op_documented (Assign_with n f) = documented n f"
| "op_documented p = True"

abbreviation tidy :: "'a \<Rightarrow> 'a BufferT \<Rightarrow> bool" where
  "tidy z b \<equiv> clean_from z (buf_size b) b"

lemma apply_op_ok:
  assumes "buf_ok b" "op_documented p"
  shows "\<exists>b'. apply_op zof z p b = Inr b' \<and> buf_ok b' \<and> (zof \<and> tidy z b \<longrightarrow> tidy z b')"
proof (cases p)
  case (Append xs)
  obtain b' where b': "BufferT_AppendData zof z xs b = Inr b'" "buf_ok b'"
    "buf_size b' = buf_size b + length xs"
    "\<forall>k. zof \<and> clean_from z k b \<and> buf_size b \<le> k \<longrightarrow> clean_from z (max k (buf_size b')) b'"
    using AppendData_ok [OF assms(1), of zof z xs] by blast
  moreover have "max (buf_size b) (buf_size b') = buf_size b'" using b'(3) by simp
  ultimately show ?thesis using Append by (metis apply_op.simps(1) order_refl)
next
  case (Assign xs)
  then show ?thesis using SetData_ok [OF assms(1), of zof z xs] by auto
next
  case (Resize n)
  then show ?thesis using SetSize_ok [OF assms(1), of zof z n] by auto
next
  case (Reserve n)
  then show ?thesis
    using EnsureCapacity_ok [OF assms(1), of zof z n False] by (auto simp: BufferT_EnsureCapacity_def)
next
  case Reset
  have "block_ok b" using assms(1) by (simp add: buf_ok_def)
  from Clear_ok [OF this, of zof z] Reset show ?thesis by auto
next
  case (Append_with n f)
  then obtain w b' where b': "BufferT_AppendData_setter zof z n f b = Inr (w, b')" "buf_ok b'"
    "buf_size b' = buf_size b + w"
    "\<forall>k. zof \<and> clean_from z k b \<and> buf_size b \<le> k \<longrightarrow> clean_from z (max k (buf_size b')) b'"
    using AppendData_setter_ok [OF assms(1), of n f zof z] assms(2) by auto
  moreover have "max (buf_size b) (buf_size b') = buf_size b'" using b'(3) by simp
  ultimately show ?thesis using Append_with by (metis apply_op.simps(6) map_outcome_simps(1) order_refl snd_conv)
next
  case (Assign_with n f)
  then obtain w b' where "BufferT_SetData_setter zof z n f b = Inr (w, b')" "buf_ok b'"
    "zof \<and> tidy z b \<longrightarrow> tidy z b'"
    using SetData_setter_ok [OF assms(1), of n f zof z] assms(2) by auto
  then show ?thesis using Assign_with by simp
qed

lemma apply_ops_ok:
  "buf_ok b \<Longrightarrow> list_all op_documented ps \<Longrightarrow>
     \<exists>b'. apply_ops zof z ps b = Inr b' \<and> buf_ok b' \<and> (zof \<and> tidy z b \<longrightarrow> tidy z b')"
proof (induction ps arbitrary: b)
  case (Cons p ps)
  then obtain b1 where b1: "apply_op zof z p b = Inr b1" "buf_ok b1" "zof \<and> tidy z b \<longrightarrow> tidy z b1"
    using apply_op_ok [of b p zof z] by auto
  with Cons.IH [of b1] Cons.prems show ?case by auto
qed simp

lemma BufferT_copy_ok:
  "\<exists>b. BufferT_copy data capacity = Inr b \<and> buf_ok b \<and> contents b = map Some data \<and>
     buf_capacity b = max (length data) capacity \<and> tidy z b \<and> freed b = []"
proof -
  let ?c = "max (length data) capacity"
  define b0 :: "'a BufferT" where "b0 = \<lparr>buf_size = length data, buf_capacity = ?c,
    buf_data = (if ?c > 0 then Some (replicate ?c None) else None), freed = []\<rparr>"
  have b0: "BufferT_sized (length data) capacity = Inr b0" "block_ok b0" "cells_of b0 = replicate ?c None"
    by (auto simp: BufferT_sized_def b0_def BufferT_IsConsistent_def block_ok_def cells_of_def Let_def)
  have "buf_capacity b0 = ?c" "buf_size b0 = length data" "freed b0 = []" by (simp_all add: b0_def)
  then show ?thesis
    using copy_in_ok [OF b0(2), of 0 "map Some data"] b0
    by (auto simp: BufferT_copy_def buf_ok_def contents_def clean_from_def put_cells_def)
qed

lemma destroy_ok:
  assumes "buf_ok b"
  shows "\<exists>b'. BufferT_destroy zof z b = Inr b' \<and> buf_data b' = None \<and>
    (zof \<and> tidy z b \<longrightarrow> (\<forall>blk \<in> set (freed b'). scrubbed z blk))"
proof -
  have "block_ok b" using assms by (simp add: buf_ok_def)
  then obtain b1 where "MaybeZeroCompleteBuffer zof z b = Inr b1" "freed b1 = freed b"
    "cells_of b1 = (if zof then replicate (buf_capacity b) (Some z) else cells_of b)"
    using MaybeZero_ok [of b zof z] by blast
  then show ?thesis
    by (auto simp: BufferT_destroy_def clean_from_def cells_of_def split: option.splits)
qed

lemma move_ok:
  assumes "buf_ok buf"
  shows "\<exists>b buf'. BufferT_move buf = Inr (b, buf') \<and> buf_ok b \<and> contents b = contents buf \<and>
    \<not> BufferT_IsConsistent buf' \<and> block_ok buf'"
  using assms buf_ok_consistent [OF assms]
  by (auto simp: BufferT_move_def OnMovedFrom_def BufferT_IsConsistent_def buf_ok_def block_ok_def
      contents_def cells_of_def Let_def split: option.splits)

lemma move_assign_ok:
  assumes "block_ok b" "buf_ok buf"
  shows "\<exists>b' buf'. BufferT_move_assign zof z b buf = Inr (b', buf') \<and> buf_ok b' \<and>
    contents b' = contents buf \<and> \<not> BufferT_IsConsistent buf' \<and> block_ok buf' \<and>
    (zof \<and> tidy z buf \<and> (\<forall>blk \<in> set (freed b). scrubbed z blk) \<longrightarrow>
       tidy z b' \<and> (\<forall>blk \<in> set (freed buf'). scrubbed z blk))"
proof -
  obtain b1 where b1: "MaybeZeroCompleteBuffer zof z b = Inr b1" "freed b1 = freed b"
    "cells_of b1 = (if zof then replicate (buf_capacity b) (Some z) else cells_of b)"
    using MaybeZero_ok [OF assms(1), of zof z] by blast
  have "case buf_data b1 of None \<Rightarrow> True | Some cells \<Rightarrow> cells = cells_of b1"
    by (simp add: cells_of_def split: option.splits)
  with b1 assms(2) buf_ok_consistent [OF assms(2)] show ?thesis
    by (auto simp: BufferT_move_assign_def OnMovedFrom_def BufferT_IsConsistent_def buf_ok_def
        block_ok_def contents_def cells_of_def clean_from_def Let_def split: option.splits)
qed

section \<open>Properties\<close>

definition sample_buffer :: "nat BufferT" where
  "sample_buffer = \<lparr>buf_size = 1, buf_capacity = 2, buf_data = Some [Some 9, None], freed = []\<rparr>"

lemma sample_buffer: "buf_ok sample_buffer" "contents sample_buffer = [Some 9]"
  by (simp_all add: sample_buffer_def buf_ok_def block_ok_def contents_def cells_of_def)

text \<open>
  C17: on a well-formed buffer no modifier fails a check or touches memory outside its block, whatever the
  old capacity: appending appends, setting replaces, resizing keeps the common prefix, reserving and
  clearing keep and drop the contents, each result being well-formed again, and a reservation is
  honoured.
\<close>

theorem buffer_modifiers:
  assumes "buf_ok b"
  shows "(\<exists>b'. BufferT_AppendData zof z xs b = Inr b' \<and> buf_ok b' \<and>
      contents b' = contents b @ map Some xs) \<and>
    (\<exists>b'. BufferT_SetData zof z xs b = Inr b' \<and> buf_ok b' \<and> contents b' = map Some xs) \<and>
    (\<exists>b'. BufferT_SetSize zof z n b = Inr b' \<and> buf_ok b' \<and> buf_size b' = n \<and>
      take (buf_size b) (contents b') = take n (contents b)) \<and>
    (\<exists>b'. BufferT_EnsureCapacity zof z n b = Inr b' \<and> buf_ok b' \<and> contents b' = contents b \<and>
      n \<le> buf_capacity b') \<and>
    (\<exists>b'. BufferT_Clear zof z b = Inr b' \<and> buf_ok b' \<and> contents b' = [] \<and>
      buf_capacity b' = buf_capacity b)"
proof -
  have "block_ok b" using assms by (simp add: buf_ok_def)
  from AppendData_ok [OF assms, of zof z xs] SetData_ok [OF assms, of zof z xs]
    SetSize_ok [OF assms, of zof z n] EnsureCapacity_ok [OF assms, of zof z n False]
    Clear_ok [OF this, of zof z]
  show ?thesis unfolding BufferT_EnsureCapacity_def by blast
qed

theorem buffer_modifiers_witness:
  "\<exists>b'. BufferT_AppendData True (0 :: nat) [3, 4] sample_buffer = Inr b' \<and>
    buf_ok b' \<and> contents b' = [Some 9, Some 3, Some 4]"
  using buffer_modifiers [OF sample_buffer(1), of True "0 :: nat" "[3, 4]" 0] sample_buffer(2) by simp

text \<open>
  C8: \<^verbatim>\<open>ZeroOnFree\<close>: a buffer built from any data, taken through any sequence of modifiers whose setters
  behave as documented, and destroyed, faults nowhere and never gives a block back to the heap that
  still holds an element other than zero.
\<close>

theorem zero_on_free:
  assumes "list_all op_documented ps"
  shows "\<exists>b. and_then (and_then (BufferT_copy data capacity) (apply_ops True z ps)) (BufferT_destroy True z) =
    Inr b \<and> (\<forall>blk \<in> set (freed b). scrubbed z blk)"
proof -
  obtain b0 where b0: "BufferT_copy data capacity = Inr b0" "buf_ok b0" "tidy z b0"
    using BufferT_copy_ok [of data capacity z] by blast
  obtain b1 where b1: "apply_ops True z ps b0 = Inr b1" "buf_ok b1" "tidy z b1"
    using apply_ops_ok [OF b0(2) assms, of True z] b0(3) by auto
  show ?thesis using destroy_ok [OF b1(2), of True z] b0 b1 by auto
qed

theorem zero_on_free_witness:
  "\<exists>b. and_then (and_then (BufferT_copy [7, 7] 2) (apply_ops True (0 :: nat)
      [Append [1, 2, 3], Resize 1, Assign_with 2 (\<lambda>view. (Some 5 # tl view, 1))])) (BufferT_destroy True 0) =
    Inr b \<and> (\<forall>blk \<in> set (freed b). scrubbed 0 blk)"
proof -
  have "documented 2 (\<lambda>view. (Some (5 :: nat) # tl view, 1))"
    by (auto simp: documented_def drop_Suc)
  then show ?thesis
    by (intro zero_on_free) simp
qed

text \<open>
  A moved-from buffer: every method that checks its state fails that check.  Exempt are \<^verbatim>\<open>Clear\<close>, \<^verbatim>\<open>swap\<close>,
  the destructor and being assigned to, which the source allows on such a buffer.
\<close>

definition caught :: "bool \<Rightarrow> 'a \<Rightarrow> 'a BufferT \<Rightarrow> bool" where
  "caught zof z b \<longleftrightarrow>
     BufferT_data b = Inl Dcheck_failed \<and> BufferT_is_empty b = Inl Dcheck_failed \<and>
     BufferT_size b = Inl Dcheck_failed \<and> BufferT_capacity b = Inl Dcheck_failed \<and>
     (\<forall>i. BufferT_at b i = Inl Dcheck_failed) \<and> (\<forall>i x. BufferT_set_at b i x = Inl Dcheck_failed) \<and>
     (\<forall>c. BufferT_eq b c = Inl Dcheck_failed) \<and> (\<forall>c. BufferT_ne b c = Inl Dcheck_failed) \<and>
     (\<forall>n. BufferT_SetSize zof z n b = Inl Dcheck_failed) \<and>
     (\<forall>n. BufferT_EnsureCapacity zof z n b = Inl Dcheck_failed) \<and>
     (\<forall>xs. BufferT_SetData zof z xs b = Inl Dcheck_failed) \<and>
     (\<forall>xs. BufferT_AppendData zof z xs b = Inl Dcheck_failed) \<and>
     (\<forall>n f. BufferT_SetData_setter zof z n f b = Inl Dcheck_failed) \<and>
     (\<forall>n f. BufferT_AppendData_setter zof z n f b = Inl Dcheck_failed) \<and>
     BufferT_move b = Inl Dcheck_failed \<and> (\<forall>a. BufferT_move_assign zof z a b = Inl Dcheck_failed)"

lemma inconsistent_caught: "\<not> BufferT_IsConsistent b \<Longrightarrow> caught zof z b"
  by (simp add: caught_def BufferT_data_def BufferT_is_empty_def BufferT_size_def BufferT_capacity_def BufferT_at_def
      BufferT_set_at_def BufferT_eq_def BufferT_ne_def BufferT_SetSize_def BufferT_EnsureCapacity_def
      EnsureCapacityWithHeadroom_def BufferT_SetData_def BufferT_AppendData_def BufferT_SetData_setter_def
      BufferT_AppendData_setter_def BufferT_move_def BufferT_move_assign_def dcheck_def)

text \<open>
  C25: moving a well-formed buffer, by construction or by assignment over any other buffer, a moved-from one included, moves
  its contents and leaves a source on which every access, comparison, resizing, change of the data and further move fails a check;
  \<open>Clear\<close> makes such a source usable again.  Two buffers in any state, moved-from ones included, are exchanged by \<open>swap\<close>.
\<close>

theorem buffer_moves:
  fixes b buf :: "'a BufferT"
  assumes "buf_ok buf" "block_ok b"
  shows "(\<exists>b' buf'. BufferT_move buf = Inr (b', buf') \<and> buf_ok b' \<and> contents b' = contents buf \<and> caught zof z buf' \<and>
      (\<exists>buf''. BufferT_Clear zof z buf' = Inr buf'' \<and> buf_ok buf'' \<and> contents buf'' = [])) \<and>
    (\<exists>b' buf'. BufferT_move_assign zof z b buf = Inr (b', buf') \<and> buf_ok b' \<and>
      contents b' = contents buf \<and> caught zof z buf' \<and>
      (\<exists>buf''. BufferT_Clear zof z buf' = Inr buf'' \<and> buf_ok buf'' \<and> contents buf'' = [])) \<and>
    (\<forall>p q :: 'a BufferT. let (p', q') = BufferT_swap p q in
      buf_size p' = buf_size q \<and> buf_capacity p' = buf_capacity q \<and> buf_data p' = buf_data q \<and>
      buf_size q' = buf_size p \<and> buf_capacity q' = buf_capacity p \<and> buf_data q' = buf_data p)"
proof -
  have clear: "\<exists>buf''. BufferT_Clear zof z buf' = Inr buf'' \<and> buf_ok buf'' \<and> contents buf'' = []"
    if "block_ok buf'" for buf' :: "'a BufferT"
    using Clear_ok [OF that, of zof z] by blast
  obtain b1 buf1 where move: "BufferT_move buf = Inr (b1, buf1)" "buf_ok b1" "contents b1 = contents buf"
    "\<not> BufferT_IsConsistent buf1" "block_ok buf1"
    using move_ok [OF assms(1)] by blast
  obtain b2 buf2 where assign: "BufferT_move_assign zof z b buf = Inr (b2, buf2)" "buf_ok b2"
    "contents b2 = contents buf" "\<not> BufferT_IsConsistent buf2" "block_ok buf2"
    using move_assign_ok [OF assms(2,1), of zof z] by blast
  show ?thesis
    using move assign clear [OF move(5)] clear [OF assign(5)] inconsistent_caught [OF move(4), of zof z]
      inconsistent_caught [OF assign(4), of zof z]
    by (intro conjI) (blast, blast, simp add: BufferT_swap_def)
qed

theorem buffer_moves_witness:
  "\<exists>b' buf'. BufferT_move_assign True 0 \<lparr>buf_size = 1, buf_capacity = 0, buf_data = None, freed = []\<rparr>
      sample_buffer = Inr (b', buf') \<and>
    contents b' = [Some 9] \<and> caught True 0 buf'"
proof -
  have "block_ok \<lparr>buf_size = 1, buf_capacity = 0, buf_data = None :: nat cell list option, freed = []\<rparr>"
    by (simp add: block_ok_def)
  from buffer_moves [OF sample_buffer(1) this, of True 0] show ?thesis
    unfolding sample_buffer(2) by blast
qed

end
