(* ===== verification/Used_Ids.thy ===== *)
theory Used_Ids
  imports Prelude
begin

text \<open>
  \<^verbatim>\<open>pc/used_ids.h\<close>: the allocators that keep RTP payload types and header extension ids of a session
  apart.  \<^verbatim>\<open>FindUnusedId\<close> is virtual: \<open>FindAndSetIdUsed\<close> takes it as an argument, once the method of the
  base class and once the override of the header extension class, whose record extends the
  base record by the derived class's fields.  The ids in use, a \<^verbatim>\<open>std::set<int>\<close>, are a set; the ids are small, so
  no counter leaves the range of \<^verbatim>\<open>int\<close>.  The logging of a reassignment is not modelled.
\<close>

section \<open>Definitions\<close>

record UsedIds =
  min_allowed_id :: int
  max_allowed_id :: int
  next_id :: int
  id_set :: "int set"

definition UsedIds_init :: "int \<Rightarrow> int \<Rightarrow> UsedIds" where
  "UsedIds_init lo hi = \<lparr>min_allowed_id = lo, max_allowed_id = hi, next_id = hi, id_set = {}\<rparr>"

definition IsIdUsed :: "int \<Rightarrow> ('m UsedIds_scheme) \<Rightarrow> bool" where
  "IsIdUsed new_id u \<longleftrightarrow> new_id \<in> id_set u"

function search_down :: "int set \<Rightarrow> int \<Rightarrow> int \<Rightarrow> int" where
  "search_down used lo n = (if n \<in> used \<and> n \<ge> lo then search_down used lo (n - 1) else n)"
  by pat_completeness auto
termination by (relation "measure (\<lambda>(used, lo, n). nat (n - lo + 1))") auto

function search_up :: "int set \<Rightarrow> int \<Rightarrow> int \<Rightarrow> int" where
  "search_up used hi n = (if n \<in> used \<and> n \<le> hi then search_up used hi (n + 1) else n)"
  by pat_completeness auto
termination by (relation "measure (\<lambda>(used, hi, n). nat (hi - n + 1))") auto

declare search_down.simps [simp del] search_up.simps [simp del]

definition FindUnusedId :: "'m UsedIds_scheme \<Rightarrow> (int \<times> 'm UsedIds_scheme) outcome" where
  "FindUnusedId u =
     (let u' = u\<lparr>next_id := search_down (id_set u) (min_allowed_id u) (next_id u)\<rparr>
      in dcheck (next_id u' \<ge> min_allowed_id u') (Inr (next_id u', u')))"

definition SetIdUsed :: "int \<Rightarrow> 'm UsedIds_scheme \<Rightarrow> 'm UsedIds_scheme outcome" where
  "SetIdUsed new_id u =
     dcheck (new_id \<ge> min_allowed_id u)
     (dcheck (new_id \<le> max_allowed_id u)
     (dcheck (\<not> IsIdUsed new_id u)
     (Inr (u\<lparr>id_set := insert new_id (id_set u)\<rparr>))))"

text \<open>The result is the id of the structure after the call.\<close>

definition FindAndSetIdUsed ::
  "('m UsedIds_scheme \<Rightarrow> (int \<times> 'm UsedIds_scheme) outcome) \<Rightarrow>
   'm UsedIds_scheme \<Rightarrow> int \<Rightarrow> (int \<times> 'm UsedIds_scheme) outcome" where
  "FindAndSetIdUsed find_unused u original_id =
     (if original_id > max_allowed_id u \<or> original_id < min_allowed_id u then Inr (original_id, u)
      else
        and_then (if IsIdUsed original_id u then find_unused u else Inr (original_id, u)) (\<lambda>(new_id, u').
        map_outcome (Pair new_id) (SetIdUsed new_id u')))"

subsection \<open>Payload types\<close>

definition kDynamicPayloadTypeMin :: int where "kDynamicPayloadTypeMin = 96"
definition kDynamicPayloadTypeMax :: int where "kDynamicPayloadTypeMax = 127"

definition UsedPayloadTypes :: UsedIds where
  "UsedPayloadTypes = UsedIds_init kDynamicPayloadTypeMin kDynamicPayloadTypeMax"

subsection \<open>Header extension ids\<close>

datatype IdDomain = kOneByteOnly | kTwoByteAllowed

definition kMinId :: int where "kMinId = 1"
definition kMaxId :: int where "kMaxId = 255"
definition kOneByteHeaderExtensionMaxId :: int where "kOneByteHeaderExtensionMaxId = 14"

record UsedRtpHeaderExtensionIds = UsedIds +
  id_domain :: IdDomain
  next_extension_id :: int

definition UsedRtpHeaderExtensionIds_init :: "IdDomain \<Rightarrow> UsedRtpHeaderExtensionIds" where
  "UsedRtpHeaderExtensionIds_init domain =
     UsedIds.extend
       (UsedIds_init kMinId
          (if domain = kTwoByteAllowed then kMaxId else kOneByteHeaderExtensionMaxId))
       (UsedRtpHeaderExtensionIds.fields domain kOneByteHeaderExtensionMaxId)"

definition FindUnusedExtensionId ::
  "UsedRtpHeaderExtensionIds \<Rightarrow> (int \<times> UsedRtpHeaderExtensionIds) outcome" where
  "FindUnusedExtensionId u =
     (let n1 = (if next_extension_id u \<le> kOneByteHeaderExtensionMaxId
                then search_down (id_set u) (min_allowed_id u) (next_extension_id u)
                else next_extension_id u);
          n2 = (if id_domain u = kTwoByteAllowed
                then let n = (if n1 < min_allowed_id u then kOneByteHeaderExtensionMaxId + 1 else n1)
                     in if n > kOneByteHeaderExtensionMaxId
                        then search_up (id_set u) (max_allowed_id u) n else n
                else n1)
      in dcheck (n2 \<ge> min_allowed_id u)
         (dcheck (n2 \<le> max_allowed_id u)
         (Inr (n2, u\<lparr>next_extension_id := n2\<rparr>))))"

section \<open>The searches\<close>

lemma search_down_stop:
  "search_down used lo n \<le> n \<and> (lo - 1 \<le> n \<longrightarrow> lo - 1 \<le> search_down used lo n) \<and>
   {search_down used lo n + 1..n} \<subseteq> used \<and>
   (lo \<le> search_down used lo n \<longrightarrow> search_down used lo n \<notin> used)"
proof (induction used lo n rule: search_down.induct)
  case (1 used lo n)
  show ?case
  proof (cases "n \<in> used \<and> lo \<le> n")
    case True
    let ?m = "search_down used lo (n - 1)"
    have eq: "search_down used lo n = ?m" using True by (simp add: search_down.simps [of used lo n])
    have "x \<in> used" if "x \<in> {?m + 1..n}" for x
      using that True 1 [OF True] by (cases "x = n") auto
    then show ?thesis using True 1 [OF True] by (auto simp: eq)
  next
    case False
    then have "search_down used lo n = n" by (subst search_down.simps) auto
    then show ?thesis using False by auto
  qed
qed

lemma search_up_stop:
  "n \<le> search_up used hi n \<and> (n \<le> hi + 1 \<longrightarrow> search_up used hi n \<le> hi + 1) \<and>
   {n..search_up used hi n - 1} \<subseteq> used \<and>
   (search_up used hi n \<le> hi \<longrightarrow> search_up used hi n \<notin> used)"
proof (induction used hi n rule: search_up.induct)
  case (1 used hi n)
  show ?case
  proof (cases "n \<in> used \<and> n \<le> hi")
    case True
    let ?m = "search_up used hi (n + 1)"
    have eq: "search_up used hi n = ?m" using True by (simp add: search_up.simps [of used hi n])
    have "x \<in> used" if "x \<in> {n..?m - 1}" for x
      using that True 1 [OF True] by (cases "x = n") auto
    then show ?thesis using True 1 [OF True] by (auto simp: eq)
  next
    case False
    then have "search_up used hi n = n" by (subst search_up.simps) auto
    then show ?thesis using False by auto
  qed
qed

section \<open>Allocators\<close>

definition in_range :: "'m UsedIds_scheme \<Rightarrow> int \<Rightarrow> bool" where
  "in_range u n \<longleftrightarrow> min_allowed_id u \<le> n \<and> n \<le> max_allowed_id u"

definition same_range :: "'m UsedIds_scheme \<Rightarrow> 'm UsedIds_scheme \<Rightarrow> bool" where
  "same_range u v \<longleftrightarrow> min_allowed_id u = min_allowed_id v \<and> max_allowed_id u = max_allowed_id v"

text \<open>An id inside the range may be replaced by another one of the range, one outside is kept.\<close>

definition served :: "'m UsedIds_scheme \<Rightarrow> int \<Rightarrow> int \<Rightarrow> bool" where
  "served u i r = (if in_range u i then in_range u r else r = i)"

lemma served_self: "served u i i"
  by (simp add: served_def)

lemma served_inside: "in_range u i \<Longrightarrow> in_range u r \<Longrightarrow> served u i r"
  by (simp add: served_def)

lemma served_count: "list_all2 (served u) ids rs \<Longrightarrow> length (filter (in_range u) rs) = length (filter (in_range u) ids)"
  by (induction rule: list_all2_induct) (auto simp: served_def split: if_splits)

text \<open>
  What \<open>FindAndSetIdUsed\<close> needs of the virtual search: an id of the range that is not in use,
  whenever there is one.
\<close>

locale id_allocator =
  fixes find_unused :: "'m UsedIds_scheme \<Rightarrow> (int \<times> 'm UsedIds_scheme) outcome"
    and good :: "'m UsedIds_scheme \<Rightarrow> bool"
  assumes find_free: "good u \<Longrightarrow> id_set u \<noteq> Collect (in_range u) \<Longrightarrow>
      \<exists>n u'. find_unused u = Inr (n, u') \<and> in_range u n \<and> n \<notin> id_set u \<and> good u' \<and>
        same_range u' u \<and> id_set u' = id_set u"
    and find_exhausted: "good u \<Longrightarrow> id_set u = Collect (in_range u) \<Longrightarrow> find_unused u = Inl Dcheck_failed"
    and good_insert: "good u \<Longrightarrow> in_range u n \<Longrightarrow> good (u\<lparr>id_set := insert n (id_set u)\<rparr>)"
    and good_subset: "good u \<Longrightarrow> id_set u \<subseteq> Collect (in_range u)"
begin

lemma set_used:
  "in_range u n \<Longrightarrow> n \<notin> id_set u \<Longrightarrow> SetIdUsed n u = Inr (u\<lparr>id_set := insert n (id_set u)\<rparr>)"
  by (simp add: SetIdUsed_def in_range_def IsIdUsed_def)

lemma outside: "\<not> in_range u n \<Longrightarrow> FindAndSetIdUsed find_unused u n = Inr (n, u)"
  by (auto simp: FindAndSetIdUsed_def in_range_def)

lemma fresh:
  assumes "good u" "in_range u n" "n \<notin> id_set u"
  shows "FindAndSetIdUsed find_unused u n = Inr (n, u\<lparr>id_set := insert n (id_set u)\<rparr>)"
  using assms by (auto simp: FindAndSetIdUsed_def in_range_def IsIdUsed_def SetIdUsed_def)

lemma in_range_same: "same_range u v \<Longrightarrow> in_range u = in_range v"
  by (auto simp: same_range_def in_range_def)

lemma assign_one:
  assumes "good u" "in_range u n" "id_set u \<noteq> Collect (in_range u)"
  shows "\<exists>m u'. FindAndSetIdUsed find_unused u n = Inr (m, u') \<and> in_range u m \<and> m \<notin> id_set u \<and>
    (n \<notin> id_set u \<longrightarrow> m = n) \<and> good u' \<and> same_range u' u \<and> id_set u' = insert m (id_set u)"
proof (cases "n \<in> id_set u")
  case True
  obtain m u' where m: "find_unused u = Inr (m, u')" "in_range u m" "m \<notin> id_set u" "good u'"
    "same_range u' u" "id_set u' = id_set u"
    using find_free [OF assms(1,3)] by blast
  have r: "in_range u' m" using m(2) in_range_same [OF m(5)] by simp
  have "FindAndSetIdUsed find_unused u n = Inr (m, u'\<lparr>id_set := insert m (id_set u')\<rparr>)"
    using True assms(2) m(1) set_used [OF r] m(3,6)
    by (auto simp: FindAndSetIdUsed_def in_range_def IsIdUsed_def)
  then show ?thesis
    using m True good_insert [OF m(4) r] by (auto simp: same_range_def)
next
  case False
  then show ?thesis
    using fresh [OF assms(1,2)] good_insert [OF assms(1,2)] assms(2)
    by (auto simp: same_range_def)
qed

lemma assign_exhausted:
  assumes "good u" "in_range u n" "id_set u = Collect (in_range u)"
  shows "FindAndSetIdUsed find_unused u n = Inl Dcheck_failed"
  using assms find_exhausted [OF assms(1,3)]
  by (auto simp: FindAndSetIdUsed_def in_range_def IsIdUsed_def)

lemma finite_range: "finite (Collect (in_range u))"
proof -
  have "Collect (in_range u) = {min_allowed_id u..max_allowed_id u}" by (auto simp: in_range_def)
  then show ?thesis by simp
qed

lemma assign_all:
  "good u \<Longrightarrow> card (id_set u) + length (filter (in_range u) ids) \<le> card (Collect (in_range u)) \<Longrightarrow>
   \<exists>rs u'. run_all (FindAndSetIdUsed find_unused) u ids = Inr (rs, u') \<and> good u' \<and> same_range u' u \<and>
     list_all2 (served u) ids rs \<and>
     distinct (filter (in_range u) rs) \<and> set (filter (in_range u) rs) \<inter> id_set u = {} \<and>
     id_set u' = id_set u \<union> set (filter (in_range u) rs)"
proof (induction ids arbitrary: u)
  case Nil
  then show ?case by (simp add: same_range_def)
next
  case (Cons i ids)
  show ?case
  proof (cases "in_range u i")
    case False
    from Cons.IH [of u] Cons.prems False
    obtain rs u' where rs: "run_all (FindAndSetIdUsed find_unused) u ids = Inr (rs, u')" "good u'"
      "same_range u' u" "list_all2 (served u) ids rs" "distinct (filter (in_range u) rs)"
      "set (filter (in_range u) rs) \<inter> id_set u = {}"
      "id_set u' = id_set u \<union> set (filter (in_range u) rs)"
      by auto
    with False show ?thesis
      by (intro exI [of _ "i # rs"] exI [of _ u']) (simp add: outside served_self)
  next
    case True
    have "id_set u \<noteq> Collect (in_range u)" using Cons.prems True by auto
    then obtain m u1 where m: "FindAndSetIdUsed find_unused u i = Inr (m, u1)" "in_range u m"
      "m \<notin> id_set u" "good u1" "same_range u1 u" "id_set u1 = insert m (id_set u)"
      using assign_one [OF Cons.prems(1) True] by blast
    have "finite (id_set u)" using finite_subset [OF good_subset finite_range] Cons.prems(1) by blast
    then have "card (id_set u1) + length (filter (in_range u1) ids) \<le> card (Collect (in_range u1))"
      using Cons.prems(2) True m(3,6) in_range_same [OF m(5)] by simp
    moreover have "served u1 = served u" using in_range_same [OF m(5)] by (simp add: served_def [abs_def])
    ultimately obtain rs u' where rs: "run_all (FindAndSetIdUsed find_unused) u1 ids = Inr (rs, u')" "good u'"
      "same_range u' u1" "list_all2 (served u) ids rs"
      "distinct (filter (in_range u) rs)" "set (filter (in_range u) rs) \<inter> id_set u1 = {}"
      "id_set u' = id_set u1 \<union> set (filter (in_range u) rs)"
      using Cons.IH [OF m(4)] in_range_same [OF m(5)] by auto
    then show ?thesis
      using m True by (intro exI [of _ "m # rs"] exI [of _ u']) (auto simp: same_range_def served_inside)
  qed
qed

lemma assign_distinct:
  "good u \<Longrightarrow> distinct (filter (in_range u) ids) \<Longrightarrow> set ids \<inter> id_set u = {} \<Longrightarrow>
   \<exists>u'. run_all (FindAndSetIdUsed find_unused) u ids = Inr (ids, u')"
proof (induction ids arbitrary: u)
  case (Cons i ids)
  show ?case
  proof (cases "in_range u i")
    case False
    with Cons.IH [of u] Cons.prems show ?thesis by (auto simp: outside)
  next
    case True
    let ?u = "u\<lparr>id_set := insert i (id_set u)\<rparr>"
    have same: "in_range ?u = in_range u" by (rule in_range_same) (simp add: same_range_def)
    have i: "FindAndSetIdUsed find_unused u i = Inr (i, ?u)" "good ?u"
      using fresh [OF Cons.prems(1) True] good_insert [OF Cons.prems(1) True] Cons.prems(3) by auto
    have "set ids \<inter> id_set ?u = {}"
      using Cons.prems(2,3) True by auto
    with Cons.IH [of ?u] Cons.prems(2) True i show ?thesis by (auto simp: same)
  qed
qed simp

end

section \<open>The two allocators\<close>

definition payload_good :: "'m UsedIds_scheme \<Rightarrow> bool" where
  "payload_good u \<longleftrightarrow> id_set u \<subseteq> Collect (in_range u) \<and> next_id u \<le> max_allowed_id u \<and>
     min_allowed_id u - 1 \<le> next_id u \<and> {next_id u + 1..max_allowed_id u} \<subseteq> id_set u"

lemma payload_search:
  assumes "payload_good u"
  defines "n \<equiv> search_down (id_set u) (min_allowed_id u) (next_id u)"
  shows "payload_good (u\<lparr>next_id := n\<rparr>) \<and> n \<le> max_allowed_id u \<and>
    (min_allowed_id u \<le> n \<longrightarrow> n \<notin> id_set u) \<and> (\<not> min_allowed_id u \<le> n \<longrightarrow> id_set u = Collect (in_range u))"
proof -
  note stop = search_down_stop [where used = "id_set u" and lo = "min_allowed_id u" and n = "next_id u",
      folded n_def]
  have sub: "id_set u \<subseteq> Collect (in_range u)" "next_id u \<le> max_allowed_id u"
    "min_allowed_id u - 1 \<le> next_id u" "{next_id u + 1..max_allowed_id u} \<subseteq> id_set u"
    using assms(1) by (auto simp: payload_good_def)
  have tail: "{n + 1..max_allowed_id u} \<subseteq> id_set u"
  proof
    fix x assume "x \<in> {n + 1..max_allowed_id u}"
    then show "x \<in> id_set u" using stop sub(4) by (cases "x \<le> next_id u") auto
  qed
  have full: "id_set u = Collect (in_range u)" if "\<not> min_allowed_id u \<le> n"
    using that tail sub(1) by (fastforce simp: in_range_def)
  have "payload_good (u\<lparr>next_id := n\<rparr>)"
    using sub stop tail by (auto simp: payload_good_def in_range_def)
  with stop sub full show ?thesis by auto
qed

interpretation payload_types: id_allocator FindUnusedId payload_good
proof
  fix u :: "'m UsedIds_scheme" and n
  let ?n = "search_down (id_set u) (min_allowed_id u) (next_id u)"
  assume good: "payload_good u"
  note search = payload_search [OF good]
  show "\<exists>n u'. FindUnusedId u = Inr (n, u') \<and> in_range u n \<and> n \<notin> id_set u \<and> payload_good u' \<and>
      same_range u' u \<and> id_set u' = id_set u" if "id_set u \<noteq> Collect (in_range u)"
  proof -
    have "min_allowed_id u \<le> ?n" using search that by blast
    then show ?thesis
      using search
      by (intro exI [of _ ?n] exI [of _ "u\<lparr>next_id := ?n\<rparr>"])
        (simp add: FindUnusedId_def Let_def in_range_def same_range_def)
  qed
  show "FindUnusedId u = Inl Dcheck_failed" if "id_set u = Collect (in_range u)"
  proof -
    have "\<not> min_allowed_id u \<le> ?n" using search that by (auto simp: in_range_def)
    then show ?thesis by (simp add: FindUnusedId_def Let_def)
  qed
  show "payload_good (u\<lparr>id_set := insert n (id_set u)\<rparr>)" if "in_range u n"
    using good that by (auto simp: payload_good_def in_range_def)
  show "id_set u \<subseteq> Collect (in_range u)" using good by (simp add: payload_good_def)
qed

definition extension_good :: "UsedRtpHeaderExtensionIds \<Rightarrow> bool" where
  "extension_good u \<longleftrightarrow> id_set u \<subseteq> Collect (in_range u) \<and> min_allowed_id u = 1 \<and>
     max_allowed_id u = (if id_domain u = kTwoByteAllowed then 255 else 14) \<and>
     0 \<le> next_extension_id u \<and> next_extension_id u \<le> max_allowed_id u \<and>
     (if next_extension_id u \<le> 14 then {next_extension_id u + 1..14} \<subseteq> id_set u
      else {1..next_extension_id u - 1} \<subseteq> id_set u)"

lemmas extension_consts = kMinId_def kMaxId_def kOneByteHeaderExtensionMaxId_def

lemma extension_down:
  assumes "extension_good u" "next_extension_id u \<le> 14"
  defines "n \<equiv> search_down (id_set u) 1 (next_extension_id u)"
  shows "0 \<le> n \<and> n \<le> 14 \<and> {n + 1..14} \<subseteq> id_set u \<and> (1 \<le> n \<longrightarrow> n \<notin> id_set u)"
proof -
  note stop = search_down_stop [where used = "id_set u" and lo = 1 and n = "next_extension_id u",
      folded n_def]
  have "{n + 1..14} \<subseteq> id_set u"
  proof
    fix x assume "x \<in> {n + 1..14}"
    then show "x \<in> id_set u"
      using stop assms(1,2) by (cases "x \<le> next_extension_id u") (auto simp: extension_good_def)
  qed
  with stop assms(1,2) show ?thesis by (auto simp: extension_good_def)
qed

lemma extension_up:
  assumes "extension_good u" "id_domain u = kTwoByteAllowed" "15 \<le> k" "k \<le> 255" "{1..k - 1} \<subseteq> id_set u"
  defines "n \<equiv> search_up (id_set u) 255 k"
  shows "15 \<le> n \<and> n \<le> 256 \<and> {1..n - 1} \<subseteq> id_set u \<and> (n \<le> 255 \<longrightarrow> n \<notin> id_set u)"
proof -
  note stop = search_up_stop [where used = "id_set u" and hi = 255 and n = k, folded n_def]
  have "{1..n - 1} \<subseteq> id_set u"
  proof
    fix x assume "x \<in> {1..n - 1}"
    then show "x \<in> id_set u" using stop assms(5) by (cases "x < k") auto
  qed
  with stop assms(3,4) show ?thesis by auto
qed

lemma extension_found:
  assumes "extension_good u" "in_range u n" "n \<notin> id_set u"
    and "n \<le> 14 \<Longrightarrow> {n + 1..14} \<subseteq> id_set u" "14 < n \<Longrightarrow> {1..n - 1} \<subseteq> id_set u"
  shows "extension_good (u\<lparr>next_extension_id := n\<rparr>)"
  using assms by (auto simp: extension_good_def in_range_def)

lemma extension_find:
  assumes "extension_good u"
  shows "(\<exists>n. FindUnusedExtensionId u = Inr (n, u\<lparr>next_extension_id := n\<rparr>) \<and> in_range u n \<and>
      n \<notin> id_set u \<and> extension_good (u\<lparr>next_extension_id := n\<rparr>)) \<or>
    (FindUnusedExtensionId u = Inl Dcheck_failed \<and> Collect (in_range u) \<subseteq> id_set u)"
proof -
  have lo: "min_allowed_id u = 1" using assms by (simp add: extension_good_def)
  let ?d = "search_down (id_set u) 1 (next_extension_id u)"
  consider (down) "next_extension_id u \<le> 14" "1 \<le> ?d" | (one) "?d < 1" "id_domain u = kOneByteOnly" "next_extension_id u \<le> 14"
    | (wrap) "next_extension_id u \<le> 14" "?d < 1" "id_domain u = kTwoByteAllowed"
    | (up) "14 < next_extension_id u" "id_domain u = kTwoByteAllowed"
    using assms unfolding extension_good_def by (cases "id_domain u") (simp, linarith)+
  then show ?thesis
  proof cases
    case down
    note d = extension_down [OF assms down(1)]
    have r: "in_range u ?d" using d down assms by (auto simp: in_range_def extension_good_def)
    then have "FindUnusedExtensionId u = Inr (?d, u\<lparr>next_extension_id := ?d\<rparr>)"
      using down d lo by (simp add: FindUnusedExtensionId_def extension_consts Let_def in_range_def)
    moreover have "extension_good (u\<lparr>next_extension_id := ?d\<rparr>)"
      using d down by (intro extension_found [OF assms r]) auto
    ultimately show ?thesis using r d down by blast
  next
    case one
    note d = extension_down [OF assms one(3)]
    have "FindUnusedExtensionId u = Inl Dcheck_failed"
      using one lo by (simp add: FindUnusedExtensionId_def extension_consts Let_def)
    moreover have "Collect (in_range u) \<subseteq> id_set u"
      using d one assms by (auto simp: in_range_def extension_good_def subset_iff)
    ultimately show ?thesis by blast
  next
    case wrap
    note d = extension_down [OF assms wrap(1)]
    let ?n = "search_up (id_set u) 255 15"
    have hi: "max_allowed_id u = 255" using wrap assms by (simp add: extension_good_def)
    have "{1..14} \<subseteq> id_set u" using d wrap(2) by (auto simp: subset_iff)
    then have n: "15 \<le> ?n \<and> ?n \<le> 256 \<and> {1..?n - 1} \<subseteq> id_set u \<and> (?n \<le> 255 \<longrightarrow> ?n \<notin> id_set u)"
      using extension_up [OF assms wrap(3), of 15] by simp
    have find: "FindUnusedExtensionId u = dcheck (?n \<le> 255) (Inr (?n, u\<lparr>next_extension_id := ?n\<rparr>))"
      using wrap n lo hi by (simp add: FindUnusedExtensionId_def extension_consts Let_def)
    show ?thesis using find n lo hi extension_found [OF assms, of ?n]
      by (cases "?n \<le> 255") (auto simp: in_range_def subset_iff)
  next
    case up
    let ?n = "search_up (id_set u) 255 (next_extension_id u)"
    have hi: "max_allowed_id u = 255" using up assms by (simp add: extension_good_def)
    have n: "15 \<le> ?n \<and> ?n \<le> 256 \<and> {1..?n - 1} \<subseteq> id_set u \<and> (?n \<le> 255 \<longrightarrow> ?n \<notin> id_set u)"
      using extension_up [OF assms up(2), of "next_extension_id u"] up assms
      by (simp add: extension_good_def)
    have find: "FindUnusedExtensionId u = dcheck (?n \<le> 255) (Inr (?n, u\<lparr>next_extension_id := ?n\<rparr>))"
      using up n lo hi by (simp add: FindUnusedExtensionId_def extension_consts Let_def)
    show ?thesis using find n lo hi extension_found [OF assms, of ?n]
      by (cases "?n \<le> 255") (auto simp: in_range_def subset_iff)
  qed
qed

interpretation extension_ids: id_allocator FindUnusedExtensionId extension_good
proof
  fix u n
  assume good: "extension_good u"
  have sub: "id_set u \<subseteq> Collect (in_range u)" using good by (simp add: extension_good_def)
  then show "id_set u \<subseteq> Collect (in_range u)" .
  show "\<exists>n u'. FindUnusedExtensionId u = Inr (n, u') \<and> in_range u n \<and> n \<notin> id_set u \<and> extension_good u' \<and>
      same_range u' u \<and> id_set u' = id_set u" if "id_set u \<noteq> Collect (in_range u)"
    using extension_find [OF good] sub that by (fastforce simp: same_range_def)
  show "FindUnusedExtensionId u = Inl Dcheck_failed" if "id_set u = Collect (in_range u)"
    using extension_find [OF good] that by auto
  show "extension_good (u\<lparr>id_set := insert n (id_set u)\<rparr>)" if "in_range u n"
    using good that unfolding extension_good_def in_range_def by (simp split: if_splits) (metis subset_insertI2)+
qed

lemma payload_init: "payload_good UsedPayloadTypes" "id_set UsedPayloadTypes = {}"
    "in_range UsedPayloadTypes = (\<lambda>n. 96 \<le> n \<and> n \<le> 127)"
  by (auto simp: payload_good_def UsedPayloadTypes_def UsedIds_init_def kDynamicPayloadTypeMin_def
      kDynamicPayloadTypeMax_def in_range_def)

definition last_id :: "IdDomain \<Rightarrow> int" where
  "last_id domain = (case domain of kOneByteOnly \<Rightarrow> 14 | kTwoByteAllowed \<Rightarrow> 255)"

lemma extension_init:
  "extension_good (UsedRtpHeaderExtensionIds_init domain)"
  "id_set (UsedRtpHeaderExtensionIds_init domain) = {}"
  "in_range (UsedRtpHeaderExtensionIds_init domain) = (\<lambda>n. 1 \<le> n \<and> n \<le> last_id domain)"
  by (auto simp: extension_good_def UsedRtpHeaderExtensionIds_init_def UsedIds_init_def
      extension_consts in_range_def last_id_def UsedIds.defs UsedRtpHeaderExtensionIds.defs
      split: IdDomain.splits)

lemma card_between: "card {n :: int. a \<le> n \<and> n \<le> b} = nat (b - a + 1)"
proof -
  have "{n. a \<le> n \<and> n \<le> b} = {a..b}" by auto
  then show ?thesis by simp
qed

section \<open>Properties\<close>

text \<open>
  C22: payload types: for any list of ids with at most 32 in the dynamic range 96 to 127, repeated or not,
  no check fails, every id outside the range is kept, and those inside come out inside the range and
  pairwise different; when they were different to begin with, none is changed.
\<close>

theorem payload_types_distinct:
  assumes "length (filter (\<lambda>n. 96 \<le> n \<and> n \<le> 127) ids) \<le> 32"
  shows "\<exists>rs u. run_all (FindAndSetIdUsed FindUnusedId) UsedPayloadTypes ids = Inr (rs, u) \<and>
    list_all2 (served UsedPayloadTypes) ids rs \<and> distinct (filter (\<lambda>n. 96 \<le> n \<and> n \<le> 127) rs) \<and>
    (distinct (filter (\<lambda>n. 96 \<le> n \<and> n \<le> 127) ids) \<longrightarrow> rs = ids)"
proof -
  have "card (id_set UsedPayloadTypes) + length (filter (in_range UsedPayloadTypes) ids)
      \<le> card (Collect (in_range UsedPayloadTypes))"
    using assms by (simp add: payload_init(2,3) card_between)
  from payload_types.assign_all [OF payload_init(1) this]
    payload_types.assign_distinct [OF payload_init(1), of ids]
  show ?thesis by (auto simp: payload_init(2,3))
qed

theorem payload_types_distinct_witness:
  "\<exists>rs u. run_all (FindAndSetIdUsed FindUnusedId) UsedPayloadTypes [127, 96, 127, 0, 0] = Inr (rs, u) \<and>
    list_all2 (served UsedPayloadTypes) [127, 96, 127, 0, 0] rs \<and>
    distinct (filter (\<lambda>n. 96 \<le> n \<and> n \<le> 127) rs)"
  using payload_types_distinct [of "[127, 96, 127, 0, 0]"] by auto

text \<open>
  C23: header extension ids, with the override that searches down from 14 and then up from 15: the domain is 1 to 14, or 1 to 255
  when two-byte ids are allowed.  For any list with at most as many ids of the domain as it has, repeated or not, no check
  fails, every id outside is kept, and those inside come out inside and pairwise different; when they were different to
  begin with, none is changed.  Once as many ids of the domain have been handed
  in as it has, so that all of them are in use, any further id of the domain fails the check.
\<close>

theorem extension_ids_distinct:
  assumes "int (length (filter (\<lambda>n. 1 \<le> n \<and> n \<le> last_id domain) ids)) \<le> last_id domain"
  shows "\<exists>rs u. run_all (FindAndSetIdUsed FindUnusedExtensionId) (UsedRtpHeaderExtensionIds_init domain) ids =
      Inr (rs, u) \<and>
    list_all2 (served (UsedRtpHeaderExtensionIds_init domain)) ids rs \<and>
    distinct (filter (\<lambda>n. 1 \<le> n \<and> n \<le> last_id domain) rs) \<and>
    (distinct (filter (\<lambda>n. 1 \<le> n \<and> n \<le> last_id domain) ids) \<longrightarrow> rs = ids) \<and>
    (int (length (filter (\<lambda>n. 1 \<le> n \<and> n \<le> last_id domain) ids)) = last_id domain \<longrightarrow>
      id_set u = {1..last_id domain} \<and>
      (\<forall>n. 1 \<le> n \<and> n \<le> last_id domain \<longrightarrow> FindAndSetIdUsed FindUnusedExtensionId u n = Inl Dcheck_failed))"
proof -
  let ?u0 = "UsedRtpHeaderExtensionIds_init domain" and ?in = "\<lambda>n. 1 \<le> n \<and> n \<le> last_id domain"
  have "card (id_set ?u0) + length (filter (in_range ?u0) ids) \<le> card (Collect (in_range ?u0))"
    using assms by (simp add: extension_init(2,3) card_between)
  from extension_ids.assign_all [OF extension_init(1) this]
  obtain rs u where rs: "run_all (FindAndSetIdUsed FindUnusedExtensionId) ?u0 ids = Inr (rs, u)"
    "extension_good u" "same_range u ?u0" "list_all2 (served ?u0) ids rs"
    "distinct (filter ?in rs)" "id_set u = set (filter ?in rs)"
    by (auto simp: extension_init(2,3))
  have same: "in_range u = ?in"
    using extension_ids.in_range_same [OF rs(3)] by (simp add: extension_init(3))
  have "id_set u = {1..last_id domain}" if "int (length (filter ?in ids)) = last_id domain"
  proof (rule card_subset_eq)
    have "length (filter ?in rs) = length (filter ?in ids)"
      using served_count [OF rs(4)] by (simp add: extension_init(3))
    then show "card (id_set u) = card {1..last_id domain}"
      using that distinct_card [OF rs(5)] unfolding rs(6) by simp
  qed (auto simp: rs(6))
  moreover have "FindAndSetIdUsed FindUnusedExtensionId u n = Inl Dcheck_failed"
    if "id_set u = {1..last_id domain}" "?in n" for n
    using extension_ids.assign_exhausted [OF rs(2), of n] that
    by (simp add: same atLeastAtMost_def atLeast_def atMost_def Collect_conj_eq)
  ultimately show ?thesis
    using rs extension_ids.assign_distinct [OF extension_init(1), of domain ids]
    by (auto simp: extension_init(2,3))
qed

theorem extension_ids_distinct_witness:
  "\<exists>rs u. run_all (FindAndSetIdUsed FindUnusedExtensionId) (UsedRtpHeaderExtensionIds_init kOneByteOnly)
      [3, 3, 14, 3, 1, 1, 9, 9, 9, 2, 3, 3, 14, 7] = Inr (rs, u) \<and> distinct (filter (\<lambda>n. 1 \<le> n \<and> n \<le> 14) rs) \<and>
    FindAndSetIdUsed FindUnusedExtensionId u 5 = Inl Dcheck_failed"
  using extension_ids_distinct [of kOneByteOnly "[3, 3, 14, 3, 1, 1, 9, 9, 9, 2, 3, 3, 14, 7]"]
  by (auto simp: last_id_def simp del: run_all.simps)

end
