(* ===== verification/Moving_Max.thy ===== *)
theory Moving_Max
  imports Prelude
begin

text \<open>
  \<^verbatim>\<open>rtc_base/numerics/moving_max_counter.h\<close>: the maximum over a moving time window, kept in a deque of
  samples whose times increase and whose values decrease.  The deque is a list; the sample type is
  any linear order.
\<close>

section \<open>Definitions\<close>

record 'a MovingMaxCounter =
  window_length_ms :: int
  samples :: "(int \<times> 'a) list"
  last_call_time_ms :: int

definition MovingMaxCounter_init :: "int \<Rightarrow> 'a MovingMaxCounter" where
  "MovingMaxCounter_init w =
     \<lparr>window_length_ms = w, samples = [], last_call_time_ms = i64_min\<rparr>"

definition RollWindow :: "int \<Rightarrow> 'a MovingMaxCounter \<Rightarrow> 'a MovingMaxCounter outcome" where
  "RollWindow new_time_ms c =
     dcheck (new_time_ms \<ge> last_call_time_ms c)
       (let c' = c\<lparr>last_call_time_ms := new_time_ms\<rparr>
        in and_then (i64 (new_time_ms - window_length_ms c')) (\<lambda>window_begin_ms.
           Inr (c'\<lparr>samples := dropWhile (\<lambda>p. fst p < window_begin_ms) (samples c')\<rparr>)))"

definition pop_smaller :: "'a::linorder \<Rightarrow> (int \<times> 'a) list \<Rightarrow> (int \<times> 'a) list" where
  "pop_smaller sample xs = rev (dropWhile (\<lambda>p. snd p \<le> sample) (rev xs))"

definition MovingMax_Add :: "'a::linorder \<Rightarrow> int \<Rightarrow> 'a MovingMaxCounter \<Rightarrow> 'a MovingMaxCounter outcome" where
  "MovingMax_Add sample current_time_ms c =
     and_then (RollWindow current_time_ms c) (\<lambda>c1.
       let kept = pop_smaller sample (samples c1)
       in Inr (c1\<lparr>samples := (if kept = [] \<or> fst (last kept) < current_time_ms
                               then kept @ [(current_time_ms, sample)] else kept)\<rparr>))"

definition MovingMax_Max :: "int \<Rightarrow> 'a MovingMaxCounter \<Rightarrow> ('a option \<times> 'a MovingMaxCounter) outcome" where
  "MovingMax_Max current_time_ms c =
     and_then (RollWindow current_time_ms c) (\<lambda>c1.
       Inr (if samples c1 = [] then None else Some (snd (hd (samples c1))), c1))"

definition MovingMax_Reset :: "'a MovingMaxCounter \<Rightarrow> 'a MovingMaxCounter" where
  "MovingMax_Reset c = c\<lparr>samples := []\<rparr>"

section \<open>The window over the whole history\<close>

definition window_max :: "int \<Rightarrow> (int \<times> 'a::linorder) list \<Rightarrow> int \<Rightarrow> 'a option" where
  "window_max w hist t =
     (let vs = map snd (filter (\<lambda>p. t - w \<le> fst p) hist)
      in if vs = [] then None else Some (Max (set vs)))"

definition ranked :: "(int \<times> 'a::linorder) list \<Rightarrow> bool" where
  "ranked = sorted_wrt (\<lambda>p q. fst p < fst q \<and> snd q < snd p)"

text \<open>
  The counter represents a history: it keeps some of the samples, in rank order, and every sample that
  is still in the window is dominated by one that is as young and as large.
\<close>

definition represents_history :: "(int \<times> 'a::linorder) list \<Rightarrow> 'a MovingMaxCounter \<Rightarrow> bool" where
  "represents_history hist c \<longleftrightarrow> ranked (samples c) \<and> set (samples c) \<subseteq> set hist \<and>
     (\<forall>p \<in> set hist. fst p \<le> last_call_time_ms c) \<and>
     (\<forall>p \<in> set hist. last_call_time_ms c - window_length_ms c \<le> fst p \<longrightarrow>
        (\<exists>q \<in> set (samples c). fst p \<le> fst q \<and> snd p \<le> snd q))"

lemma ranked_filter: "ranked xs \<Longrightarrow> dropWhile (\<lambda>p. fst p < b) xs = filter (\<lambda>p. \<not> fst p < b) xs"
  unfolding ranked_def
proof (induction xs)
  case (Cons x xs)
  show ?case
  proof (cases "fst x < b")
    case False
    then have "filter (\<lambda>p. \<not> fst p < b) xs = xs"
      using Cons.prems by (intro filter_True) auto
    then show ?thesis using False by simp
  qed (use Cons in simp)
qed simp

lemma ranked_filter_keeps: "ranked xs \<Longrightarrow> ranked (filter P xs)"
  by (simp add: ranked_def sorted_wrt_filter)

lemma pop_smaller_filter: "ranked xs \<Longrightarrow> pop_smaller s xs = filter (\<lambda>p. s < snd p) xs"
  unfolding pop_smaller_def ranked_def
proof (induction xs rule: rev_induct)
  case (snoc x xs)
  then have "\<forall>p \<in> set xs. snd x < snd p" "sorted_wrt (\<lambda>p q. fst p < fst q \<and> snd q < snd p) xs"
    by (auto simp: sorted_wrt_append)
  show ?case
  proof (cases "snd x \<le> s")
    case False
    then have "filter (\<lambda>p. s < snd p) xs = xs"
      using \<open>\<forall>p \<in> set xs. snd x < snd p\<close> by (intro filter_True) auto
    then show ?thesis using False by simp
  qed (use snoc.IH \<open>sorted_wrt _ xs\<close> in simp)
qed simp

lemma RollWindow_represents:
  assumes "represents_history hist c" "last_call_time_ms c \<le> t" "fits_signed 64 (t - window_length_ms c)"
  shows "\<exists>c'. RollWindow t c = Inr c' \<and> represents_history hist c' \<and> last_call_time_ms c' = t \<and>
    window_length_ms c' = window_length_ms c \<and>
    (\<forall>p \<in> set (samples c'). t - window_length_ms c \<le> fst p)"
proof -
  let ?b = "t - window_length_ms c"
  define c' where "c' = c\<lparr>last_call_time_ms := t, samples := filter (\<lambda>p. \<not> fst p < ?b) (samples c)\<rparr>"
  have r: "ranked (samples c)" using assms(1) by (simp add: represents_history_def)
  have "RollWindow t c = Inr c'"
    using assms(2,3) ranked_filter [OF r] by (simp add: RollWindow_def Let_def c'_def)
  moreover have "represents_history hist c'"
    using assms(1,2) ranked_filter_keeps [OF r] by (fastforce simp: represents_history_def c'_def)
  ultimately show ?thesis by (auto simp: c'_def)
qed

lemma MovingMax_Add_represents:
  assumes "represents_history hist c" "last_call_time_ms c \<le> t" "fits_signed 64 (t - window_length_ms c)"
  shows "\<exists>c'. MovingMax_Add s t c = Inr c' \<and> represents_history (hist @ [(t, s)]) c' \<and>
    last_call_time_ms c' = t \<and> window_length_ms c' = window_length_ms c"
proof -
  obtain c1 where c1: "RollWindow t c = Inr c1" "represents_history hist c1" "last_call_time_ms c1 = t"
    "window_length_ms c1 = window_length_ms c"
    using RollWindow_represents [OF assms] by blast
  have r: "ranked (samples c1)" "set (samples c1) \<subseteq> set hist" "\<forall>p \<in> set hist. fst p \<le> t"
    using c1(2,3) by (auto simp: represents_history_def)
  define kept where "kept = filter (\<lambda>p. s < snd p) (samples c1)"
  define new where "new = (if kept = [] \<or> fst (last kept) < t then kept @ [(t, s)] else kept)"
  define c' where "c' = c1\<lparr>samples := new\<rparr>"
  have kept: "ranked kept" "\<forall>p \<in> set kept. s < snd p" "set kept \<subseteq> set hist"
    using r ranked_filter_keeps [OF r(1)] by (auto simp: kept_def)
  have last: "fst p \<le> fst (last kept)" if "p \<in> set kept" for p
    using kept(1) that by (cases kept rule: rev_cases) (auto simp: ranked_def sorted_wrt_append less_imp_le)
  have newest: "\<exists>q \<in> set new. t \<le> fst q \<and> s \<le> snd q"
  proof (cases "kept = [] \<or> fst (last kept) < t")
    case False
    then have "last kept \<in> set new" by (simp add: new_def)
    then show ?thesis using False kept(2) by (auto intro!: bexI [of _ "last kept"] simp: less_imp_le)
  qed (simp add: new_def)
  have "\<forall>p \<in> set kept. fst p < t" if "kept = [] \<or> fst (last kept) < t"
    using last that by (auto intro: le_less_trans)
  then have "ranked new"
    using kept(1,2) by (simp add: new_def ranked_def sorted_wrt_append)
  moreover have "set new \<subseteq> set (hist @ [(t, s)])" using kept(3) by (auto simp: new_def)
  moreover have "\<exists>q \<in> set new. fst p \<le> fst q \<and> snd p \<le> snd q"
    if p: "p \<in> set (hist @ [(t, s)])" "t - window_length_ms c \<le> fst p" for p
  proof (cases "p \<in> set hist \<and> s < snd p")
    case True
    then obtain q where "q \<in> set (samples c1)" "fst p \<le> fst q" "snd p \<le> snd q"
      using c1 p(2) by (auto simp: represents_history_def)
    then show ?thesis using True by (intro bexI [of _ q]) (auto simp: new_def kept_def)
  next
    case False
    then have "fst p \<le> t" "snd p \<le> s" using p(1) r(3) by auto
    with newest show ?thesis by (meson order_trans)
  qed
  ultimately have "represents_history (hist @ [(t, s)]) c'"
    using r(3) c1(3,4) by (auto simp: represents_history_def c'_def)
  moreover have "MovingMax_Add s t c = Inr c'"
    using c1(1) pop_smaller_filter [OF r(1), of s]
    by (simp add: MovingMax_Add_def Let_def c'_def new_def kept_def)
  ultimately show ?thesis using c1 by (auto simp: c'_def)
qed

lemma ranked_max:
  assumes "ranked xs" "xs \<noteq> []"
  shows "\<forall>p \<in> set xs. snd p \<le> snd (hd xs)"
  using assms by (cases xs) (auto simp: ranked_def less_imp_le)

lemma MovingMax_Max_represents:
  assumes "represents_history hist c" "last_call_time_ms c \<le> t" "fits_signed 64 (t - window_length_ms c)"
  shows "\<exists>c'. MovingMax_Max t c = Inr (window_max (window_length_ms c) hist t, c') \<and>
    represents_history hist c' \<and> last_call_time_ms c' = t \<and> window_length_ms c' = window_length_ms c"
proof -
  let ?W = "filter (\<lambda>p. t - window_length_ms c \<le> fst p) hist"
  obtain c' where c': "RollWindow t c = Inr c'" "represents_history hist c'" "last_call_time_ms c' = t"
    "window_length_ms c' = window_length_ms c" "\<forall>p \<in> set (samples c'). t - window_length_ms c \<le> fst p"
    using RollWindow_represents [OF assms] by blast
  have sub: "set (samples c') \<subseteq> set ?W" using c'(2,5) by (auto simp: represents_history_def)
  have dom: "\<exists>q \<in> set (samples c'). snd p \<le> snd q" if "p \<in> set ?W" for p
    using c'(2,3,4) that by (auto simp: represents_history_def)
  have "(if samples c' = [] then None else Some (snd (hd (samples c')))) = window_max (window_length_ms c) hist t"
  proof (cases "samples c' = []")
    case True
    then have "?W = []" using dom by (metis empty_iff last_in_set list.set(1))
    then show ?thesis using True by (simp add: window_max_def)
  next
    case False
    then have hd: "hd (samples c') \<in> set ?W" using sub by (auto intro: hd_in_set)
    have "snd p \<le> snd (hd (samples c'))" if "p \<in> set ?W" for p
      using dom [OF that] ranked_max [of "samples c'"] False c'(2)
      by (fastforce simp: represents_history_def intro: order_trans)
    then have "Max (snd ` set ?W) = snd (hd (samples c'))"
      using hd by (intro Max_eqI) auto
    moreover have "map snd ?W \<noteq> []" using hd by (metis empty_iff list.set(1) map_is_Nil_conv)
    ultimately show ?thesis using False by (simp add: window_max_def Let_def)
  qed
  then show ?thesis using c' by (simp add: MovingMax_Max_def)
qed

section \<open>Properties\<close>

datatype 'a call = Add_call 'a int | Max_call int | Reset_call

fun perform :: "'a::linorder MovingMaxCounter \<Rightarrow> 'a call \<Rightarrow> ('a option \<times> 'a MovingMaxCounter) outcome" where
  "perform c (Add_call s t) = map_outcome (Pair None) (MovingMax_Add s t c)"
| "perform c (Max_call t) = MovingMax_Max t c"
| "perform c Reset_call = Inr (None, MovingMax_Reset c)"

text \<open>Time never goes backwards and the begin of the window is representable.\<close>

fun timely :: "int \<Rightarrow> int \<Rightarrow> 'a call list \<Rightarrow> bool" where
  "timely w now [] \<longleftrightarrow> True"
| "timely w now (Add_call s t # cs) \<longleftrightarrow> now \<le> t \<and> fits_signed 64 (t - w) \<and> timely w t cs"
| "timely w now (Max_call t # cs) \<longleftrightarrow> now \<le> t \<and> fits_signed 64 (t - w) \<and> timely w t cs"
| "timely w now (Reset_call # cs) \<longleftrightarrow> timely w now cs"

fun answers :: "int \<Rightarrow> (int \<times> 'a::linorder) list \<Rightarrow> 'a call list \<Rightarrow> 'a option list" where
  "answers w hist [] = []"
| "answers w hist (Add_call s t # cs) = None # answers w (hist @ [(t, s)]) cs"
| "answers w hist (Max_call t # cs) = window_max w hist t # answers w hist cs"
| "answers w hist (Reset_call # cs) = None # answers w [] cs"

lemma perform_all:
  "represents_history hist c \<Longrightarrow> timely (window_length_ms c) (last_call_time_ms c) cs \<Longrightarrow>
   \<exists>c'. run_all perform c cs = Inr (answers (window_length_ms c) hist cs, c')"
proof (induction cs arbitrary: hist c)
  case (Cons call cs)
  show ?case
  proof (cases call)
    case (Add_call s t)
    then obtain c1 where c1: "MovingMax_Add s t c = Inr c1" "represents_history (hist @ [(t, s)]) c1"
      "last_call_time_ms c1 = t" "window_length_ms c1 = window_length_ms c"
      using MovingMax_Add_represents [OF Cons.prems(1), of t s] Cons.prems(2) by auto
    with Cons.IH [OF c1(2)] Cons.prems(2) Add_call show ?thesis by auto
  next
    case (Max_call t)
    then obtain c1 where c1: "MovingMax_Max t c = Inr (window_max (window_length_ms c) hist t, c1)"
      "represents_history hist c1" "last_call_time_ms c1 = t" "window_length_ms c1 = window_length_ms c"
      using MovingMax_Max_represents [OF Cons.prems(1), of t] Cons.prems(2) by auto
    with Cons.IH [OF c1(2)] Cons.prems(2) Max_call show ?thesis by auto
  next
    case Reset_call
    have "represents_history [] (MovingMax_Reset c)"
      by (simp add: represents_history_def MovingMax_Reset_def ranked_def)
    from Cons.IH [OF this] Cons.prems(2) Reset_call show ?thesis by (auto simp: MovingMax_Reset_def)
  qed
qed simp

text \<open>
  C11: for every sequence of calls whose times do not decrease, every call of \<open>Max\<close> returns the maximum of
  all samples added since the last \<open>Reset\<close> whose time is in the window ending at the call, or nothing
  when there is none, although only the samples that can still become a maximum are kept.
\<close>

theorem MovingMax_is_window_maximum:
  assumes "timely w i64_min calls"
  shows "\<exists>c. run_all perform (MovingMaxCounter_init w) calls = Inr (answers w [] calls, c)"
  using perform_all [of "[]" "MovingMaxCounter_init w" calls] assms
  by (simp add: represents_history_def MovingMaxCounter_init_def ranked_def)

theorem MovingMax_is_window_maximum_witness:
  "\<exists>c. run_all perform (MovingMaxCounter_init 10)
      [Add_call (5 :: int) 0, Add_call 3 4, Max_call 9, Max_call 12, Max_call 30] =
    Inr ([None, None, Some 5, Some 3, None], c)"
  using MovingMax_is_window_maximum [of 10
      "[Add_call (5 :: int) 0, Add_call 3 4, Max_call 9, Max_call 12, Max_call 30]"]
  by (simp add: int_bounds window_max_def)

end
