(* ===== verification/Single_Float.thy ===== *)
theory Single_Float
  imports Prelude "HOL-Library.Log_Nat"
begin

text \<open>
  The \<^verbatim>\<open>float\<close> arithmetic of the language that the percentile filter uses: IEEE single precision with 24 bits of
  significand, rounded to nearest, ties to even.  A finite number is an integer times a power of two.  The range of
  exponents is left out: the products formed here are below \<open>2 ^ 64\<close>, far from overflow, and a result so
  small that it would be subnormal is below one and is truncated to zero either way.
\<close>

section \<open>Definitions\<close>

datatype single = Finite int int | Infinite bool | Not_a_number

text \<open>\<open>Finite m e\<close> is \<open>m * 2 ^ e\<close>; the flag of an infinity is its sign.\<close>

definition single_ge_zero :: "single \<Rightarrow> bool" where
  "single_ge_zero x = (case x of Finite m e \<Rightarrow> 0 \<le> m | Infinite negative \<Rightarrow> \<not> negative | Not_a_number \<Rightarrow> False)"

definition single_le_one :: "single \<Rightarrow> bool" where
  "single_le_one x = (case x of
     Finite m e \<Rightarrow> if 0 \<le> e then m * 2 ^ nat e \<le> 1 else m \<le> 2 ^ nat (- e)
   | Infinite negative \<Rightarrow> negative | Not_a_number \<Rightarrow> False)"

text \<open>Dropping \<open>k\<close> bits, to nearest and to even on a tie; rounding to 24 significant bits.\<close>

definition round_shift :: "nat \<Rightarrow> nat \<Rightarrow> nat" where
  "round_shift k n =
     (let q = n div 2 ^ k; r = n mod 2 ^ k
      in if 2 * r < 2 ^ k \<or> 2 * r = 2 ^ k \<and> even q then q else q + 1)"

definition round_single :: "nat \<Rightarrow> nat" where
  "round_single n = (let k = floorlog 2 n - 24 in round_shift k n * 2 ^ k)"

definition single_of_nat :: "nat \<Rightarrow> single" where
  "single_of_nat n = Finite (int (round_single n)) 0"

fun single_mult :: "single \<Rightarrow> single \<Rightarrow> single" where
  "single_mult (Finite a d) (Finite b e) = Finite (sgn (a * b) * int (round_single (nat \<bar>a * b\<bar>))) (d + e)"
| "single_mult (Infinite s) (Finite b e) = (if b = 0 then Not_a_number else Infinite (s \<noteq> (b < 0)))"
| "single_mult (Finite a d) (Infinite t) = (if a = 0 then Not_a_number else Infinite (t \<noteq> (a < 0)))"
| "single_mult (Infinite s) (Infinite t) = Infinite (s \<noteq> t)"
| "single_mult x y = Not_a_number"

text \<open>\<^verbatim>\<open>static_cast<int64_t>\<close> truncates towards zero and is undefined where the result does not fit.\<close>

definition int64_of_single :: "single \<Rightarrow> int outcome" where
  "int64_of_single x = (case x of
     Finite m e \<Rightarrow>
       (let v = (if 0 \<le> e then m * 2 ^ nat e else sgn m * (\<bar>m\<bar> div 2 ^ nat (- e)))
        in defined_if (- (2 ^ 63) \<le> v \<and> v < 2 ^ 63) (Inr v))
   | _ \<Rightarrow> Inl Undefined_behaviour)"

section \<open>Rounding\<close>

lemma floorlog_small: "n < 2 ^ 24 \<Longrightarrow> floorlog 2 n - 24 = 0"
  using floorlog_leI [of n 2 24] by simp

lemma round_shift_0 [simp]: "round_shift 0 n = n"
  by (simp add: round_shift_def)

lemma round_shift_le:
  assumes "n \<le> c * 2 ^ k"
  shows "round_shift k n \<le> c"
proof (cases "n mod 2 ^ k = 0")
  case True
  then have "round_shift k n = n div 2 ^ k" by (simp add: round_shift_def)
  also have "\<dots> \<le> c" using div_le_mono [OF assms, of "2 ^ k"] by simp
  finally show ?thesis .
next
  case False
  then have "n \<noteq> c * 2 ^ k" by auto
  then have "n div 2 ^ k < c" using assms by (simp add: less_mult_imp_div_less)
  then show ?thesis by (simp add: round_shift_def Let_def)
qed

text \<open>Rounding never passes a number that has 24 significant bits.\<close>

lemma round_single_le:
  assumes "n \<le> c * 2 ^ j" "c \<le> 2 ^ 24"
  shows "round_single n \<le> c * 2 ^ j"
proof -
  define k where "k = floorlog 2 n - 24"
  have r: "round_single n = round_shift k n * 2 ^ k" by (simp add: round_single_def k_def Let_def)
  have split: "round_single n \<le> c * 2 ^ j" if "c * 2 ^ j = d * 2 ^ k" for d
    using round_shift_le [of n d k] assms(1) that r by simp
  show ?thesis
  proof (cases "k \<le> j")
    case True
    then show ?thesis using split [of "c * 2 ^ (j - k)"] by (simp flip: power_add)
  next
    case False
    then have fl: "24 + k = floorlog 2 n" by (simp add: k_def)
    then have "2 ^ (23 + k) \<le> n" using floorlog_geD [of "24 + k" 2 n] by (simp flip: fl)
    moreover have "c * 2 ^ j \<le> 2 ^ 24 * 2 ^ j" using assms(2) by simp
    moreover have "(2 :: nat) ^ 24 * 2 ^ j \<le> 2 ^ (23 + k)"
      using False power_increasing [of "24 + j" "23 + k" "2 :: nat"] by (simp add: power_add)
    ultimately have "c * 2 ^ j = 2 ^ (23 + k)" using assms(1) by linarith
    then have "c * 2 ^ j = 2 ^ 23 * 2 ^ k" by (simp add: power_add)
    then show ?thesis by (rule split)
  qed
qed

lemma round_single_small: "n < 2 ^ 24 \<Longrightarrow> round_single n = n"
  by (simp add: round_single_def floorlog_small)

lemma round_single_25:
  assumes "2 ^ 24 \<le> n" "n < 2 ^ 25"
  shows "round_single n = round_shift 1 n * 2"
proof -
  have "floorlog 2 n = 25" using assms floorlog_leI [of n 2 25] floorlog_geI [of 2 25 n] by simp
  then show ?thesis by (simp add: round_single_def)
qed

text \<open>Counts up to \<open>2 ^ 24 + 2\<close> convert without going up; the next one goes up by one.\<close>

lemma round_single_count:
  assumes "n \<le> 16777218"
  shows "round_single n = (if n = 16777217 then 16777216 else n)"
proof -
  consider "n < 2 ^ 24" | "n = 16777216" | "n = 16777217" | "n = 16777218" using assms by fastforce
  then show ?thesis
    by cases (simp_all add: round_single_small round_single_25 round_shift_def)
qed

lemma round_single_first_above: "round_single 16777219 = 16777220"
  by (simp add: round_single_25 round_shift_def)

end
