(* ===== verification/Percentile.thy ===== *)
theory Percentile
  imports Single_Float "HOL-Library.Multiset"
begin

text \<open>
  \<^verbatim>\<open>rtc_base/numerics/percentile_filter.h\<close> and \<^verbatim>\<open>moving_median_filter.h\<close>.

  The \<^verbatim>\<open>std::multiset\<close> is its sorted list of elements and an iterator a position in it, the end iterator
  being the length.  Inserting puts an element behind its equals, erasing through an iterator removes that
  one element, and the other iterators stay with their elements: the definitions move the position of
  \<^verbatim>\<open>percentile_it_\<close> accordingly, separately from the code's own counter \<^verbatim>\<open>percentile_index_\<close>.
  Dereferencing or stepping outside the container is undefined.

  The target index is the product of the \<^verbatim>\<open>float\<close> percentile and the size less one, both rounded to single
  precision as in \<^verbatim>\<open>Single_Float\<close>, truncated.  Up to \<open>2 ^ 24 + 3\<close> elements it is an index whatever the percentile
  is; with one more, the percentile \<open>1\<close> selects the position behind the last element.
\<close>

section \<open>Definitions\<close>

subsection \<open>PercentileFilter\<close>

record 'a PercentileFilter =
  percentile :: single
  observations :: "'a list"
  percentile_it :: nat
  percentile_index :: int

definition PercentileFilter_init :: "single \<Rightarrow> 'a PercentileFilter outcome" where
  "PercentileFilter_init p =
     rtc_check (single_ge_zero p) (rtc_check (single_le_one p)
       (Inr \<lparr>percentile = p, observations = [], percentile_it = 0, percentile_index = 0\<rparr>))"

text \<open>Positions in a sorted list: \<^verbatim>\<open>lower_bound\<close>, and the place where \<^verbatim>\<open>insert\<close> puts an element.\<close>

definition lower_bound :: "'a::linorder \<Rightarrow> 'a list \<Rightarrow> nat" where
  "lower_bound x xs = length (takeWhile (\<lambda>y. y < x) xs)"

definition upper_bound :: "'a::linorder \<Rightarrow> 'a list \<Rightarrow> nat" where
  "upper_bound x xs = length (takeWhile (\<lambda>y. y \<le> x) xs)"

definition insert_at :: "nat \<Rightarrow> 'a \<Rightarrow> 'a list \<Rightarrow> 'a list" where
  "insert_at i x xs = take i xs @ x # drop i xs"

definition erase_at :: "nat \<Rightarrow> 'a list \<Rightarrow> 'a list" where
  "erase_at i xs = take i xs @ drop (Suc i) xs"

definition deref :: "'a list \<Rightarrow> nat \<Rightarrow> 'a outcome" where
  "deref xs i = defined_if (i < length xs) (Inr (xs ! i))"

text \<open>The index that a percentile selects among \<open>n\<close> elements.\<close>

definition percentile_target :: "single \<Rightarrow> nat \<Rightarrow> int outcome" where
  "percentile_target p n = int64_of_single (single_mult p (single_of_nat (n - 1)))"

definition UpdatePercentileIterator :: "'a PercentileFilter \<Rightarrow> 'a PercentileFilter outcome" where
  "UpdatePercentileIterator f =
     (if observations f = [] then Inr f
      else and_then (percentile_target (percentile f) (length (observations f))) (\<lambda>index.
        let moved = int (percentile_it f) + (index - percentile_index f)
        in defined_if (0 \<le> moved \<and> moved \<le> int (length (observations f)))
           (Inr (f\<lparr>percentile_it := nat moved, percentile_index := index\<rparr>))))"

definition PercentileFilter_Insert ::
  "'a::linorder \<Rightarrow> 'a PercentileFilter \<Rightarrow> 'a PercentileFilter outcome" where
  "PercentileFilter_Insert x f =
     (let pos = upper_bound x (observations f);
          f1 = f\<lparr>observations := insert_at pos x (observations f),
                 percentile_it := (if pos \<le> percentile_it f then Suc (percentile_it f)
                                   else percentile_it f)\<rparr>
      in and_then
           (if length (observations f1) = 1
            then Inr (f1\<lparr>percentile_it := 0, percentile_index := 0\<rparr>)
            else and_then (deref (observations f1) (percentile_it f1)) (\<lambda>y.
              Inr (if x < y then f1\<lparr>percentile_index := percentile_index f1 + 1\<rparr> else f1)))
         UpdatePercentileIterator)"

definition PercentileFilter_Erase ::
  "'a::linorder \<Rightarrow> 'a PercentileFilter \<Rightarrow> (bool \<times> 'a PercentileFilter) outcome" where
  "PercentileFilter_Erase x f =
     (let it = lower_bound x (observations f)
      in if it = length (observations f) \<or> observations f ! it \<noteq> x then Inr (False, f)
         else
           let rest = erase_at it (observations f)
           in and_then
                (if it = percentile_it f then Inr (f\<lparr>observations := rest, percentile_it := it\<rparr>)
                 else
                   let f1 = f\<lparr>observations := rest,
                              percentile_it := (if it < percentile_it f then percentile_it f - 1
                                                else percentile_it f)\<rparr>
                   in and_then (deref rest (percentile_it f1)) (\<lambda>y.
                      Inr (if x \<le> y then f1\<lparr>percentile_index := percentile_index f1 - 1\<rparr> else f1)))
              (\<lambda>f2. map_outcome (Pair True) (UpdatePercentileIterator f2)))"

definition GetPercentileValue :: "'a::zero PercentileFilter \<Rightarrow> 'a outcome" where
  "GetPercentileValue f =
     (if observations f = [] then Inr 0 else deref (observations f) (percentile_it f))"

definition PercentileFilter_Reset :: "'a PercentileFilter \<Rightarrow> 'a PercentileFilter" where
  "PercentileFilter_Reset f = f\<lparr>observations := [], percentile_it := 0, percentile_index := 0\<rparr>"

subsection \<open>MovingMedianFilter\<close>

record 'a MovingMedianFilter =
  percentile_filter :: "'a PercentileFilter"
  stored :: "'a list"
  samples_stored :: nat
  window_size :: nat

text \<open>The percentile is \<^verbatim>\<open>0.5f\<close>.\<close>

definition half :: single where
  "half = Finite 1 (- 1)"

definition MovingMedianFilter_init :: "nat \<Rightarrow> 'a MovingMedianFilter outcome" where
  "MovingMedianFilter_init w =
     and_then (PercentileFilter_init half) (\<lambda>f.
       rtc_check (w > 0)
         (Inr \<lparr>percentile_filter = f, stored = [], samples_stored = 0, window_size = w\<rparr>))"

definition MovingMedian_Insert :: "'a::linorder \<Rightarrow> 'a MovingMedianFilter \<Rightarrow> 'a MovingMedianFilter outcome" where
  "MovingMedian_Insert x m =
     and_then (PercentileFilter_Insert x (percentile_filter m)) (\<lambda>f.
       let m1 = m\<lparr>percentile_filter := f, stored := stored m @ [x],
                  samples_stored := samples_stored m + 1\<rparr>
       in if samples_stored m1 > window_size m1
          then and_then (PercentileFilter_Erase (hd (stored m1)) (percentile_filter m1))
            (\<lambda>(b, f'). Inr (m1\<lparr>percentile_filter := f', stored := tl (stored m1),
                                 samples_stored := samples_stored m1 - 1\<rparr>))
          else Inr m1)"

definition GetFilteredValue :: "'a::zero MovingMedianFilter \<Rightarrow> 'a outcome" where
  "GetFilteredValue m = GetPercentileValue (percentile_filter m)"

definition MovingMedian_Reset :: "'a MovingMedianFilter \<Rightarrow> 'a MovingMedianFilter" where
  "MovingMedian_Reset m =
     m\<lparr>percentile_filter := PercentileFilter_Reset (percentile_filter m), stored := [],
       samples_stored := 0\<rparr>"

definition GetNumberOfSamplesStored :: "'a MovingMedianFilter \<Rightarrow> nat" where
  "GetNumberOfSamplesStored m = samples_stored m"

section \<open>Sorted lists\<close>

lemma lower_bound_split: "sorted xs \<Longrightarrow> i < length xs \<Longrightarrow> i < lower_bound x xs \<longleftrightarrow> xs ! i < x"
proof (induction xs arbitrary: i)
  case (Cons a xs)
  then show ?case
  proof (cases i)
    case (Suc j)
    then have "a \<le> xs ! j" using Cons.prems by simp
    then have "\<not> a < x \<Longrightarrow> \<not> xs ! j < x" by auto
    with Suc Cons show ?thesis by (auto simp: lower_bound_def)
  qed (simp add: lower_bound_def)
qed simp

lemma upper_bound_split: "sorted xs \<Longrightarrow> i < length xs \<Longrightarrow> i < upper_bound x xs \<longleftrightarrow> xs ! i \<le> x"
proof (induction xs arbitrary: i)
  case (Cons a xs)
  then show ?case
  proof (cases i)
    case (Suc j)
    then have "a \<le> xs ! j" using Cons.prems by simp
    then have "\<not> a \<le> x \<Longrightarrow> \<not> xs ! j \<le> x" by auto
    with Suc Cons show ?thesis by (auto simp: upper_bound_def)
  qed (simp add: upper_bound_def)
qed simp

lemma bound_le: "lower_bound x xs \<le> length xs" "upper_bound x xs \<le> length xs"
  by (simp_all add: lower_bound_def upper_bound_def length_takeWhile_le)

lemma insert_upper_sorted: "sorted xs \<Longrightarrow> sorted (insert_at (upper_bound x xs) x xs)"
proof (induction xs)
  case (Cons a xs)
  show ?case
  proof (cases "a \<le> x")
    case True
    then have eq: "insert_at (upper_bound x (a # xs)) x (a # xs) = a # insert_at (upper_bound x xs) x xs"
      by (simp add: insert_at_def upper_bound_def)
    have "set (insert_at (upper_bound x xs) x xs) = insert x (set xs)"
      unfolding insert_at_def by (metis append_take_drop_id list.set(2) set_append Un_insert_right)
    with Cons True show ?thesis unfolding eq by simp
  next
    case False
    then show ?thesis using Cons.prems by (auto simp: insert_at_def upper_bound_def)
  qed
qed (simp add: insert_at_def upper_bound_def)

lemma insert_at_mset: "mset (insert_at i x xs) = add_mset x (mset xs)"
  by (simp add: insert_at_def) (metis append_take_drop_id mset_append)

lemma insert_at_nth:
  "pos \<le> i \<Longrightarrow> i < length xs \<Longrightarrow> insert_at pos x xs ! Suc i = xs ! i"
  "i < pos \<Longrightarrow> pos \<le> length xs \<Longrightarrow> insert_at pos x xs ! i = xs ! i"
  by (auto simp: insert_at_def nth_append min_def nth_Cons')

lemma insert_at_length: "pos \<le> length xs \<Longrightarrow> length (insert_at pos x xs) = Suc (length xs)"
  by (simp add: insert_at_def)

lemma erase_at_mset: "i < length xs \<Longrightarrow> mset (erase_at i xs) = mset xs - {#xs ! i#}"
proof -
  assume "i < length xs"
  then have "mset xs = mset (take i xs @ xs ! i # drop (Suc i) xs)" by (simp add: id_take_nth_drop [symmetric])
  then show ?thesis by (simp add: erase_at_def)
qed

lemma erase_at_nth:
  "i < pos \<Longrightarrow> pos < length xs \<Longrightarrow> erase_at pos xs ! i = xs ! i"
  "pos < i \<Longrightarrow> i < length xs \<Longrightarrow> erase_at pos xs ! (i - 1) = xs ! i"
  by (auto simp: erase_at_def nth_append min_def)

lemma erase_at_length: "pos < length xs \<Longrightarrow> length (erase_at pos xs) = length xs - 1"
  by (simp add: erase_at_def)

lemma erase_at_sorted:
  assumes "sorted xs"
  shows "sorted (erase_at i xs)"
proof -
  have "sorted (take i xs)" "sorted (drop (Suc i) xs)" using assms by (simp_all add: sorted_wrt_take sorted_wrt_drop)
  moreover have "\<forall>a \<in> set (take i xs). \<forall>b \<in> set (drop i xs). a \<le> b"
    using assms sorted_append [of "take i xs" "drop i xs"] by simp
  moreover have "set (drop (Suc i) xs) \<subseteq> set (drop i xs)" by (simp add: set_drop_subset_set_drop)
  ultimately show ?thesis by (auto simp: erase_at_def sorted_append)
qed

section \<open>The percentile filter\<close>

text \<open>A percentile that the constructor accepts, and up to how many elements it selects one of them.\<close>

definition unit_range :: "single \<Rightarrow> bool" where
  "unit_range p \<longleftrightarrow> single_ge_zero p \<and> single_le_one p"

definition max_observations :: nat where
  "max_observations = 2 ^ 24 + 3"

definition target :: "single \<Rightarrow> nat \<Rightarrow> nat" where
  "target p n = (case percentile_target p n of Inr i \<Rightarrow> nat i | Inl e \<Rightarrow> 0)"

lemma int64_of_finite:
  assumes "v < 2 ^ 63" "v = (if 0 \<le> e then a * 2 ^ nat e else a div 2 ^ nat (- e))"
  shows "int64_of_single (Finite (int a) e) = Inr (int v)"
proof -
  have v: "(if 0 \<le> e then int a * 2 ^ nat e else sgn (int a) * (\<bar>int a\<bar> div 2 ^ nat (- e))) = int v"
    using assms(2) by (simp add: of_nat_div sgn_if)
  have "int v < 2 ^ 63" using assms(1) by simp
  then show ?thesis by (simp add: int64_of_single_def Let_def v)
qed

lemma percentile_target_finite:
  assumes "0 \<le> m"
  shows "single_mult (Finite m e) (single_of_nat n) = Finite (int (round_single (nat m * round_single n))) e"
proof -
  have "round_single 0 = 0" by (simp add: round_single_small)
  then show ?thesis using assms
    by (cases "m = 0 \<or> round_single n = 0") (auto simp: single_of_nat_def nat_mult_distrib sgn_if)
qed

lemma target_ok:
  assumes "unit_range p" "0 < n" "n \<le> max_observations"
  shows "percentile_target p n = Inr (int (target p n))" "target p n < n"
proof -
  obtain m e where p: "p = Finite m e" "0 \<le> m" "if 0 \<le> e then m * 2 ^ nat e \<le> 1 else m \<le> 2 ^ nat (- e)"
    using assms(1) by (auto simp: unit_range_def single_ge_zero_def single_le_one_def split: single.splits)
  define r where "r = round_single (n - 1)"
  have r: "r \<le> n - 1" "r < 2 ^ 25" "\<exists>c j. r = c * 2 ^ j \<and> c \<le> 2 ^ 24"
  proof -
    have n: "n - 1 \<le> 16777218" using assms(3) by (simp add: max_observations_def)
    then show "r \<le> n - 1" "r < 2 ^ 25" by (auto simp: r_def round_single_count)
    have "r \<le> 2 ^ 24 \<or> r = (2 ^ 23 + 1) * 2 ^ 1" using n by (auto simp: r_def round_single_count)
    then show "\<exists>c j. r = c * 2 ^ j \<and> c \<le> 2 ^ 24"
      by (elim disjE) (rule exI [of _ r], rule exI [of _ 0], simp, rule exI [of _ "2 ^ 23 + 1"], rule exI [of _ 1], simp)
  qed
  define x where "x = round_single (nat m * r)"
  define v where "v = (if 0 \<le> e then x * 2 ^ nat e else x div 2 ^ nat (- e))"
  have "v \<le> r"
  proof (cases "0 \<le> e")
    case True
    have "m = 1 \<and> (2 :: int) ^ nat e \<le> 1" if "m \<noteq> 0"
    proof -
      have "m * 1 \<le> m * 2 ^ nat e" "1 * 2 ^ nat e \<le> m * 2 ^ nat e"
        using p(2) that by (intro mult_left_mono mult_right_mono; simp)+
      moreover have "m * 2 ^ nat e \<le> 1" using True p(3) by simp
      ultimately show ?thesis using p(2) that by (intro conjI) linarith+
    qed
    moreover have "round_single r \<le> r" using r(3) round_single_le [of r] by blast
    ultimately show ?thesis using True by (cases "m = 0") (auto simp: v_def x_def round_single_small power_le_one_iff)
  next
    case False
    obtain c j where c: "r = c * 2 ^ j" "c \<le> 2 ^ 24" using r(3) by blast
    have "nat m \<le> 2 ^ nat (- e)" using False p(2,3) by (simp add: nat_le_iff)
    then have "nat m * r \<le> c * 2 ^ (j + nat (- e))" by (simp add: c(1) power_add mult.commute mult.left_commute)
    from round_single_le [OF this c(2)] have "x \<le> r * 2 ^ nat (- e)" by (simp add: x_def c(1) power_add mult.assoc)
    then show ?thesis using False div_le_mono [of x "r * 2 ^ nat (- e)" "2 ^ nat (- e)"] by (simp add: v_def)
  qed
  then have "percentile_target p n = Inr (int v)"
    using int64_of_finite [of v e x] r(2) p(1) percentile_target_finite [OF p(2), of e "n - 1"]
    by (simp add: percentile_target_def v_def x_def r_def)
  with \<open>v \<le> r\<close> r(1) assms(2) show "percentile_target p n = Inr (int (target p n))" "target p n < n"
    by (simp_all add: target_def)
qed

lemma half_unit: "unit_range half"
  by (simp add: unit_range_def half_def single_ge_zero_def single_le_one_def)

lemma target_half:
  assumes "0 < n" "n \<le> max_observations"
  shows "target half n = (n - 1) div 2"
proof -
  define r where "r = round_single (n - 1)"
  have n: "n - 1 \<le> 16777218" using assms(2) by (simp add: max_observations_def)
  then have r: "r div 2 = (n - 1) div 2" "r \<le> 16777218" "r \<noteq> 16777217"
    by (auto simp: r_def round_single_count)
  then have "round_single r = r" by (simp add: round_single_count)
  then have "single_mult half (single_of_nat (n - 1)) = Finite (int r) (- 1)"
    unfolding half_def using percentile_target_finite [of 1 "- 1" "n - 1"] by (simp add: r_def)
  moreover have "int64_of_single (Finite (int r) (- 1)) = Inr (int (r div 2))"
    using r(2) by (intro int64_of_finite) simp_all
  ultimately have "percentile_target half n = Inr (int (r div 2))" by (simp add: percentile_target_def)
  then show ?thesis by (simp add: target_def r(1))
qed

definition pf_ok :: "single \<Rightarrow> 'a::linorder PercentileFilter \<Rightarrow> bool" where
  "pf_ok p f \<longleftrightarrow> percentile f = p \<and> unit_range p \<and> sorted (observations f) \<and>
     length (observations f) \<le> max_observations \<and>
     (observations f \<noteq> [] \<longrightarrow> percentile_it f = target p (length (observations f)) \<and>
        percentile_index f = int (target p (length (observations f))))"

lemma pf_ok_index: "pf_ok p f \<Longrightarrow> observations f \<noteq> [] \<Longrightarrow> percentile_it f < length (observations f)"
  using target_ok(2) [of p "length (observations f)"] by (simp add: pf_ok_def)

lemma Update_ok:
  assumes "percentile f = p" "unit_range p" "sorted (observations f)" "length (observations f) \<le> max_observations"
    and "percentile_index f = int (percentile_it f)"
  shows "\<exists>f'. UpdatePercentileIterator f = Inr f' \<and> pf_ok p f' \<and> observations f' = observations f"
proof (cases "observations f = []")
  case True
  then show ?thesis using assms by (simp add: UpdatePercentileIterator_def pf_ok_def)
next
  case False
  with assms target_ok [of p "length (observations f)"] show ?thesis
    by (simp add: UpdatePercentileIterator_def pf_ok_def Let_def)
qed

text \<open>Before the update, the iterator and the index have followed the element they were at.\<close>

lemma Insert_follows:
  assumes "pf_ok p f"
  shows "\<exists>j. PercentileFilter_Insert x f = UpdatePercentileIterator
    (f\<lparr>observations := insert_at (upper_bound x (observations f)) x (observations f), percentile_it := j,
       percentile_index := int j\<rparr>)"
proof -
  let ?xs = "observations f" and ?pos = "upper_bound x (observations f)"
  let ?ys = "insert_at ?pos x ?xs"
  have len: "length ?ys = Suc (length ?xs)" by (simp add: insert_at_length bound_le)
  show ?thesis
  proof (cases "?xs = []")
    case True
    then show ?thesis using len by (intro exI [of _ 0]) (simp add: PercentileFilter_Insert_def Let_def)
  next
    case False
    let ?i = "percentile_it f"
    have i: "?i < length ?xs" "percentile_index f = int ?i" "sorted ?xs"
      using assms False pf_ok_index [OF assms] by (auto simp: pf_ok_def)
    define j where "j = (if ?pos \<le> ?i then Suc ?i else ?i)"
    have before: "?pos \<le> ?i \<longleftrightarrow> x < ?xs ! ?i"
      using upper_bound_split [OF i(3,1), of x] by auto
    have "?ys ! j = ?xs ! ?i" "j < length ?ys"
      using insert_at_nth(1) [of ?pos ?i ?xs x] insert_at_nth(2) [of ?i ?pos ?xs x] i
        bound_le(2) [of x ?xs] len
      by (auto simp: j_def)
    then show ?thesis
      using False len before i(2)
      by (intro exI [of _ j]) (cases f, auto simp: PercentileFilter_Insert_def Let_def deref_def j_def add.commute)
  qed
qed

lemma Insert_ok:
  assumes "pf_ok p f" "length (observations f) < max_observations"
  shows "\<exists>f'. PercentileFilter_Insert x f = Inr f' \<and> pf_ok p f' \<and>
    mset (observations f') = add_mset x (mset (observations f))"
proof -
  let ?ys = "insert_at (upper_bound x (observations f)) x (observations f)"
  obtain j where j: "PercentileFilter_Insert x f =
      UpdatePercentileIterator (f\<lparr>observations := ?ys, percentile_it := j, percentile_index := int j\<rparr>)"
    using Insert_follows [OF assms(1)] by blast
  have "percentile f = p" "unit_range p" "sorted ?ys" "length ?ys \<le> max_observations"
    using assms insert_upper_sorted by (auto simp: pf_ok_def insert_at_length bound_le)
  then obtain f' where "PercentileFilter_Insert x f = Inr f'" "pf_ok p f'" "observations f' = ?ys"
    unfolding j using Update_ok [of "f\<lparr>observations := ?ys, percentile_it := j, percentile_index := int j\<rparr>" p] by auto
  then show ?thesis by (simp add: insert_at_mset)
qed

lemma lower_bound_member:
  assumes "sorted xs"
  shows "x \<in> set xs \<longleftrightarrow> lower_bound x xs \<noteq> length xs \<and> xs ! lower_bound x xs = x"
proof
  assume "x \<in> set xs"
  then obtain i where i: "i < length xs" "xs ! i = x" by (auto simp: in_set_conv_nth)
  then have le: "lower_bound x xs \<le> i" using lower_bound_split [OF assms i(1), of x] by auto
  then have "\<not> xs ! lower_bound x xs < x" using lower_bound_split [OF assms, of "lower_bound x xs" x] i by auto
  moreover have "xs ! lower_bound x xs \<le> x" using sorted_nth_mono [OF assms le i(1)] i by simp
  ultimately show "lower_bound x xs \<noteq> length xs \<and> xs ! lower_bound x xs = x" using le i by auto
next
  assume "lower_bound x xs \<noteq> length xs \<and> xs ! lower_bound x xs = x"
  then show "x \<in> set xs" using bound_le(1) [of x xs] by (metis nth_mem le_neq_implies_less)
qed

lemma Erase_absent:
  assumes "pf_ok p f" "x \<notin> set (observations f)"
  shows "PercentileFilter_Erase x f = Inr (False, f)"
  using assms lower_bound_member [of "observations f" x]
  by (auto simp: PercentileFilter_Erase_def Let_def pf_ok_def)

lemma Erase_ok:
  assumes "pf_ok p f" "x \<in> set (observations f)"
  shows "\<exists>f'. PercentileFilter_Erase x f = Inr (True, f') \<and> pf_ok p f' \<and>
    mset (observations f') = mset (observations f) - {#x#}"
proof -
  let ?xs = "observations f" and ?pos = "lower_bound x (observations f)" and ?i = "percentile_it f"
  let ?ys = "erase_at ?pos ?xs"
  have sorted: "sorted ?xs" "sorted ?ys" using assms(1) erase_at_sorted by (auto simp: pf_ok_def)
  have pos: "?pos \<noteq> length ?xs" "?xs ! ?pos = x" "?pos < length ?xs"
    using lower_bound_member [OF sorted(1), of x] assms(2) bound_le(1) [of x ?xs] by auto
  have i: "?i < length ?xs" "percentile_index f = int ?i"
    using assms(1) pf_ok_index [OF assms(1)] length_pos_if_in_set [OF assms(2)] by (auto simp: pf_ok_def)
  have ms: "mset ?ys = mset ?xs - {#x#}" using erase_at_mset [OF pos(3)] pos(2) by simp
  define j where "j = (if ?pos < ?i then ?i - 1 else ?i)"
  have "PercentileFilter_Erase x f = map_outcome (Pair True) (UpdatePercentileIterator
      (f\<lparr>observations := ?ys, percentile_it := j, percentile_index := int j\<rparr>))"
  proof (cases "?pos = ?i")
    case True
    then show ?thesis using pos i by (cases f) (simp add: PercentileFilter_Erase_def Let_def j_def)
  next
    case False
    have before: "?pos < ?i \<longleftrightarrow> x \<le> ?xs ! ?i"
    proof
      assume "?pos < ?i"
      then show "x \<le> ?xs ! ?i" using sorted_nth_mono [OF sorted(1), of ?pos ?i] pos i by simp
    qed (use lower_bound_split [OF sorted(1) i(1), of x] False in auto)
    have "?ys ! j = ?xs ! ?i" "j < length ?ys"
      using False pos i erase_at_nth(1) [of ?i ?pos ?xs] erase_at_nth(2) [of ?pos ?i ?xs] erase_at_length [OF pos(3)]
      by (auto simp: j_def)
    then show ?thesis
      using False pos i before
      by (cases f) (auto simp: PercentileFilter_Erase_def Let_def deref_def j_def of_nat_diff)
  qed
  moreover have "percentile f = p" "unit_range p" "length ?ys \<le> max_observations"
    using assms(1) erase_at_length [OF pos(3)] by (auto simp: pf_ok_def)
  ultimately obtain f' where "PercentileFilter_Erase x f = Inr (True, f')" "pf_ok p f'" "observations f' = ?ys"
    using Update_ok [of "f\<lparr>observations := ?ys, percentile_it := j, percentile_index := int j\<rparr>" p] sorted(2) by auto
  then show ?thesis using ms by simp
qed

lemma GetPercentileValue_ok:
  fixes f :: "'a::{linorder, zero} PercentileFilter"
  assumes "pf_ok p f"
  shows "GetPercentileValue f = Inr (if observations f = [] then 0
    else sorted_list_of_multiset (mset (observations f)) ! target p (size (mset (observations f))))"
  using assms pf_ok_index [OF assms]
  by (auto simp: GetPercentileValue_def pf_ok_def deref_def sorted_list_of_multiset_mset sorted_sort_id)

text \<open>
  An order statistic over a multiset: what the median filter needs of the container it feeds.
\<close>

locale order_statistic =
  fixes fine :: "'s \<Rightarrow> bool"
    and room :: nat
    and bag :: "'s \<Rightarrow> 'a multiset"
    and ins :: "'a \<Rightarrow> 's \<Rightarrow> 's outcome"
    and del :: "'a \<Rightarrow> 's \<Rightarrow> (bool \<times> 's) outcome"
  assumes ins_ok: "fine s \<Longrightarrow> size (bag s) < room \<Longrightarrow>
      \<exists>s'. ins x s = Inr s' \<and> fine s' \<and> bag s' = add_mset x (bag s)"
    and del_ok: "fine s \<Longrightarrow> x \<in># bag s \<Longrightarrow>
      \<exists>s'. del x s = Inr (True, s') \<and> fine s' \<and> bag s' = bag s - {#x#}"
    and del_absent: "fine s \<Longrightarrow> x \<notin># bag s \<Longrightarrow> del x s = Inr (False, s)"
begin

lemma slide:
  assumes "fine s" "bag s = mset (old # rest)" "length (old # rest) < room"
  shows "\<exists>s1 s2. ins x s = Inr s1 \<and> del old s1 = Inr (True, s2) \<and> fine s2 \<and> bag s2 = mset (rest @ [x])"
proof -
  obtain s1 where s1: "ins x s = Inr s1" "fine s1" "bag s1 = add_mset x (bag s)"
    using ins_ok [OF assms(1)] assms(2,3) by force
  moreover obtain s2 where "del old s1 = Inr (True, s2)" "fine s2" "bag s2 = bag s1 - {#old#}"
    using del_ok [OF s1(2), of old] s1(3) assms(2) by auto
  ultimately show ?thesis using assms(2) by auto
qed

lemma ins_del:
  assumes "fine s" "size (bag s) < room"
  shows "\<exists>s1 s2. ins x s = Inr s1 \<and> del x s1 = Inr (True, s2) \<and> fine s2 \<and> bag s2 = bag s"
proof -
  obtain s1 where s1: "ins x s = Inr s1" "fine s1" "bag s1 = add_mset x (bag s)"
    using ins_ok [OF assms] by blast
  with del_ok [OF s1(2), of x] show ?thesis by auto
qed

end

interpretation kept: order_statistic "pf_ok p" max_observations "\<lambda>f. mset (observations f)"
  PercentileFilter_Insert PercentileFilter_Erase for p
  using Insert_ok Erase_ok Erase_absent
  by unfold_locales (auto simp flip: set_mset_mset)

section \<open>The median filter\<close>

definition mm_ok :: "'a::linorder MovingMedianFilter \<Rightarrow> bool" where
  "mm_ok m \<longleftrightarrow> pf_ok half (percentile_filter m) \<and>
     mset (observations (percentile_filter m)) = mset (stored m) \<and>
     samples_stored m = length (stored m) \<and> length (stored m) \<le> window_size m \<and> 0 < window_size m \<and>
     window_size m < max_observations"

definition last_n :: "nat \<Rightarrow> 'a list \<Rightarrow> 'a list" where
  "last_n n xs = drop (length xs - n) xs"

lemma last_n_snoc:
  "0 < n \<Longrightarrow> last_n n (xs @ [x]) = (if length xs < n then last_n n xs @ [x] else tl (last_n n xs) @ [x])"
proof (cases "length xs < n")
  case False
  assume "0 < n"
  with False have "Suc (length xs) - n = Suc (length xs - n)" "length xs - n < length xs" by linarith+
  then show ?thesis using False by (simp add: last_n_def drop_Suc tl_drop)
qed (simp add: last_n_def)

lemma Median_Insert_ok:
  assumes "mm_ok m"
  shows "\<exists>m'. MovingMedian_Insert x m = Inr m' \<and> mm_ok m' \<and> window_size m' = window_size m \<and>
    stored m' = (if length (stored m) < window_size m then stored m @ [x] else tl (stored m) @ [x])"
proof -
  have ok: "pf_ok half (percentile_filter m)"
    "mset (observations (percentile_filter m)) = mset (stored m)"
    "samples_stored m = length (stored m)" "length (stored m) \<le> window_size m" "0 < window_size m"
    "window_size m < max_observations"
    using assms by (auto simp: mm_ok_def)
  show ?thesis
  proof (cases "length (stored m) < window_size m")
    case True
    then show ?thesis
      using kept.ins_ok [OF ok(1), of x] ok by (auto simp: MovingMedian_Insert_def Let_def mm_ok_def)
  next
    case False
    then obtain old rest where st: "stored m = old # rest" using ok(5) by (cases "stored m") auto
    obtain s1 s2 where "PercentileFilter_Insert x (percentile_filter m) = Inr s1"
      "PercentileFilter_Erase old s1 = Inr (True, s2)" "pf_ok half s2"
      "mset (observations s2) = mset (rest @ [x])"
      using kept.slide [OF ok(1), of old rest x] ok(2,4,6) st by auto
    with False st ok show ?thesis by (auto simp: MovingMedian_Insert_def Let_def mm_ok_def)
  qed
qed

fun insert_samples :: "'a::linorder list \<Rightarrow> 'a MovingMedianFilter \<Rightarrow> 'a MovingMedianFilter outcome" where
  "insert_samples [] m = Inr m"
| "insert_samples (x # xs) m = and_then (MovingMedian_Insert x m) (insert_samples xs)"

lemma insert_samples_ok:
  "mm_ok m \<Longrightarrow> stored m = last_n (window_size m) ys \<Longrightarrow>
   \<exists>m'. insert_samples xs m = Inr m' \<and> mm_ok m' \<and> window_size m' = window_size m \<and>
     stored m' = last_n (window_size m) (ys @ xs)"
proof (induction xs arbitrary: m ys)
  case (Cons x xs)
  obtain m1 where m1: "MovingMedian_Insert x m = Inr m1" "mm_ok m1" "window_size m1 = window_size m"
    "stored m1 = (if length (stored m) < window_size m then stored m @ [x] else tl (stored m) @ [x])"
    using Median_Insert_ok [OF Cons.prems(1), of x] by blast
  have "0 < window_size m" using Cons.prems(1) by (simp add: mm_ok_def)
  moreover have "length (stored m) < window_size m \<longleftrightarrow> length ys < window_size m"
    using Cons.prems(2) calculation by (auto simp: last_n_def)
  ultimately have "stored m1 = last_n (window_size m1) (ys @ [x])"
    using m1(3,4) Cons.prems(2) by (simp add: last_n_snoc)
  from Cons.IH [OF m1(2) this] m1 show ?case by auto
qed simp

section \<open>Properties\<close>

datatype 'a observation = Add_obs 'a | Remove_obs 'a | Clear_obs

fun observe :: "'a::linorder PercentileFilter \<Rightarrow> 'a observation \<Rightarrow> (bool \<times> 'a PercentileFilter) outcome" where
  "observe f (Add_obs x) = map_outcome (Pair True) (PercentileFilter_Insert x f)"
| "observe f (Remove_obs x) = PercentileFilter_Erase x f"
| "observe f Clear_obs = Inr (True, PercentileFilter_Reset f)"

fun bag_after :: "'a observation list \<Rightarrow> 'a multiset \<Rightarrow> 'a multiset" where
  "bag_after [] M = M"
| "bag_after (Add_obs x # es) M = bag_after es (add_mset x M)"
| "bag_after (Remove_obs x # es) M = bag_after es (M - {#x#})"
| "bag_after (Clear_obs # es) M = bag_after es {#}"

text \<open>The largest number of observations held at any time.\<close>

fun peak :: "'a observation list \<Rightarrow> 'a multiset \<Rightarrow> nat" where
  "peak [] M = size M"
| "peak (e # es) M = max (size M) (peak es (bag_after [e] M))"

lemma bag_after_Cons: "bag_after (e # es) M = bag_after es (bag_after [e] M)"
  by (cases e) simp_all

lemma peak_start: "size M \<le> peak es M"
  by (cases es) simp_all

lemma observe_one:
  assumes "pf_ok p f" "size (bag_after [e] (mset (observations f))) \<le> max_observations"
  shows "\<exists>b f'. observe f e = Inr (b, f') \<and> pf_ok p f' \<and> mset (observations f') = bag_after [e] (mset (observations f))"
proof (cases e)
  case (Add_obs x)
  then show ?thesis using kept.ins_ok [OF assms(1), of x] assms(2) by auto
next
  case (Remove_obs x)
  then show ?thesis
    using kept.del_ok [OF assms(1), of x] kept.del_absent [OF assms(1), of x] assms(1)
    by (cases "x \<in># mset (observations f)") (auto simp: diff_single_trivial)
qed (use assms(1) in \<open>auto simp: PercentileFilter_Reset_def pf_ok_def\<close>)

lemma observe_all:
  "pf_ok p f \<Longrightarrow> peak es (mset (observations f)) \<le> max_observations \<Longrightarrow>
   \<exists>rs f'. run_all observe f es = Inr (rs, f') \<and> pf_ok p f' \<and>
     mset (observations f') = bag_after es (mset (observations f))"
proof (induction es arbitrary: f)
  case (Cons e es)
  have "size (bag_after [e] (mset (observations f))) \<le> max_observations"
    using Cons.prems(2) peak_start [of "bag_after [e] (mset (observations f))" es] by simp
  then obtain b f1 where f1: "observe f e = Inr (b, f1)" "pf_ok p f1"
    "mset (observations f1) = bag_after [e] (mset (observations f))"
    using observe_one [OF Cons.prems(1)] by blast
  with Cons.IH [OF f1(2)] Cons.prems(2) show ?case
    by (auto simp: bag_after_Cons [of e es])
qed simp

lemma run_from_start:
  assumes "unit_range p" "peak es {#} \<le> max_observations"
  shows "\<exists>rs f. and_then (PercentileFilter_init p) (\<lambda>f. run_all observe f es) = Inr (rs, f) \<and> pf_ok p f \<and>
    mset (observations f) = bag_after es {#}"
  using observe_all [of p "\<lparr>percentile = p, observations = [], percentile_it = 0, percentile_index = 0\<rparr>" es] assms
  by (auto simp: PercentileFilter_init_def unit_range_def pf_ok_def)

lemma bag_adds: "bag_after (map Add_obs xs) M = M + mset xs"
  by (induction xs arbitrary: M) simp_all

lemma peak_adds: "peak (map Add_obs xs) M = size M + length xs"
  by (induction xs arbitrary: M) simp_all

text \<open>
  C12: whatever is inserted into and erased from a percentile filter, in any order, as long as it never holds more
  than \<open>2 ^ 24 + 3\<close> observations, no step leaves the container, and the value reported is the element of the sorted
  observations that remain at the index that the single precision product selects, which is below
  their number; it is zero when there are none.  The iterator and the index that the code adjusts separately never come
  apart.  A percentile that is negative, above one or not a number is refused.
\<close>

theorem percentile_value:
  fixes es :: "'a::{linorder, zero} observation list"
  defines "M \<equiv> bag_after es {#}"
  assumes "peak es {#} \<le> 2 ^ 24 + 3"
  shows "if single_ge_zero p \<and> single_le_one p
    then \<exists>rs f. and_then (PercentileFilter_init p) (\<lambda>f. run_all observe f es) = Inr (rs, f) \<and>
      (if M = {#} then GetPercentileValue f = Inr 0
       else \<exists>i < size M. percentile_target p (size M) = Inr (int i) \<and>
         GetPercentileValue f = Inr (sorted_list_of_multiset M ! i))
    else (PercentileFilter_init p :: 'a PercentileFilter outcome) = Inl Check_failed"
proof (cases "unit_range p")
  case True
  have peak: "peak es {#} \<le> max_observations" using assms(2) by (simp add: max_observations_def)
  obtain rs f where f: "and_then (PercentileFilter_init p) (\<lambda>f. run_all observe f es) = Inr (rs, f)" "pf_ok p f"
    "mset (observations f) = M"
    unfolding M_def using run_from_start [OF True peak] by blast
  have empty: "M = {#} \<longleftrightarrow> observations f = []" using f(3) by (metis mset_zero_iff)
  have "\<exists>i < size M. percentile_target p (size M) = Inr (int i) \<and> GetPercentileValue f = Inr (sorted_list_of_multiset M ! i)"
    if "M \<noteq> {#}"
    using GetPercentileValue_ok [OF f(2)] target_ok [OF True, of "size M"] f(2) that empty
    by (auto simp: pf_ok_def simp flip: f(3))
  with True f empty GetPercentileValue_ok [OF f(2)] show ?thesis by (auto simp: unit_range_def)
next
  case False
  then show ?thesis by (auto simp: PercentileFilter_init_def unit_range_def rtc_check_def)
qed

theorem percentile_value_witness:
  "\<exists>rs f. and_then (PercentileFilter_init (Finite 3 (- 2))) (\<lambda>f. run_all observe f
      [Add_obs (3 :: int), Add_obs 8, Add_obs 5, Remove_obs 8]) = Inr (rs, f) \<and> GetPercentileValue f = Inr 3"
proof -
  have "sorted_list_of_multiset {#5, 3#} = [3, 5 :: int]"
    by (simp add: sorted_list_of_multiset_mset [of "[5, 3 :: int]", simplified])
  moreover have "percentile_target (Finite 3 (- 2)) (Suc (Suc 0)) = Inr 0"
    by (simp add: percentile_target_def percentile_target_finite round_single_small int64_of_single_def)
  ultimately show ?thesis
    using percentile_value [of "[Add_obs (3 :: int), Add_obs 8, Add_obs 5, Remove_obs 8]" "Finite 3 (- 2)"]
    by (fastforce simp: single_ge_zero_def single_le_one_def simp del: run_all.simps)
qed

text \<open>
  C40: with the percentile \<open>1\<close>, the one observation after \<open>2 ^ 24 + 3\<close> sends the iterator past the last element: the number of
  observations less one is rounded up on its way to single precision, every insertion returns, and
  reading the percentile dereferences the end of the container.
\<close>

theorem percentile_past_the_end:
  fixes xs :: "'a::{linorder, zero} list"
  assumes "length xs = 2 ^ 24 + 4"
  shows "\<exists>rs f. and_then (PercentileFilter_init (Finite 1 0)) (\<lambda>f. run_all observe f (map Add_obs xs)) = Inr (rs, f) \<and>
    GetPercentileValue f = Inl Undefined_behaviour"
proof -
  obtain ys x where xs: "xs = ys @ [x]" "length ys = 2 ^ 24 + 3" using assms by (cases xs rule: rev_cases) auto
  let ?p = "Finite 1 0"
  have "unit_range ?p" by (simp add: unit_range_def single_ge_zero_def single_le_one_def)
  moreover have "peak (map Add_obs ys) {#} \<le> max_observations" by (simp add: peak_adds xs(2) max_observations_def)
  ultimately obtain rs f where f: "and_then (PercentileFilter_init ?p) (\<lambda>f. run_all observe f (map Add_obs ys)) = Inr (rs, f)"
    "pf_ok ?p f" "mset (observations f) = bag_after (map Add_obs ys) {#}"
    using run_from_start by blast
  let ?zs = "insert_at (upper_bound x (observations f)) x (observations f)"
  have "size (mset (observations f)) = 2 ^ 24 + 3" using f(3) xs(2) by (simp add: bag_adds)
  then have len: "length ?zs = 16777220"
    using insert_at_length [OF bound_le(2), of x "observations f" x] by simp
  then have ne: "?zs \<noteq> []" by auto
  let ?g = "f\<lparr>observations := ?zs, percentile_it := 16777220, percentile_index := 16777220\<rparr>"
  obtain f0 :: "'a PercentileFilter" where init: "PercentileFilter_init ?p = Inr f0"
    using f(1) by (cases "PercentileFilter_init ?p :: 'a PercentileFilter outcome") auto
  have "percentile_target ?p 16777220 = Inr 16777220"
    by (simp add: percentile_target_def percentile_target_finite round_single_first_above int64_of_single_def
        round_single_25 round_shift_def)
  moreover obtain j where "PercentileFilter_Insert x f = UpdatePercentileIterator
      (f\<lparr>observations := ?zs, percentile_it := j, percentile_index := int j\<rparr>)"
    using Insert_follows [OF f(2)] by blast
  moreover have "percentile f = ?p" using f(2) by (simp add: pf_ok_def)
  ultimately have "PercentileFilter_Insert x f = Inr ?g" using len ne by (simp add: UpdatePercentileIterator_def Let_def)
  then have "run_all observe f0 (map Add_obs xs) = Inr (rs @ [True], ?g)"
    using f(1) init by (simp add: xs(1) run_all_append)
  moreover have "GetPercentileValue ?g = Inl Undefined_behaviour" using len ne by (simp add: GetPercentileValue_def deref_def)
  ultimately show ?thesis using init by simp
qed

theorem percentile_past_the_end_witness:
  "\<exists>rs f. and_then (PercentileFilter_init (Finite 1 0))
      (\<lambda>f. run_all observe f (map Add_obs (replicate (2 ^ 24 + 4) (0 :: int)))) = Inr (rs, f) \<and>
    GetPercentileValue f = Inl Undefined_behaviour"
  by (rule percentile_past_the_end) (rule length_replicate)

text \<open>
  C24: after any samples, at least one, the moving median filter of a positive window size up to
  \<open>2 ^ 24 + 2\<close> holds the last window of them and reports the lower median of that window.  A window of size zero is
  refused.
\<close>

theorem moving_median:
  fixes xs :: "'a::{linorder, zero} list"
  assumes "w \<le> 2 ^ 24 + 2" "xs \<noteq> []"
  shows "if w = 0 then (MovingMedianFilter_init w :: 'a MovingMedianFilter outcome) = Inl Check_failed
    else \<exists>m. and_then (MovingMedianFilter_init w) (insert_samples xs) = Inr m \<and>
      GetNumberOfSamplesStored m = min w (length xs) \<and>
      GetFilteredValue m = Inr (sort (last_n w xs) ! ((min w (length xs) - 1) div 2))"
proof (cases "w = 0")
  case False
  define m0 :: "'a MovingMedianFilter" where "m0 = \<lparr>percentile_filter =
      \<lparr>percentile = half, observations = [], percentile_it = 0, percentile_index = 0\<rparr>,
    stored = [], samples_stored = 0, window_size = w\<rparr>"
  have m0: "MovingMedianFilter_init w = Inr m0" "mm_ok m0" "window_size m0 = w" "stored m0 = last_n w []"
    using False assms(1) half_unit
    by (simp_all add: MovingMedianFilter_init_def m0_def mm_ok_def pf_ok_def PercentileFilter_init_def last_n_def
        unit_range_def max_observations_def)
  obtain m where m: "insert_samples xs m0 = Inr m" "mm_ok m" "stored m = last_n w xs"
    using insert_samples_ok [OF m0(2), of "[]" xs] m0(3,4) by auto
  have len: "length (last_n w xs) = min w (length xs)" by (auto simp: last_n_def)
  have ms: "mset (observations (percentile_filter m)) = mset (last_n w xs)" using m by (simp add: mm_ok_def)
  then have "observations (percentile_filter m) \<noteq> []"
    using len assms(2) False by (metis length_greater_0_conv min_less_iff_conj neq0_conv size_mset list.size(3))
  moreover have "size (mset (last_n w xs)) = min w (length xs)" using len by simp
  moreover have "target half (min w (length xs)) = (min w (length xs) - 1) div 2"
    using False assms by (intro target_half) (simp_all add: max_observations_def min_def)
  ultimately have "GetFilteredValue m = Inr (sort (last_n w xs) ! ((min w (length xs) - 1) div 2))"
    using GetPercentileValue_ok [of half "percentile_filter m"] m(2)
    by (simp add: GetFilteredValue_def mm_ok_def ms sorted_list_of_multiset_mset del: size_mset)
  then show ?thesis
    using False m0(1) m len by (simp add: GetNumberOfSamplesStored_def mm_ok_def)
qed (use half_unit in \<open>simp add: MovingMedianFilter_init_def PercentileFilter_init_def unit_range_def\<close>)

theorem moving_median_witness:
  "\<exists>m. and_then (MovingMedianFilter_init 3) (insert_samples [9, 1, 8, 2 :: int]) = Inr m \<and>
    GetFilteredValue m = Inr 2"
  using moving_median [of 3 "[9, 1, 8, 2 :: int]"] by (auto simp: last_n_def)

end
