(* ===== verification/Rolling.thy ===== *)
theory Rolling
  imports Prelude
begin

text \<open>
  \<^verbatim>\<open>rtc_base/rolling_accumulator.h\<close>: the last \<^verbatim>\<open>max_count\<close> samples in a ring, with a lazily recomputed
  maximum and minimum.  Of \<^verbatim>\<open>RunningStatistics\<close>, a class of floating point accumulators, the model keeps
  the number of samples, which is all that the ring uses; the mean, the weighted mean and the
  variance are not modelled.  The fields that the source declares mutable are updated by
  \<open>ComputeMax\<close> and \<open>ComputeMin\<close>, which return the new state.
\<close>

section \<open>Definitions\<close>

record 'a RollingAccumulator =
  stats_size :: nat
  next_index :: nat
  max_val :: 'a
  max_stale :: bool
  min_val :: 'a
  min_stale :: bool
  ring :: "'a list"

abbreviation max_count :: "'a RollingAccumulator \<Rightarrow> nat" where
  "max_count r \<equiv> length (ring r)"

abbreviation count_samples :: "'a RollingAccumulator \<Rightarrow> nat" where
  "count_samples r \<equiv> stats_size r"

definition Rolling_Reset :: "'a::zero RollingAccumulator \<Rightarrow> 'a RollingAccumulator" where
  "Rolling_Reset r =
     r\<lparr>stats_size := 0, next_index := 0, max_val := 0, max_stale := False, min_val := 0,
       min_stale := False\<rparr>"

definition RollingAccumulator_init :: "nat \<Rightarrow> 'a::zero RollingAccumulator outcome" where
  "RollingAccumulator_init n =
     dcheck (n > 0)
       (Inr (Rolling_Reset \<lparr>stats_size = 0, next_index = 0, max_val = 0, max_stale = False,
                            min_val = 0, min_stale = False, ring = replicate n 0\<rparr>))"

definition AddSample :: "'a::linorder \<Rightarrow> 'a RollingAccumulator \<Rightarrow> 'a RollingAccumulator outcome" where
  "AddSample sample r =
     defined_if (next_index r < max_count r)
       (let r1 = (if count_samples r = max_count r
                  then let sample_to_remove = ring r ! next_index r
                       in r\<lparr>stats_size := stats_size r - 1,
                            max_stale := max_stale r \<or> sample_to_remove \<ge> max_val r,
                            min_stale := min_stale r \<or> sample_to_remove \<le> min_val r\<rparr>
                  else r);
            r2 = r1\<lparr>ring := (ring r1)[next_index r1 := sample]\<rparr>;
            r3 = (if count_samples r2 = 0 \<or> sample \<ge> max_val r2
                  then r2\<lparr>max_val := sample, max_stale := False\<rparr> else r2);
            r4 = (if count_samples r3 = 0 \<or> sample \<le> min_val r3
                  then r3\<lparr>min_val := sample, min_stale := False\<rparr> else r3);
            r5 = r4\<lparr>stats_size := stats_size r4 + 1\<rparr>
        in Inr (r5\<lparr>next_index := (next_index r5 + 1) mod max_count r5\<rparr>))"

definition scan :: "('a \<Rightarrow> 'a \<Rightarrow> 'a) \<Rightarrow> 'a RollingAccumulator \<Rightarrow> 'a" where
  "scan pick r =
     foldl (\<lambda>acc i. pick acc (ring r ! ((next_index r + i) mod max_count r)))
       (ring r ! next_index r) [1..<count_samples r]"

definition ComputeMax :: "'a::linorder RollingAccumulator \<Rightarrow> ('a \<times> 'a RollingAccumulator) outcome" where
  "ComputeMax r =
     (if max_stale r
      then dcheck (count_samples r > 0)
        (defined_if (next_index r < max_count r)
          (let r' = r\<lparr>max_val := scan max r, max_stale := False\<rparr> in Inr (max_val r', r')))
      else Inr (max_val r, r))"

definition ComputeMin :: "'a::linorder RollingAccumulator \<Rightarrow> ('a \<times> 'a RollingAccumulator) outcome" where
  "ComputeMin r =
     (if min_stale r
      then dcheck (count_samples r > 0)
        (defined_if (next_index r < max_count r)
          (let r' = r\<lparr>min_val := scan min r, min_stale := False\<rparr> in Inr (min_val r', r')))
      else Inr (min_val r, r))"

section \<open>The ring holds the last samples\<close>

text \<open>The \<open>n\<close>-th sample given, counted from zero, sits in slot \<open>n mod max_count\<close>.\<close>

definition recent :: "nat \<Rightarrow> 'a list \<Rightarrow> 'a list" where
  "recent n xs = drop (length xs - n) xs"

definition rolls :: "'a::linorder list \<Rightarrow> 'a RollingAccumulator \<Rightarrow> bool" where
  "rolls xs r \<longleftrightarrow> 0 < max_count r \<and> next_index r = length xs mod max_count r \<and>
     count_samples r = min (length xs) (max_count r) \<and>
     (\<forall>i < length xs. length xs \<le> i + max_count r \<longrightarrow> ring r ! (i mod max_count r) = xs ! i)"

definition extreme :: "('a \<Rightarrow> 'a \<Rightarrow> bool) \<Rightarrow> 'a \<Rightarrow> bool \<Rightarrow> 'a list \<Rightarrow> nat \<Rightarrow> bool" where
  "extreme le m stale xs n \<longleftrightarrow> xs \<noteq> [] \<longrightarrow>
     (\<forall>x \<in> set (recent n xs). le x m) \<and>
     (if stale then n \<le> length xs else m \<in> set (recent n xs))"

definition rolling_ok :: "'a::linorder list \<Rightarrow> 'a RollingAccumulator \<Rightarrow> bool" where
  "rolling_ok xs r \<longleftrightarrow> rolls xs r \<and>
     extreme (\<le>) (max_val r) (max_stale r) xs (max_count r) \<and>
     extreme (\<ge>) (min_val r) (min_stale r) xs (max_count r) \<and>
     (xs = [] \<longrightarrow> \<not> max_stale r \<and> \<not> min_stale r)"

lemma recent_snoc:
  assumes "0 < n"
  shows "recent n (xs @ [x]) = (if length xs < n then recent n xs @ [x] else tl (recent n xs) @ [x])"
proof (cases "length xs < n")
  case False
  with assms have "Suc (length xs) - n = Suc (length xs - n)" "length xs - n < length xs" by linarith+
  then show ?thesis using False by (simp add: recent_def drop_Suc tl_drop)
qed (simp add: recent_def)

lemma rolls_snoc:
  assumes "rolls xs r" "ring r' = (ring r)[next_index r := x]"
    "next_index r' = (next_index r + 1) mod max_count r"
    "count_samples r' = min (length xs + 1) (max_count r)"
  shows "rolls (xs @ [x]) r'"
proof -
  let ?n = "max_count r"
  have n: "0 < ?n" "next_index r = length xs mod ?n" "max_count r' = ?n"
    using assms(1,2) by (auto simp: rolls_def)
  have "ring r' ! (i mod ?n) = (xs @ [x]) ! i"
    if i: "i < length (xs @ [x])" "length (xs @ [x]) \<le> i + ?n" for i
  proof (cases "i = length xs")
    case True
    then show ?thesis using n assms(2) by simp
  next
    case False
    then have less: "i < length xs" using i by simp
    have "i mod ?n \<noteq> length xs mod ?n"
    proof
      assume "i mod ?n = length xs mod ?n"
      then have "?n dvd length xs - i" using less by (metis mod_eq_dvd_iff_nat less_imp_le)
      then show False using less i by (auto dest!: dvd_imp_le)
    qed
    then show ?thesis
      using less i n assms(1,2) by (simp add: rolls_def nth_append)
  qed
  then show ?thesis using n assms(3,4) by (simp add: rolls_def mod_simps)
qed

lemma rolls_recent:
  assumes "rolls xs r" "max_count r \<le> length xs" "i < max_count r"
  shows "ring r ! ((next_index r + i) mod max_count r) = recent (max_count r) xs ! i"
proof -
  let ?n = "max_count r" and ?j = "length xs - max_count r + i"
  have "(next_index r + i) mod ?n = (length xs + i) mod ?n"
    using assms(1) by (simp add: rolls_def mod_simps)
  also have "length xs + i = ?j + ?n" using assms(2) by simp
  finally have "(next_index r + i) mod ?n = ?j mod ?n" by simp
  moreover have "ring r ! (?j mod ?n) = xs ! ?j"
    using assms by (auto simp: rolls_def)
  ultimately show ?thesis using assms(2,3) by (simp add: recent_def)
qed

lemma extreme_snoc:
  assumes old: "extreme le m stale xs n" and n: "0 < n"
    and order: "\<And>a. le a a" "\<And>a b c. le a b \<Longrightarrow> le b c \<Longrightarrow> le a c" "\<And>a b. le a b \<or> le b a"
    and stale': "stale' = (stale \<or> n \<le> length xs \<and> le m (hd (recent n xs)))"
    and none: "xs = [] \<longrightarrow> \<not> stale"
    and left: "left = (if n \<le> length xs then n - 1 else length xs)"
  shows "extreme le (if left = 0 \<or> le m x then x else m) (if left = 0 \<or> le m x then False else stale') (xs @ [x]) n"
proof -
  let ?old = "recent n xs" and ?new = "recent n (xs @ [x])"
  have new: "?new = (if n \<le> length xs then tl ?old @ [x] else ?old @ [x])"
    using recent_snoc [OF n, of xs x] by auto
  have sub: "set ?new \<subseteq> insert x (set ?old)" by (cases ?old) (auto simp: new)
  have len: "length ?old = min n (length xs)" by (auto simp: recent_def)
  have below: "le y m" if "y \<in> set ?old" for y
    using old that by (cases "xs = []") (auto simp: extreme_def recent_def)
  show ?thesis
  proof (cases "left = 0 \<or> le m x")
    case True
    have "le y x" if y: "y \<in> set ?new" for y
    proof (cases "left = 0")
      case True
      then have "?new = [x]" using left len n by (cases ?old) (auto simp: new split: if_splits)
      then show ?thesis using y order(1) by simp
    next
      case False
      then have "le m x" using True by simp
      then show ?thesis using y sub below order(1,2) by blast
    qed
    then show ?thesis using True new by (auto simp: extreme_def)
  next
    case False
    then have ne: "xs \<noteq> []" using left n by (auto split: if_splits)
    have "le x m" using False order(3) by blast
    then have all: "\<forall>y \<in> set ?new. le y m" using sub below by blast
    have "m \<in> set ?new" if "\<not> stale'"
    proof -
      have m: "m \<in> set ?old" using old ne that stale' by (auto simp: extreme_def)
      then show ?thesis
        using that stale' order(1) by (cases ?old) (auto simp: new)
    qed
    moreover have "n \<le> length (xs @ [x])" if "stale'"
      using that stale' old ne by (auto simp: extreme_def split: if_splits)
    ultimately show ?thesis using False all by (auto simp: extreme_def)
  qed
qed

lemma AddSample_ok:
  assumes "rolling_ok xs r"
  shows "\<exists>r'. AddSample x r = Inr r' \<and> rolling_ok (xs @ [x]) r' \<and> max_count r' = max_count r"
proof -
  let ?n = "max_count r"
  have rolls: "rolls xs r" using assms by (simp add: rolling_ok_def)
  then have n: "0 < ?n" "next_index r < ?n" "count_samples r = min (length xs) ?n"
    by (auto simp: rolls_def)
  define stale_max where "stale_max = (max_stale r \<or> ?n \<le> length xs \<and> max_val r \<le> hd (recent ?n xs))"
  define stale_min where "stale_min = (min_stale r \<or> ?n \<le> length xs \<and> min_val r \<ge> hd (recent ?n xs))"
  define left where "left = (if ?n \<le> length xs then ?n - 1 else length xs)"
  define r' where "r' = r\<lparr>stats_size := left + 1, next_index := (next_index r + 1) mod ?n,
    max_val := (if left = 0 \<or> max_val r \<le> x then x else max_val r),
    max_stale := (if left = 0 \<or> max_val r \<le> x then False else stale_max),
    min_val := (if left = 0 \<or> min_val r \<ge> x then x else min_val r),
    min_stale := (if left = 0 \<or> min_val r \<ge> x then False else stale_min),
    ring := (ring r)[next_index r := x]\<rparr>"
  have fields: "max_val r' = (if left = 0 \<or> max_val r \<le> x then x else max_val r)"
      "max_stale r' = (if left = 0 \<or> max_val r \<le> x then False else stale_max)"
      "min_val r' = (if left = 0 \<or> min_val r \<ge> x then x else min_val r)"
      "min_stale r' = (if left = 0 \<or> min_val r \<ge> x then False else stale_min)"
    by (simp_all add: r'_def)
  have oldest: "ring r ! next_index r = hd (recent ?n xs)" if "?n \<le> length xs"
    using rolls_recent [OF rolls that n(1)] n that by (simp add: hd_conv_nth recent_def)
  have "AddSample x r = Inr r'"
  proof (cases "?n \<le> length xs")
    case True
    then have "count_samples r = ?n" "left = ?n - 1" using n left_def by simp_all
    then show ?thesis
      using n True oldest [OF True]
      by (simp add: AddSample_def Let_def r'_def stale_max_def stale_min_def)
  next
    case False
    then have "count_samples r = length xs" "left = length xs" "length xs \<noteq> ?n" using n left_def by simp_all
    then show ?thesis
      using n False by (simp add: AddSample_def Let_def r'_def stale_max_def stale_min_def)
  qed
  moreover have "rolls (xs @ [x]) r'"
    by (rule rolls_snoc [OF rolls]) (use n in \<open>auto simp: r'_def left_def\<close>)
  moreover have "extreme (\<le>) (max_val r') (max_stale r') (xs @ [x]) ?n"
    unfolding fields
    by (rule extreme_snoc) (use assms n(1) in \<open>auto simp: rolling_ok_def stale_max_def left_def\<close>)
  moreover have "extreme (\<ge>) (min_val r') (min_stale r') (xs @ [x]) ?n"
    unfolding fields
    by (rule extreme_snoc) (use assms n(1) in \<open>auto simp: rolling_ok_def stale_min_def left_def\<close>)
  moreover have "max_count r' = ?n" by (simp add: r'_def)
  ultimately show ?thesis by (auto simp: rolling_ok_def)
qed

lemma foldl_pick:
  assumes "\<And>a b. pick a b = (if le b a then a else b)" "\<And>a b c. le a b \<Longrightarrow> le b c \<Longrightarrow> le a c"
    "\<And>a. le a a" "\<And>a b. le a b \<or> le b a"
  shows "foldl pick a ys \<in> set (a # ys) \<and> (\<forall>y \<in> set (a # ys). le y (foldl pick a ys))"
proof (induction ys arbitrary: a)
  case (Cons y ys)
  let ?F = "foldl pick (pick a y) ys"
  have y: "le a (pick a y)" "le y (pick a y)" "pick a y = a \<or> pick a y = y"
    using assms(1) [of a y] assms(3) [of a] assms(3) [of y] assms(4) [of a y]
    by (auto split: if_splits)
  have IH: "?F \<in> set (pick a y # ys)" "\<forall>z \<in> set (pick a y # ys). le z ?F"
    using Cons.IH [of "pick a y"] by blast+
  have "le a ?F" "le y ?F" using y(1,2) IH(2) assms(2) by (meson list.set_intros(1))+
  then show ?case using IH y(3) by auto
qed (use assms(3) in simp)

lemma scan_recent:
  assumes "rolls xs r" "max_count r \<le> length xs"
  shows "scan pick r = foldl pick (hd (recent (max_count r) xs)) (tl (recent (max_count r) xs))"
proof -
  let ?R = "recent (max_count r) xs"
  have n: "0 < max_count r" "count_samples r = max_count r" "length ?R = max_count r"
    "next_index r < max_count r"
    using assms by (auto simp: rolls_def recent_def)
  then have "?R \<noteq> []" by auto
  note n = n(1-3) this n(4)
  have "scan pick r = foldl pick (ring r ! next_index r)
      (map (\<lambda>i. ring r ! ((next_index r + i) mod max_count r)) [1..<max_count r])"
    by (simp add: scan_def n(2) foldl_map)
  also have "map (\<lambda>i. ring r ! ((next_index r + i) mod max_count r)) [1..<max_count r] = map ((!) ?R) [1..<max_count r]"
    using rolls_recent [OF assms] by simp
  also have "\<dots> = tl ?R"
    using n by (intro nth_equalityI) (auto simp: nth_tl)
  also have "ring r ! next_index r = hd ?R"
    using rolls_recent [OF assms n(1)] n by (simp add: hd_conv_nth)
  finally show ?thesis .
qed

lemma stale_full:
  assumes "rolling_ok xs r" "max_stale r \<or> min_stale r"
  shows "max_count r \<le> length xs" "recent (max_count r) xs \<noteq> []" "0 < count_samples r" "next_index r < max_count r"
proof -
  show "max_count r \<le> length xs"
    using assms by (auto simp: rolling_ok_def extreme_def split: if_splits)
  moreover have rolls: "0 < max_count r" "next_index r = length xs mod max_count r"
    "count_samples r = min (length xs) (max_count r)"
    using assms(1) by (simp_all add: rolling_ok_def rolls_def)
  ultimately have "length (recent (max_count r) xs) = max_count r" "0 < count_samples r"
    by (simp_all add: recent_def)
  then show "recent (max_count r) xs \<noteq> []" "0 < count_samples r" "next_index r < max_count r"
    using rolls by auto
qed

lemma scan_extreme:
  assumes ok: "rolls xs r" "max_count r \<le> length xs" "recent (max_count r) xs \<noteq> []"
    and pick: "\<And>a b. pick a b = (if le b a then a else b)" "\<And>a b c. le a b \<Longrightarrow> le b c \<Longrightarrow> le a c"
      "\<And>a. le a a" "\<And>a b. le a b \<or> le b a"
  shows "extreme le (scan pick r) False xs (max_count r)"
  using foldl_pick [of pick le "hd (recent (max_count r) xs)" "tl (recent (max_count r) xs)", OF pick]
    scan_recent [OF ok(1,2), of pick] ok(3)
  by (simp add: extreme_def)

lemma extreme_is_Max:
  fixes m :: "'a::linorder"
  assumes "extreme (\<le>) m False xs n" "xs \<noteq> []"
  shows "m = Max (set (recent n xs))"
  using assms by (auto simp: extreme_def intro!: Max_eqI [symmetric])

lemma extreme_is_Min:
  fixes m :: "'a::linorder"
  assumes "extreme (\<ge>) m False xs n" "xs \<noteq> []"
  shows "m = Min (set (recent n xs))"
  using assms by (auto simp: extreme_def intro!: Min_eqI [symmetric])

lemma rolling_ok_extremes:
  "rolling_ok xs r \<Longrightarrow> extreme (\<le>) m s xs (max_count r) \<Longrightarrow> xs \<noteq> [] \<Longrightarrow>
     rolling_ok xs (r\<lparr>max_val := m, max_stale := s\<rparr>)"
  "rolling_ok xs r \<Longrightarrow> extreme (\<ge>) m s xs (max_count r) \<Longrightarrow> xs \<noteq> [] \<Longrightarrow>
     rolling_ok xs (r\<lparr>min_val := m, min_stale := s\<rparr>)"
  by (simp_all add: rolling_ok_def rolls_def)

lemma ComputeMax_ok:
  assumes ok: "rolling_ok xs r" and ne: "xs \<noteq> []"
  shows "\<exists>r'. ComputeMax r = Inr (Max (set (recent (max_count r) xs)), r') \<and> rolling_ok xs r' \<and>
    max_count r' = max_count r"
proof (cases "max_stale r")
  case True
  note full = stale_full [OF ok disjI1 [OF True]]
  have e: "extreme (\<le>) (scan max r) False xs (max_count r)"
    by (rule scan_extreme) (use ok full in \<open>auto simp: rolling_ok_def max_def\<close>)
  show ?thesis
    using True full(3,4) extreme_is_Max [OF e ne] rolling_ok_extremes(1) [OF ok e ne]
    by (simp add: ComputeMax_def)
next
  case False
  then have "extreme (\<le>) (max_val r) False xs (max_count r)" using ok by (simp add: rolling_ok_def)
  from extreme_is_Max [OF this ne] show ?thesis using False ok by (simp add: ComputeMax_def)
qed

lemma ComputeMin_ok:
  assumes ok: "rolling_ok xs r" and ne: "xs \<noteq> []"
  shows "\<exists>r'. ComputeMin r = Inr (Min (set (recent (max_count r) xs)), r') \<and> rolling_ok xs r' \<and>
    max_count r' = max_count r"
proof (cases "min_stale r")
  case True
  note full = stale_full [OF ok disjI2 [OF True]]
  have e: "extreme (\<ge>) (scan min r) False xs (max_count r)"
    by (rule scan_extreme) (use ok full in \<open>auto simp: rolling_ok_def min_def\<close>)
  show ?thesis
    using True full(3,4) extreme_is_Min [OF e ne] rolling_ok_extremes(2) [OF ok e ne]
    by (simp add: ComputeMin_def)
next
  case False
  then have "extreme (\<ge>) (min_val r) False xs (max_count r)" using ok by (simp add: rolling_ok_def)
  from extreme_is_Min [OF this ne] show ?thesis using False ok by (simp add: ComputeMin_def)
qed

section \<open>Runs\<close>

text \<open>
  A client of the accumulator: it adds samples and asks for the maximum and the minimum in any
  order.  The answers of the queries are collected.
\<close>

datatype 'a rolling_op = Sample 'a | Query_max | Query_min | Do_reset

fun rolling_step :: "'a::{linorder,zero} RollingAccumulator \<Rightarrow> 'a rolling_op \<Rightarrow> ('a list \<times> 'a RollingAccumulator) outcome" where
  "rolling_step r (Sample x) = map_outcome (Pair []) (AddSample x r)"
| "rolling_step r Query_max = map_outcome (\<lambda>(m, r'). ([m], r')) (ComputeMax r)"
| "rolling_step r Query_min = map_outcome (\<lambda>(m, r'). ([m], r')) (ComputeMin r)"
| "rolling_step r Do_reset = Inr ([], Rolling_Reset r)"

text \<open>What the answers should be: the extremes of the last \<open>n\<close> samples since the last reset.\<close>

fun rolling_spec :: "nat \<Rightarrow> 'a::{linorder,zero} list \<Rightarrow> 'a rolling_op list \<Rightarrow> 'a list list" where
  "rolling_spec n xs [] = []"
| "rolling_spec n xs (Sample x # ops) = [] # rolling_spec n (xs @ [x]) ops"
| "rolling_spec n xs (Query_max # ops) =
     [if xs = [] then 0 else Max (set (recent n xs))] # rolling_spec n xs ops"
| "rolling_spec n xs (Query_min # ops) =
     [if xs = [] then 0 else Min (set (recent n xs))] # rolling_spec n xs ops"
| "rolling_spec n xs (Do_reset # ops) = [] # rolling_spec n [] ops"

definition rolling_state :: "nat \<Rightarrow> 'a::{linorder,zero} list \<Rightarrow> 'a RollingAccumulator \<Rightarrow> bool" where
  "rolling_state n xs r \<longleftrightarrow> rolling_ok xs r \<and> max_count r = n \<and>
     (xs = [] \<longrightarrow> max_val r = 0 \<and> min_val r = 0)"

lemma rolling_state_reset: "rolling_state n xs r \<Longrightarrow> rolling_state n [] (Rolling_Reset r)"
  by (auto simp: rolling_state_def rolling_ok_def rolls_def extreme_def Rolling_Reset_def)

lemma rolling_state_init:
  "0 < n \<Longrightarrow> \<exists>r. RollingAccumulator_init n = Inr r \<and> rolling_state n [] r"
  by (simp add: RollingAccumulator_init_def rolling_state_def rolling_ok_def rolls_def extreme_def
      Rolling_Reset_def)

lemma rolling_query:
  assumes "rolling_state n xs r"
  shows "\<exists>r'. ComputeMax r = Inr (if xs = [] then 0 else Max (set (recent n xs)), r') \<and> rolling_state n xs r'"
    and "\<exists>r'. ComputeMin r = Inr (if xs = [] then 0 else Min (set (recent n xs)), r') \<and> rolling_state n xs r'"
proof -
  consider "xs = []" "\<not> max_stale r" "\<not> min_stale r" "max_val r = 0" "min_val r = 0" | "xs \<noteq> []"
    using assms by (auto simp: rolling_state_def rolling_ok_def)
  note c = this
  show "\<exists>r'. ComputeMax r = Inr (if xs = [] then 0 else Max (set (recent n xs)), r') \<and> rolling_state n xs r'"
    using c ComputeMax_ok [of xs r] assms
    by cases (auto simp: rolling_state_def ComputeMax_def)
  show "\<exists>r'. ComputeMin r = Inr (if xs = [] then 0 else Min (set (recent n xs)), r') \<and> rolling_state n xs r'"
    using c ComputeMin_ok [of xs r] assms
    by cases (auto simp: rolling_state_def ComputeMin_def)
qed

lemma rolling_run:
  "rolling_state n xs r \<Longrightarrow> \<exists>r'. run_all rolling_step r ops = Inr (rolling_spec n xs ops, r')"
proof (induction ops arbitrary: xs r)
  case (Cons op ops)
  show ?case
  proof (cases op)
    case (Sample x)
    obtain r' where "AddSample x r = Inr r'" "rolling_state n (xs @ [x]) r'"
      using AddSample_ok [of xs r x] Cons.prems by (auto simp: rolling_state_def)
    then show ?thesis using Sample Cons.IH [of "xs @ [x]" r'] by auto
  next
    case Query_max
    obtain r' where "ComputeMax r = Inr (if xs = [] then 0 else Max (set (recent n xs)), r')" "rolling_state n xs r'"
      using rolling_query(1) [OF Cons.prems] by blast
    then show ?thesis using Query_max Cons.IH [of xs r'] by auto
  next
    case Query_min
    obtain r' where "ComputeMin r = Inr (if xs = [] then 0 else Min (set (recent n xs)), r')" "rolling_state n xs r'"
      using rolling_query(2) [OF Cons.prems] by blast
    then show ?thesis using Query_min Cons.IH [of xs r'] by auto
  next
    case Do_reset
    then show ?thesis using Cons.IH [OF rolling_state_reset [OF Cons.prems]] by auto
  qed
qed simp

text \<open>
  C13: \<^verbatim>\<open>RollingAccumulator\<close>, started with a positive \<^verbatim>\<open>max_count\<close> and driven by any sequence of
  \<^verbatim>\<open>AddSample\<close>, \<^verbatim>\<open>ComputeMax\<close>, \<^verbatim>\<open>ComputeMin\<close> and \<^verbatim>\<open>Reset\<close>, never meets a failed check or
  an access outside the ring, and every query answers the maximum or minimum of the last
  \<^verbatim>\<open>max_count\<close> samples since the last reset, or zero where there are none: the lazy
  recomputation guarded by the stale flags is never skipped when it is due.
\<close>

theorem rolling_extremes:
  fixes ops :: "'a::{linorder,zero} rolling_op list"
  assumes "0 < n"
  shows "\<exists>r r'. RollingAccumulator_init n = Inr r \<and>
    run_all rolling_step r ops = Inr (rolling_spec n [] ops, r')"
  using rolling_state_init [OF assms, where 'a = 'a] rolling_run [of n "[]" _ ops] by blast

theorem rolling_extremes_witness:
  "\<exists>r r'. RollingAccumulator_init 2 = Inr r \<and>
    run_all rolling_step r [Sample (5::int), Sample 3, Query_max, Sample 4, Query_max, Query_min] =
      Inr ([[], [], [5], [], [4], [3]], r')"
  using rolling_extremes [of 2 "[Sample (5::int), Sample 3, Query_max, Sample 4, Query_max, Query_min]"]
  by (simp add: recent_def)

end
