(* ===== verification/Vector_Buffer.thy ===== *)
theory Vector_Buffer
  imports Prelude
begin

text \<open>
  \<^verbatim>\<open>base/containers/vector_buffer.h\<close>: a block of raw storage in which a container constructs, moves and
  destroys objects itself.  A block is the list of its slots, \<open>None\<close> for a slot without a live
  object.  Destroying or reading such a slot is undefined; constructing over a live object, which
  would leak it, is counted as undefined too, so that a fault-free run also shows that no object
  is lost.  The model is that of a type with a destructor; allocation succeeds, and the size of a
  block fits \<^verbatim>\<open>size_t\<close>.
\<close>

section \<open>Definitions\<close>

type_synonym 'a VectorBuffer = "'a option list"

definition VectorBuffer_alloc :: "nat \<Rightarrow> 'a VectorBuffer" where
  "VectorBuffer_alloc count = replicate count None"

text \<open>Giving a block back while it holds a live object would leak the object.\<close>

definition vb_free :: "'a VectorBuffer \<Rightarrow> 'b outcome \<Rightarrow> 'b outcome" where
  "vb_free buf k = defined_if (list_all (\<lambda>s. s = None) buf) k"

text \<open>\<^verbatim>\<open>operator[]\<close> gives an address, one past the end included.\<close>

definition vb_address :: "'a VectorBuffer \<Rightarrow> nat \<Rightarrow> nat outcome" where
  "vb_address buf i = rtc_check (i \<le> length buf) (Inr i)"

definition vb_read :: "'a VectorBuffer \<Rightarrow> nat \<Rightarrow> 'a outcome" where
  "vb_read buf i = defined_if (i < length buf \<and> buf ! i \<noteq> None) (Inr (the (buf ! i)))"

definition vb_construct :: "nat \<Rightarrow> 'a \<Rightarrow> 'a VectorBuffer \<Rightarrow> 'a VectorBuffer outcome" where
  "vb_construct i x buf = defined_if (i < length buf \<and> buf ! i = None) (Inr (buf[i := Some x]))"

definition vb_destroy :: "nat \<Rightarrow> 'a VectorBuffer \<Rightarrow> 'a VectorBuffer outcome" where
  "vb_destroy i buf = defined_if (i < length buf \<and> buf ! i \<noteq> None) (Inr (buf[i := None]))"

function destruct_loop :: "nat \<Rightarrow> nat \<Rightarrow> 'a VectorBuffer \<Rightarrow> 'a VectorBuffer outcome" where
  "destruct_loop from_begin from_end buf =
     (if from_begin = from_end then Inr buf
      else and_then (vb_destroy from_begin buf) (\<lambda>buf'. destruct_loop (from_begin + 1) from_end buf'))"
  by auto

termination destruct_loop
  by (relation "measure (\<lambda>(from_begin, from_end, buf). length buf - from_begin)")
    (auto simp: vb_destroy_def defined_if_Inr)

definition vb_DestructRange :: "nat \<Rightarrow> nat \<Rightarrow> 'a VectorBuffer \<Rightarrow> 'a VectorBuffer outcome" where
  "vb_DestructRange from_begin from_end buf = rtc_check (from_begin \<le> from_end) (destruct_loop from_begin from_end buf)"

definition RangesOverlap :: "nat \<Rightarrow> nat \<Rightarrow> nat \<Rightarrow> bool outcome" where
  "RangesOverlap from_begin from_end to =
     (if to \<ge> from_end then Inr False
      else rtc_check (from_begin \<le> from_end) (Inr (\<not> to + (from_end - from_begin) \<le> from_begin)))"

function move_loop :: "nat \<Rightarrow> nat \<Rightarrow> nat \<Rightarrow> 'a VectorBuffer \<Rightarrow> 'a VectorBuffer outcome" where
  "move_loop from_begin from_end to buf =
     (if from_begin = from_end then Inr buf
      else and_then (vb_read buf from_begin) (\<lambda>x.
           and_then (vb_construct to x buf) (\<lambda>buf1.
           and_then (vb_destroy from_begin buf1) (\<lambda>buf2.
             move_loop (from_begin + 1) from_end (to + 1) buf2))))"
  by auto

termination move_loop
  by (relation "measure (\<lambda>(a, b, to, buf). length buf - a)")
    (auto simp: vb_destroy_def vb_construct_def defined_if_Inr)

text \<open>\<^verbatim>\<open>MoveRange\<close> within a block, and from one block to another, which never overlap.\<close>

definition MoveRange :: "nat \<Rightarrow> nat \<Rightarrow> nat \<Rightarrow> 'a VectorBuffer \<Rightarrow> 'a VectorBuffer outcome" where
  "MoveRange from_begin from_end to buf =
     and_then (RangesOverlap from_begin from_end to) (\<lambda>overlap.
       rtc_check (\<not> overlap) (move_loop from_begin from_end to buf))"

function MoveRange_between ::
  "nat \<Rightarrow> nat \<Rightarrow> nat \<Rightarrow> 'a VectorBuffer \<Rightarrow> 'a VectorBuffer \<Rightarrow> ('a VectorBuffer \<times> 'a VectorBuffer) outcome"
where
  "MoveRange_between from_begin from_end to src dst =
     (if from_begin = from_end then Inr (src, dst)
      else and_then (vb_read src from_begin) (\<lambda>x.
           and_then (vb_construct to x dst) (\<lambda>dst'.
           and_then (vb_destroy from_begin src) (\<lambda>src'.
             MoveRange_between (from_begin + 1) from_end (to + 1) src' dst'))))"
  by auto

termination MoveRange_between
  by (relation "measure (\<lambda>(a, b, to, src, dst). length src - a)")
    (auto simp: vb_destroy_def defined_if_Inr)

declare destruct_loop.simps [simp del] move_loop.simps [simp del] MoveRange_between.simps [simp del]

section \<open>Blocks slot by slot\<close>

named_theorems vb_defs "the accesses to a block"

lemmas vb_access [vb_defs] =
  vb_address_def vb_read_def vb_construct_def vb_destroy_def

definition blank :: "nat \<Rightarrow> nat \<Rightarrow> 'a VectorBuffer \<Rightarrow> 'a VectorBuffer" where
  "blank from_begin from_end buf = map (\<lambda>i. if from_begin \<le> i \<and> i < from_end then None else buf ! i) [0..<length buf]"

definition paste :: "nat \<Rightarrow> 'a VectorBuffer \<Rightarrow> 'a VectorBuffer \<Rightarrow> 'a VectorBuffer" where
  "paste to seg dst = map (\<lambda>i. if to \<le> i \<and> i < to + length seg then seg ! (i - to) else dst ! i) [0..<length dst]"

lemma length_blank [simp]: "length (blank a b buf) = length buf"
  by (simp add: blank_def)

lemma length_paste [simp]: "length (paste to seg dst) = length dst"
  by (simp add: paste_def)

lemma nth_blank [simp]:
  "i < length buf \<Longrightarrow> blank a b buf ! i = (if a \<le> i \<and> i < b then None else buf ! i)"
  by (simp add: blank_def)

lemma nth_paste [simp]:
  "i < length dst \<Longrightarrow> paste to seg dst ! i =
     (if to \<le> i \<and> i < to + length seg then seg ! (i - to) else dst ! i)"
  by (simp add: paste_def)

lemma blank_empty [simp]: "blank a a buf = buf"
  by (rule nth_equalityI) auto

lemma paste_Nil [simp]: "paste to [] dst = dst"
  by (rule nth_equalityI) auto

lemma blank_step: "a < b \<Longrightarrow> blank (Suc a) b (buf[a := None]) = blank a b buf"
  by (rule nth_equalityI) (auto simp: nth_list_update)

lemma destruct_loop_ok:
  assumes "a \<le> b" "b \<le> length buf" "\<And>i. a \<le> i \<Longrightarrow> i < b \<Longrightarrow> buf ! i \<noteq> None"
  shows "destruct_loop a b buf = Inr (blank a b buf)"
  using assms
proof (induction a b buf rule: destruct_loop.induct)
  case (1 a b buf)
  show ?case
  proof (cases "a = b")
    case False
    then have d: "vb_destroy a buf = Inr (buf[a := None])" "a < b"
      using "1.prems" by (auto simp: vb_destroy_def)
    have "destruct_loop (a + 1) b (buf[a := None]) = Inr (blank (a + 1) b (buf[a := None]))"
      by (rule "1.IH" [OF False d(1)]) (use "1.prems" d in auto)
    then show ?thesis
      using False d by (simp add: destruct_loop.simps [of a] blank_step)
  qed (simp add: destruct_loop.simps)
qed

lemma vb_DestructRange_ok:
  assumes "a \<le> b" "b \<le> length buf" "\<And>i. a \<le> i \<Longrightarrow> i < b \<Longrightarrow> buf ! i \<noteq> None"
  shows "vb_DestructRange a b buf = Inr (blank a b buf)"
  using destruct_loop_ok [OF assms] assms(1) by (simp add: vb_DestructRange_def)

lemma MoveRange_one:
  assumes "i < length buf" "buf ! i = Some x" "j < length buf" "buf ! j = None" "i \<noteq> j"
  shows "MoveRange i (Suc i) j buf = Inr (buf[j := Some x, i := None])"
  using assms
  by (auto simp: MoveRange_def RangesOverlap_def move_loop.simps [of i] move_loop.simps [of "Suc i"] vb_access)

lemma MoveRange_between_ok:
  assumes "a \<le> b" "b \<le> length src" "\<And>i. a \<le> i \<Longrightarrow> i < b \<Longrightarrow> src ! i \<noteq> None"
    and "to + (b - a) \<le> length dst" "\<And>i. to \<le> i \<Longrightarrow> i < to + (b - a) \<Longrightarrow> dst ! i = None"
  shows "MoveRange_between a b to src dst =
    Inr (blank a b src, paste to (take (b - a) (drop a src)) dst)"
  using assms
proof (induction a b to src dst rule: MoveRange_between.induct)
  case (1 a b to src dst)
  show ?case
  proof (cases "a = b")
    case True
    then show ?thesis
      by (simp add: MoveRange_between.simps)
  next
    case False
    then have lt: "a < b" "a < length src" using "1.prems" by auto
    obtain x where x: "src ! a = Some x" using "1.prems"(3) lt by blast
    have to: "to < length dst" "dst ! to = None" using "1.prems"(4,5) lt by auto
    have steps: "vb_read src a = Inr x" "vb_construct to x dst = Inr (dst[to := Some x])"
      "vb_destroy a src = Inr (src[a := None])"
      using lt x to by (simp_all add: vb_access)
    have "MoveRange_between (a + 1) b (to + 1) (src[a := None]) (dst[to := Some x]) =
        Inr (blank (a + 1) b (src[a := None]),
             paste (to + 1) (take (b - (a + 1)) (drop (a + 1) (src[a := None]))) (dst[to := Some x]))"
      by (rule "1.IH" [OF False steps]) (use "1.prems" lt in auto)
    moreover have "paste (to + 1) (take (b - (a + 1)) (drop (a + 1) (src[a := None]))) (dst[to := Some x]) =
        paste to (take (b - a) (drop a src)) dst"
      using "1.prems"(2,4) lt x by (intro nth_equalityI) (auto simp: nth_list_update Suc_diff_Suc)
    ultimately show ?thesis
      using False steps lt by (simp add: MoveRange_between.simps [of a] blank_step)
  qed
qed

end
