(* ===== verification/Circular_Deque.thy ===== *)
theory Circular_Deque
  imports Vector_Buffer
begin

text \<open>
  \<^verbatim>\<open>base/containers/circular_deque.h\<close>: a double-ended queue in one block used as a ring, one slot of which is
  always free.  The operations are those of the class, with the checks of a debug build, the
  addresses taken with \<^verbatim>\<open>operator[]\<close> of the block (which checks its index) and the generation count
  by which iterators notice that the deque has changed.  A deque is identified by the address
  \<open>this_ptr\<close>; an operation on an iterator is given the deque that the iterator points into.  Indices
  and sizes are natural numbers: they are bounded by the size of a block, which fits \<^verbatim>\<open>size_t\<close>.
  Elements are passed by value, so that an argument never aliases an element of the deque.
\<close>

section \<open>State\<close>

record 'a circular_deque =
  this_ptr :: nat
  buffer :: "'a VectorBuffer"
  begin_index :: nat
  end_index :: nat
  generation :: "64 word"

record circular_deque_iterator =
  parent_deque :: "nat option"
  it_index :: nat
  created_generation :: "64 word"

abbreviation buffer_capacity :: "'a circular_deque \<Rightarrow> nat" where
  "buffer_capacity d \<equiv> length (buffer d)"

definition kCircularBufferInitialCapacity :: nat where
  "kCircularBufferInitialCapacity = 3"

definition circular_deque_default :: "nat \<Rightarrow> 'a circular_deque" where
  "circular_deque_default ptr =
     \<lparr>this_ptr = ptr, buffer = [], begin_index = 0, end_index = 0, generation = 0\<rparr>"

definition dq_capacity :: "'a circular_deque \<Rightarrow> nat" where
  "dq_capacity d = (if buffer_capacity d = 0 then 0 else buffer_capacity d - 1)"

definition dq_empty :: "'a circular_deque \<Rightarrow> bool" where
  "dq_empty d \<longleftrightarrow> begin_index d = end_index d"

definition dq_size :: "'a circular_deque \<Rightarrow> nat" where
  "dq_size d =
     (if begin_index d \<le> end_index d then end_index d - begin_index d
      else buffer_capacity d - begin_index d + end_index d)"

definition CheckValidIndex :: "'a circular_deque \<Rightarrow> nat \<Rightarrow> bool" where
  "CheckValidIndex d i \<longleftrightarrow>
     (if begin_index d \<le> end_index d then i \<ge> begin_index d \<and> i < end_index d
      else i \<ge> begin_index d \<and> i < buffer_capacity d \<or> i < end_index d)"

definition CheckValidIndexOrEnd :: "'a circular_deque \<Rightarrow> nat \<Rightarrow> bool" where
  "CheckValidIndexOrEnd d i \<longleftrightarrow> (i \<noteq> end_index d \<longrightarrow> CheckValidIndex d i)"

definition IncrementGeneration :: "'a circular_deque \<Rightarrow> 'a circular_deque" where
  "IncrementGeneration d = d\<lparr>generation := generation d + 1\<rparr>"

definition dq_slot :: "'a circular_deque \<Rightarrow> nat \<Rightarrow> 'a outcome" where
  "dq_slot d i = and_then (vb_address (buffer d) i) (vb_read (buffer d))"

section \<open>Iterators\<close>

definition null_iterator :: circular_deque_iterator where
  "null_iterator = \<lparr>parent_deque = None, it_index = 0, created_generation = 0\<rparr>"

definition make_iterator :: "'a circular_deque \<Rightarrow> nat \<Rightarrow> circular_deque_iterator" where
  "make_iterator d i =
     \<lparr>parent_deque = Some (this_ptr d), it_index = i, created_generation = generation d\<rparr>"

definition CheckUnstableUsage :: "'a circular_deque \<Rightarrow> circular_deque_iterator \<Rightarrow> bool" where
  "CheckUnstableUsage d it \<longleftrightarrow>
     parent_deque it = Some (this_ptr d) \<and> created_generation it = generation d"

definition CheckComparable :: "circular_deque_iterator \<Rightarrow> circular_deque_iterator \<Rightarrow> bool" where
  "CheckComparable lhs rhs \<longleftrightarrow>
     parent_deque lhs = parent_deque rhs \<and> created_generation lhs = created_generation rhs"

definition OffsetFromBegin :: "'a circular_deque \<Rightarrow> circular_deque_iterator \<Rightarrow> nat" where
  "OffsetFromBegin d it =
     (if it_index it \<ge> begin_index d then it_index it - begin_index d
      else buffer_capacity d - begin_index d + it_index it)"

definition it_deref :: "'a circular_deque \<Rightarrow> circular_deque_iterator \<Rightarrow> 'a outcome" where
  "it_deref d it =
     dcheck (CheckUnstableUsage d it) (dcheck (CheckValidIndex d (it_index it)) (dq_slot d (it_index it)))"

definition Increment :: "'a circular_deque \<Rightarrow> circular_deque_iterator \<Rightarrow> circular_deque_iterator outcome" where
  "Increment d it =
     dcheck (CheckUnstableUsage d it) (dcheck (CheckValidIndex d (it_index it))
       (let i = it_index it + 1
        in Inr (it\<lparr>it_index := (if i = buffer_capacity d then 0 else i)\<rparr>)))"

definition Decrement :: "'a circular_deque \<Rightarrow> circular_deque_iterator \<Rightarrow> circular_deque_iterator outcome" where
  "Decrement d it =
     dcheck (CheckUnstableUsage d it) (dcheck (CheckValidIndexOrEnd d (it_index it))
       (Inr (it\<lparr>it_index := (if it_index it = 0 then buffer_capacity d - 1 else it_index it - 1)\<rparr>)))"

definition it_Add :: "'a circular_deque \<Rightarrow> int \<Rightarrow> circular_deque_iterator \<Rightarrow> circular_deque_iterator outcome" where
  "it_Add d delta it =
     dcheck (CheckUnstableUsage d it)
      (dcheck (if delta \<le> 0 then CheckValidIndexOrEnd d (it_index it) else CheckValidIndex d (it_index it))
        (if delta = 0 then Inr it
         else
           let new_offset = int (OffsetFromBegin d it) + delta
           in dcheck (new_offset \<ge> 0 \<and> new_offset \<le> int (dq_size d))
                (defined_if (buffer_capacity d \<noteq> 0)
                  (Inr (it\<lparr>it_index := (nat new_offset + begin_index d) mod buffer_capacity d\<rparr>)))))"

definition it_minus :: "'a circular_deque \<Rightarrow> circular_deque_iterator \<Rightarrow> int \<Rightarrow> circular_deque_iterator outcome" where
  "it_minus d it offset = it_Add d (- offset) it"

definition it_subscript :: "'a circular_deque \<Rightarrow> circular_deque_iterator \<Rightarrow> int \<Rightarrow> 'a outcome" where
  "it_subscript d it i = and_then (it_Add d i it) (it_deref d)"

definition it_diff :: "'a circular_deque \<Rightarrow> circular_deque_iterator \<Rightarrow> circular_deque_iterator \<Rightarrow> int outcome" where
  "it_diff d lhs rhs =
     dcheck (CheckComparable lhs rhs) (Inr (int (OffsetFromBegin d lhs) - int (OffsetFromBegin d rhs)))"

definition it_eq :: "circular_deque_iterator \<Rightarrow> circular_deque_iterator \<Rightarrow> bool outcome" where
  "it_eq lhs rhs = dcheck (CheckComparable lhs rhs) (Inr (it_index lhs = it_index rhs))"

definition it_less :: "'a circular_deque \<Rightarrow> circular_deque_iterator \<Rightarrow> circular_deque_iterator \<Rightarrow> bool outcome" where
  "it_less d lhs rhs = dcheck (CheckComparable lhs rhs) (Inr (OffsetFromBegin d lhs < OffsetFromBegin d rhs))"

definition it_greater :: "'a circular_deque \<Rightarrow> circular_deque_iterator \<Rightarrow> circular_deque_iterator \<Rightarrow> bool outcome" where
  "it_greater d lhs rhs = dcheck (CheckComparable lhs rhs) (Inr (OffsetFromBegin d lhs > OffsetFromBegin d rhs))"

definition it_less_equal :: "'a circular_deque \<Rightarrow> circular_deque_iterator \<Rightarrow> circular_deque_iterator \<Rightarrow> bool outcome" where
  "it_less_equal d lhs rhs = map_outcome Not (it_greater d lhs rhs)"

definition it_greater_equal :: "'a circular_deque \<Rightarrow> circular_deque_iterator \<Rightarrow> circular_deque_iterator \<Rightarrow> bool outcome" where
  "it_greater_equal d lhs rhs = map_outcome Not (it_less d lhs rhs)"

definition dq_begin :: "'a circular_deque \<Rightarrow> circular_deque_iterator" where
  "dq_begin d = make_iterator d (begin_index d)"

definition dq_end :: "'a circular_deque \<Rightarrow> circular_deque_iterator" where
  "dq_end d = make_iterator d (end_index d)"

definition ValidateIterator :: "'a circular_deque \<Rightarrow> circular_deque_iterator \<Rightarrow> bool" where
  "ValidateIterator d it \<longleftrightarrow> parent_deque it = Some (this_ptr d) \<and> CheckUnstableUsage d it"

section \<open>Accessors\<close>

definition dq_at :: "'a circular_deque \<Rightarrow> nat \<Rightarrow> 'a outcome" where
  "dq_at d i =
     dcheck (i < dq_size d)
       (let right_size = buffer_capacity d - begin_index d
        in if begin_index d \<le> end_index d \<or> i < right_size then dq_slot d (begin_index d + i)
           else dq_slot d (i - right_size))"

definition dq_front :: "'a circular_deque \<Rightarrow> 'a outcome" where
  "dq_front d = dcheck (\<not> dq_empty d) (dq_slot d (begin_index d))"

definition dq_back :: "'a circular_deque \<Rightarrow> 'a outcome" where
  "dq_back d = dcheck (\<not> dq_empty d) (and_then (Decrement d (dq_end d)) (it_deref d))"

section \<open>Storage\<close>

definition destruct_slots :: "nat \<Rightarrow> nat \<Rightarrow> 'a VectorBuffer \<Rightarrow> 'a VectorBuffer outcome" where
  "destruct_slots i j buf =
     and_then (vb_address buf i) (\<lambda>p. and_then (vb_address buf j) (\<lambda>q. vb_DestructRange p q buf))"

definition dq_DestructRange :: "nat \<Rightarrow> nat \<Rightarrow> 'a circular_deque \<Rightarrow> 'a circular_deque outcome" where
  "dq_DestructRange b e d =
     (if e = b then Inr d
      else if e > b then map_outcome (\<lambda>buf. d\<lparr>buffer := buf\<rparr>) (destruct_slots b e (buffer d))
      else and_then (destruct_slots b (buffer_capacity d) (buffer d)) (\<lambda>buf.
             map_outcome (\<lambda>buf'. d\<lparr>buffer := buf'\<rparr>) (destruct_slots 0 e buf)))"

definition move_slots ::
  "nat \<Rightarrow> nat \<Rightarrow> nat \<Rightarrow> 'a VectorBuffer \<Rightarrow> 'a VectorBuffer \<Rightarrow> ('a VectorBuffer \<times> 'a VectorBuffer) outcome"
where
  "move_slots i j to src dst =
     and_then (vb_address src i) (\<lambda>p. and_then (vb_address src j) (\<lambda>q.
     and_then (vb_address dst to) (\<lambda>r. MoveRange_between p q r src dst)))"

text \<open>The result is the old block, the new block and the indices in the new one.\<close>

definition MoveBuffer ::
  "'a VectorBuffer \<Rightarrow> nat \<Rightarrow> nat \<Rightarrow> 'a VectorBuffer \<Rightarrow>
     ('a VectorBuffer \<times> 'a VectorBuffer \<times> nat \<times> nat) outcome" where
  "MoveBuffer from_buf from_begin from_end to_buf =
     (if from_begin < from_end
      then map_outcome (\<lambda>(src, dst). (src, dst, 0, from_end - from_begin))
             (move_slots from_begin from_end 0 from_buf to_buf)
      else if from_begin > from_end
      then and_then (move_slots from_begin (length from_buf) 0 from_buf to_buf) (\<lambda>(src, dst).
             let right_size = length from_buf - from_begin
             in map_outcome (\<lambda>(src', dst'). (src', dst', 0, right_size + from_end))
                  (move_slots 0 from_end right_size src dst))
      else Inr (from_buf, to_buf, 0, 0))"

definition SetCapacityTo :: "nat \<Rightarrow> 'a circular_deque \<Rightarrow> 'a circular_deque outcome" where
  "SetCapacityTo new_capacity d =
     and_then (MoveBuffer (buffer d) (begin_index d) (end_index d) (VectorBuffer_alloc (new_capacity + 1)))
       (\<lambda>(old, new, b, e). vb_free old (Inr (d\<lparr>buffer := new, begin_index := b, end_index := e\<rparr>)))"

definition ExpandCapacityIfNecessary :: "nat \<Rightarrow> 'a circular_deque \<Rightarrow> 'a circular_deque outcome" where
  "ExpandCapacityIfNecessary additional_elts d =
     (let min_new_capacity = dq_size d + additional_elts
      in if dq_capacity d \<ge> min_new_capacity then Inr d
         else
           let min_new_capacity = max min_new_capacity kCircularBufferInitialCapacity;
               new_capacity = max min_new_capacity (dq_capacity d + dq_capacity d div 4)
           in SetCapacityTo new_capacity d)"

definition ShrinkCapacityIfNecessary :: "'a circular_deque \<Rightarrow> 'a circular_deque outcome" where
  "ShrinkCapacityIfNecessary d =
     (if dq_capacity d \<le> kCircularBufferInitialCapacity then Inr d
      else
        let sz = dq_size d; empty_spaces = dq_capacity d - sz
        in if empty_spaces < sz then Inr d
           else
             let new_capacity = max kCircularBufferInitialCapacity (sz + sz div 4)
             in if new_capacity < dq_capacity d then SetCapacityTo new_capacity d else Inr d)"

definition ClearRetainCapacity :: "'a circular_deque \<Rightarrow> 'a circular_deque outcome" where
  "ClearRetainCapacity d =
     map_outcome (\<lambda>d'. IncrementGeneration (d'\<lparr>begin_index := 0, end_index := 0\<rparr>))
       (dq_DestructRange (begin_index d) (end_index d) d)"

definition dq_reserve :: "nat \<Rightarrow> 'a circular_deque \<Rightarrow> 'a circular_deque outcome" where
  "dq_reserve new_capacity d =
     (if new_capacity > dq_capacity d then SetCapacityTo new_capacity d else Inr d)"

definition shrink_to_fit :: "'a circular_deque \<Rightarrow> 'a circular_deque outcome" where
  "shrink_to_fit d =
     (if dq_empty d
      then if buffer_capacity d \<noteq> 0 then vb_free (buffer d) (Inr (d\<lparr>buffer := []\<rparr>)) else Inr d
      else SetCapacityTo (dq_size d) d)"

definition dq_clear :: "'a circular_deque \<Rightarrow> 'a circular_deque outcome" where
  "dq_clear d =
     and_then (ClearRetainCapacity d) (\<lambda>d'. vb_free (buffer d') (Inr (d'\<lparr>buffer := []\<rparr>)))"

definition dq_destroy :: "'a circular_deque \<Rightarrow> unit outcome" where
  "dq_destroy d =
     and_then (dq_DestructRange (begin_index d) (end_index d) d) (\<lambda>d'. vb_free (buffer d') (Inr ()))"

section \<open>Both ends\<close>

definition construct_slot :: "nat \<Rightarrow> 'a \<Rightarrow> 'a circular_deque \<Rightarrow> 'a circular_deque outcome" where
  "construct_slot i x d =
     and_then (vb_address (buffer d) i) (\<lambda>p.
       map_outcome (\<lambda>buf. d\<lparr>buffer := buf\<rparr>) (vb_construct p x (buffer d)))"

definition destroy_slots :: "nat \<Rightarrow> nat \<Rightarrow> 'a circular_deque \<Rightarrow> 'a circular_deque outcome" where
  "destroy_slots i j d = map_outcome (\<lambda>buf. d\<lparr>buffer := buf\<rparr>) (destruct_slots i j (buffer d))"

definition emplace_front :: "'a \<Rightarrow> 'a circular_deque \<Rightarrow> ('a \<times> 'a circular_deque) outcome" where
  "emplace_front x d =
     and_then (ExpandCapacityIfNecessary 1 d) (\<lambda>d1.
       let d2 = d1\<lparr>begin_index := (if begin_index d1 = 0 then buffer_capacity d1 - 1 else begin_index d1 - 1)\<rparr>
       in and_then (construct_slot (begin_index d2) x (IncrementGeneration d2)) (\<lambda>d3.
            map_outcome (\<lambda>r. (r, d3)) (dq_front d3)))"

definition emplace_back :: "'a \<Rightarrow> 'a circular_deque \<Rightarrow> ('a \<times> 'a circular_deque) outcome" where
  "emplace_back x d =
     and_then (ExpandCapacityIfNecessary 1 d) (\<lambda>d1.
     and_then (construct_slot (end_index d1) x d1) (\<lambda>d2.
       let d3 = IncrementGeneration
             (d2\<lparr>end_index := (if end_index d2 = buffer_capacity d2 - 1 then 0 else end_index d2 + 1)\<rparr>)
       in map_outcome (\<lambda>r. (r, d3)) (dq_back d3)))"

definition push_front :: "'a \<Rightarrow> 'a circular_deque \<Rightarrow> 'a circular_deque outcome" where
  "push_front x d = map_outcome snd (emplace_front x d)"

definition push_back :: "'a \<Rightarrow> 'a circular_deque \<Rightarrow> 'a circular_deque outcome" where
  "push_back x d = map_outcome snd (emplace_back x d)"

definition pop_front :: "'a circular_deque \<Rightarrow> 'a circular_deque outcome" where
  "pop_front d =
     dcheck (dq_size d \<noteq> 0)
      (and_then (destroy_slots (begin_index d) (begin_index d + 1) d) (\<lambda>d1.
       let b = begin_index d1 + 1;
           d2 = d1\<lparr>begin_index := (if b = buffer_capacity d1 then 0 else b)\<rparr>
       in map_outcome IncrementGeneration (ShrinkCapacityIfNecessary d2)))"

definition pop_back :: "'a circular_deque \<Rightarrow> 'a circular_deque outcome" where
  "pop_back d =
     dcheck (dq_size d \<noteq> 0)
      (let d1 = d\<lparr>end_index := (if end_index d = 0 then buffer_capacity d - 1 else end_index d - 1)\<rparr>
       in and_then (destroy_slots (end_index d1) (end_index d1 + 1) d1) (\<lambda>d2.
            map_outcome IncrementGeneration (ShrinkCapacityIfNecessary d2)))"

section \<open>Size, assignment and copies\<close>

text \<open>The loop that appends while the deque is short of \<open>count\<close> elements.\<close>

fun append_until :: "nat \<Rightarrow> nat \<Rightarrow> 'a \<Rightarrow> 'a circular_deque \<Rightarrow> 'a circular_deque outcome" where
  "append_until fuel count x d =
     (if dq_size d < count
      then (case fuel of 0 \<Rightarrow> Inl Out_of_fuel
            | Suc fuel' \<Rightarrow> and_then (push_back x d) (append_until fuel' count x))
      else Inr d)"

declare append_until.simps [simp del]

definition resize_value :: "nat \<Rightarrow> 'a \<Rightarrow> 'a circular_deque \<Rightarrow> 'a circular_deque outcome" where
  "resize_value count x d =
     map_outcome IncrementGeneration
      (if count > dq_size d
       then and_then (ExpandCapacityIfNecessary (count - dq_size d) d) (append_until count count x)
       else if count < dq_size d
       then defined_if (buffer_capacity d \<noteq> 0)
         (let new_end = (begin_index d + count) mod buffer_capacity d
          in and_then (dq_DestructRange new_end (end_index d) d) (\<lambda>d1.
               ShrinkCapacityIfNecessary (d1\<lparr>end_index := new_end\<rparr>)))
       else Inr d)"

text \<open>The overload without a value appends objects that the default constructor makes.\<close>

definition dq_resize :: "'a \<Rightarrow> nat \<Rightarrow> 'a circular_deque \<Rightarrow> 'a circular_deque outcome" where
  "dq_resize default_constructed count d =
     map_outcome IncrementGeneration
      (if count > dq_size d
       then and_then (ExpandCapacityIfNecessary (count - dq_size d) d)
              (append_until count count default_constructed)
       else if count < dq_size d
       then defined_if (buffer_capacity d \<noteq> 0)
         (let new_end = (begin_index d + count) mod buffer_capacity d
          in and_then (dq_DestructRange new_end (end_index d) d) (\<lambda>d1.
               ShrinkCapacityIfNecessary (d1\<lparr>end_index := new_end\<rparr>)))
       else Inr d)"

fun append_all :: "'a list \<Rightarrow> 'a circular_deque \<Rightarrow> 'a circular_deque outcome" where
  "append_all [] d = Inr d"
| "append_all (x # xs) d = and_then (push_back x d) (append_all xs)"

definition assign_count :: "nat \<Rightarrow> 'a \<Rightarrow> 'a circular_deque \<Rightarrow> 'a circular_deque outcome" where
  "assign_count count x d =
     and_then (ClearRetainCapacity d) (\<lambda>d1.
     and_then (dq_reserve count d1) (\<lambda>d2.
       map_outcome IncrementGeneration (append_all (replicate count x) d2)))"

definition assign_range :: "'a list \<Rightarrow> 'a circular_deque \<Rightarrow> 'a circular_deque outcome" where
  "assign_range xs d =
     and_then (ClearRetainCapacity d) (\<lambda>d1. map_outcome IncrementGeneration (append_all xs d1))"

definition assign_list :: "'a list \<Rightarrow> 'a circular_deque \<Rightarrow> 'a circular_deque outcome" where
  "assign_list xs d = and_then (dq_reserve (length xs) d) (assign_range xs)"

text \<open>The elements between two iterators, as a loop over them reads them.\<close>

fun iterate :: "nat \<Rightarrow> 'a circular_deque \<Rightarrow> circular_deque_iterator \<Rightarrow> circular_deque_iterator \<Rightarrow> 'a list outcome" where
  "iterate fuel d it last_it =
     and_then (it_eq it last_it) (\<lambda>eq.
       if eq then Inr []
       else case fuel of 0 \<Rightarrow> Inl Out_of_fuel
         | Suc fuel' \<Rightarrow>
             and_then (it_deref d it) (\<lambda>x.
             and_then (Increment d it) (\<lambda>it'.
               map_outcome (Cons x) (iterate fuel' d it' last_it))))"

declare iterate.simps [simp del]

definition read_elements :: "'a circular_deque \<Rightarrow> 'a list outcome" where
  "read_elements d = iterate (buffer_capacity d) d (dq_begin d) (dq_end d)"

definition circular_deque_count :: "nat \<Rightarrow> nat \<Rightarrow> 'a \<Rightarrow> 'a circular_deque outcome" where
  "circular_deque_count ptr count x = resize_value count x (circular_deque_default ptr)"

definition circular_deque_range :: "nat \<Rightarrow> 'a list \<Rightarrow> 'a circular_deque outcome" where
  "circular_deque_range ptr xs = assign_range xs (circular_deque_default ptr)"

definition circular_deque_copy :: "nat \<Rightarrow> 'a circular_deque \<Rightarrow> 'a circular_deque outcome" where
  "circular_deque_copy ptr other =
     and_then (read_elements other) (\<lambda>xs.
       assign_range xs ((circular_deque_default ptr)\<lparr>buffer := VectorBuffer_alloc (dq_size other + 1)\<rparr>))"

definition circular_deque_move :: "nat \<Rightarrow> 'a circular_deque \<Rightarrow> 'a circular_deque \<times> 'a circular_deque" where
  "circular_deque_move ptr other =
     ((circular_deque_default ptr)\<lparr>buffer := buffer other, begin_index := begin_index other,
        end_index := end_index other\<rparr>,
      other\<lparr>buffer := [], begin_index := 0, end_index := 0\<rparr>)"

definition copy_assign :: "'a circular_deque \<Rightarrow> 'a circular_deque \<Rightarrow> 'a circular_deque outcome" where
  "copy_assign d other =
     (if this_ptr other = this_ptr d then Inr d
      else and_then (dq_reserve (dq_size other) d) (\<lambda>d1.
             and_then (read_elements other) (\<lambda>xs. assign_range xs d1)))"

definition move_assign ::
  "'a circular_deque \<Rightarrow> 'a circular_deque \<Rightarrow> ('a circular_deque \<times> 'a circular_deque) outcome" where
  "move_assign d other =
     (if this_ptr other = this_ptr d then Inr (d, other)
      else and_then (ClearRetainCapacity d) (\<lambda>d1.
        vb_free (buffer d1)
          (Inr (IncrementGeneration
                  (d1\<lparr>buffer := buffer other, begin_index := begin_index other, end_index := end_index other\<rparr>),
                other\<lparr>buffer := [], begin_index := 0, end_index := 0\<rparr>))))"

definition dq_swap :: "'a circular_deque \<Rightarrow> 'a circular_deque \<Rightarrow> 'a circular_deque \<times> 'a circular_deque" where
  "dq_swap d other =
     (IncrementGeneration
        (d\<lparr>buffer := buffer other, begin_index := begin_index other, end_index := end_index other\<rparr>),
      other\<lparr>buffer := buffer d, begin_index := begin_index d, end_index := end_index d\<rparr>)"

section \<open>Insertion and erasure\<close>

definition move_slot :: "nat \<Rightarrow> nat \<Rightarrow> 'a circular_deque \<Rightarrow> 'a circular_deque outcome" where
  "move_slot i j d =
     and_then (vb_address (buffer d) i) (\<lambda>p. and_then (vb_address (buffer d) (i + 1)) (\<lambda>q.
     and_then (vb_address (buffer d) j) (\<lambda>r.
       map_outcome (\<lambda>buf. d\<lparr>buffer := buf\<rparr>) (MoveRange p q r (buffer d)))))"

fun shift_right :: "nat \<Rightarrow> circular_deque_iterator \<Rightarrow> circular_deque_iterator \<Rightarrow> circular_deque_iterator \<Rightarrow>
    'a circular_deque \<Rightarrow> 'a circular_deque outcome" where
  "shift_right fuel insert_begin src dest d =
     and_then (it_eq src insert_begin) (\<lambda>eq.
       if eq then Inr d
       else case fuel of 0 \<Rightarrow> Inl Out_of_fuel
         | Suc fuel' \<Rightarrow>
             and_then (Decrement d src) (\<lambda>src'.
             and_then (Decrement d dest) (\<lambda>dest'.
             and_then (move_slot (it_index src') (it_index dest') d)
               (shift_right fuel' insert_begin src' dest'))))"

declare shift_right.simps [simp del]

text \<open>The result is the deque and the two ends of the hole.\<close>

definition MakeRoomFor :: "nat \<Rightarrow> circular_deque_iterator \<Rightarrow> 'a circular_deque \<Rightarrow>
    ('a circular_deque \<times> circular_deque_iterator \<times> circular_deque_iterator) outcome" where
  "MakeRoomFor count insert_begin d =
     (if count = 0 then Inr (d, insert_begin, insert_begin)
      else
        let begin_offset = OffsetFromBegin d insert_begin
        in and_then (ExpandCapacityIfNecessary count d) (\<lambda>d1.
             defined_if (buffer_capacity d1 \<noteq> 0)
              (let insert_begin' = insert_begin\<lparr>it_index := (begin_index d1 + begin_offset) mod buffer_capacity d1\<rparr>;
                   insert_end = make_iterator d1 ((it_index insert_begin' + count) mod buffer_capacity d1);
                   src = dq_end d1;
                   d2 = d1\<lparr>end_index := (end_index d1 + count) mod buffer_capacity d1\<rparr>;
                   dest = dq_end d2
               in map_outcome (\<lambda>d3. (d3, insert_begin', insert_end))
                    (shift_right (buffer_capacity d2) insert_begin' src dest d2))))"

text \<open>The loop that constructs copies of the given elements in the hole.\<close>

fun fill_hole :: "'a list \<Rightarrow> circular_deque_iterator \<Rightarrow> circular_deque_iterator \<Rightarrow> 'a circular_deque \<Rightarrow>
    'a circular_deque outcome" where
  "fill_hole xs insert_cur insert_end d =
     and_then (it_less d insert_cur insert_end) (\<lambda>less.
       if \<not> less then Inr d
       else case xs of [] \<Rightarrow> Inl Out_of_fuel
         | x # xs' \<Rightarrow>
             and_then (construct_slot (it_index insert_cur) x d) (\<lambda>d1.
             and_then (Increment d1 insert_cur) (\<lambda>cur. fill_hole xs' cur insert_end d1)))"

declare fill_hole.simps [simp del]

fun push_front_times :: "nat \<Rightarrow> 'a \<Rightarrow> 'a circular_deque \<Rightarrow> 'a circular_deque outcome" where
  "push_front_times 0 x d = Inr d"
| "push_front_times (Suc n) x d = and_then (push_front x d) (push_front_times n x)"

definition insert_count ::
  "circular_deque_iterator \<Rightarrow> nat \<Rightarrow> 'a \<Rightarrow> 'a circular_deque \<Rightarrow> 'a circular_deque outcome" where
  "insert_count pos count x d =
     dcheck (ValidateIterator d pos)
      (and_then (it_eq pos (dq_begin d)) (\<lambda>eq.
        if eq then and_then (ExpandCapacityIfNecessary count d) (push_front_times count x)
        else and_then (MakeRoomFor count (make_iterator d (it_index pos)) d) (\<lambda>(d1, insert_cur, insert_end).
               map_outcome IncrementGeneration
                 (fill_hole (replicate count x) insert_cur insert_end d1))))"

definition insert_range ::
  "circular_deque_iterator \<Rightarrow> 'a list \<Rightarrow> 'a circular_deque \<Rightarrow> 'a circular_deque outcome" where
  "insert_range pos xs d =
     dcheck (ValidateIterator d pos)
      (let inserted_items = length xs
       in if inserted_items = 0 then Inr d
          else and_then (it_eq pos (dq_begin d)) (\<lambda>eq.
            and_then
              (if eq
               then and_then (ExpandCapacityIfNecessary inserted_items d) (\<lambda>d1.
                      defined_if (buffer_capacity d1 \<noteq> 0)
                       (let insert_end = dq_begin d1;
                            d2 = d1\<lparr>begin_index :=
                              (begin_index d1 + buffer_capacity d1 - inserted_items) mod buffer_capacity d1\<rparr>
                        in Inr (d2, dq_begin d2, insert_end)))
               else MakeRoomFor inserted_items (make_iterator d (it_index pos)) d)
              (\<lambda>(d1, insert_cur, insert_end).
                map_outcome IncrementGeneration (fill_hole xs insert_cur insert_end d1))))"

definition emplace ::
  "circular_deque_iterator \<Rightarrow> 'a \<Rightarrow> 'a circular_deque \<Rightarrow> (circular_deque_iterator \<times> 'a circular_deque) outcome" where
  "emplace pos x d =
     dcheck (ValidateIterator d pos)
      (and_then (it_eq pos (dq_begin d)) (\<lambda>eq.
        if eq then map_outcome (\<lambda>(r, d1). (dq_begin d1, d1)) (emplace_front x d)
        else
          let d1 = IncrementGeneration d
          in and_then (MakeRoomFor 1 (make_iterator d1 (it_index pos)) d1) (\<lambda>(d2, insert_begin, insert_end).
               map_outcome (Pair insert_begin) (construct_slot (it_index insert_begin) x d2))))"

fun shift_left :: "nat \<Rightarrow> circular_deque_iterator \<Rightarrow> circular_deque_iterator \<Rightarrow> circular_deque_iterator \<Rightarrow>
    'a circular_deque \<Rightarrow> (circular_deque_iterator \<times> 'a circular_deque) outcome" where
  "shift_left fuel move_src move_src_end move_dest d =
     and_then (it_less d move_src move_src_end) (\<lambda>less.
       if \<not> less then Inr (move_dest, d)
       else case fuel of 0 \<Rightarrow> Inl Out_of_fuel
         | Suc fuel' \<Rightarrow>
             and_then (move_slot (it_index move_src) (it_index move_dest) d) (\<lambda>d1.
             and_then (Increment d1 move_src) (\<lambda>src'.
             and_then (Increment d1 move_dest) (\<lambda>dest'.
               shift_left fuel' src' move_src_end dest' d1))))"

declare shift_left.simps [simp del]

definition erase_range :: "circular_deque_iterator \<Rightarrow> circular_deque_iterator \<Rightarrow> 'a circular_deque \<Rightarrow>
    (circular_deque_iterator \<times> 'a circular_deque) outcome" where
  "erase_range first_it last_it d =
     dcheck (ValidateIterator d first_it) (dcheck (ValidateIterator d last_it)
      (let i = it_index first_it; j = it_index last_it; d1 = IncrementGeneration d
       in if i = j then Inr (make_iterator d1 i, d1)
          else and_then
            (if i < j then destroy_slots i j d1
             else and_then (destroy_slots i (buffer_capacity d1) d1) (destroy_slots 0 j))
            (\<lambda>d2.
              if i = begin_index d2
              then let d3 = d2\<lparr>begin_index := j\<rparr> in Inr (make_iterator d3 j, d3)
              else and_then
                (shift_left (buffer_capacity d2) (make_iterator d2 j) (dq_end d2) (make_iterator d2 i) d2)
                (\<lambda>(move_dest, d3).
                  let d4 = d3\<lparr>end_index := it_index move_dest\<rparr> in Inr (make_iterator d4 i, d4)))))"

definition erase_one :: "circular_deque_iterator \<Rightarrow> 'a circular_deque \<Rightarrow>
    (circular_deque_iterator \<times> 'a circular_deque) outcome" where
  "erase_one pos d = and_then (it_Add d 1 pos) (\<lambda>next_it. erase_range pos next_it d)"

end
