(* ===== verification/Deque_Spec.thy ===== *)
theory Deque_Spec
  imports Circular_Deque
begin

text \<open>
  The circular deque as a list.  \<open>holds d xs\<close> says that the ring of \<open>d\<close> holds exactly the elements
  \<open>xs\<close> from its begin index on and no other live object.  Every operation is shown to succeed on
  such a deque and to act on the list as its documentation says.
\<close>

section \<open>The ring\<close>

text \<open>Slot of an offset from the begin index, and offset of a slot.\<close>

definition idx :: "nat \<Rightarrow> nat \<Rightarrow> nat \<Rightarrow> nat" where
  "idx b cap k = (if b + k < cap then b + k else b + k - cap)"

definition off :: "nat \<Rightarrow> nat \<Rightarrow> nat \<Rightarrow> nat" where
  "off b cap i = (if b \<le> i then i - b else cap - b + i)"

definition slot :: "'a list \<Rightarrow> nat \<Rightarrow> 'a option" where
  "slot xs k = (if k < length xs then Some (xs ! k) else None)"

definition holds :: "'a circular_deque \<Rightarrow> 'a list \<Rightarrow> bool" where
  "holds d xs \<longleftrightarrow>
     buffer d = [] \<and> xs = [] \<and> begin_index d = end_index d \<or>
     length xs < buffer_capacity d \<and> begin_index d < buffer_capacity d \<and>
     end_index d = idx (begin_index d) (buffer_capacity d) (length xs) \<and>
     (\<forall>i < buffer_capacity d. buffer d ! i = slot xs (off (begin_index d) (buffer_capacity d) i))"

definition same_identity :: "'a circular_deque \<Rightarrow> 'a circular_deque \<Rightarrow> bool" where
  "same_identity d d' \<longleftrightarrow> this_ptr d' = this_ptr d \<and> generation d' = generation d"

named_theorems ring_simps "index arithmetic of the ring"

lemma idx_mod: "b < cap \<Longrightarrow> k \<le> cap \<Longrightarrow> (b + k) mod cap = idx b cap k"
  by (auto simp: idx_def mod_if)

lemma idx_less [ring_simps]: "b < cap \<Longrightarrow> k \<le> cap \<Longrightarrow> idx b cap k < cap"
  by (auto simp: idx_def)

lemma idx_le [ring_simps]: "b < cap \<Longrightarrow> k \<le> cap \<Longrightarrow> idx b cap k \<le> cap"
  by (auto simp: idx_def)

lemma off_idx [ring_simps]: "b < cap \<Longrightarrow> k < cap \<Longrightarrow> off b cap (idx b cap k) = k"
  by (auto simp: idx_def off_def)

lemma idx_off [ring_simps]: "b < cap \<Longrightarrow> i < cap \<Longrightarrow> idx b cap (off b cap i) = i"
  by (auto simp: idx_def off_def)

lemma off_less [ring_simps]: "b < cap \<Longrightarrow> i < cap \<Longrightarrow> off b cap i < cap"
  by (auto simp: off_def)

lemma idx_inject [ring_simps]: "b < cap \<Longrightarrow> j < cap \<Longrightarrow> k < cap \<Longrightarrow> idx b cap j = idx b cap k \<longleftrightarrow> j = k"
  by (metis off_idx)

lemma idx_zero [simp]: "b < cap \<Longrightarrow> idx b cap 0 = b"
  by (simp add: idx_def)

lemma idx_from_zero [simp]: "k < cap \<Longrightarrow> idx 0 cap k = k"
  by (simp add: idx_def)

lemma off_from_zero [simp]: "off 0 cap i = i"
  by (simp add: off_def)

lemma slot_Some [simp]: "k < length xs \<Longrightarrow> slot xs k = Some (xs ! k)"
  by (simp add: slot_def)

lemma slot_None [simp]: "length xs \<le> k \<Longrightarrow> slot xs k = None"
  by (simp add: slot_def)

lemma slot_eq_None [simp]: "slot xs k = None \<longleftrightarrow> length xs \<le> k"
  by (auto simp: slot_def)

lemma holdsI:
  assumes "length xs < buffer_capacity d" "begin_index d < buffer_capacity d"
    and "end_index d = idx (begin_index d) (buffer_capacity d) (length xs)"
    and "\<And>i. i < buffer_capacity d \<Longrightarrow> buffer d ! i = slot xs (off (begin_index d) (buffer_capacity d) i)"
  shows "holds d xs"
  using assms by (simp add: holds_def)

lemma holds_cases:
  assumes "holds d xs"
  obtains (no_block) "buffer d = []" "xs = []" "begin_index d = end_index d"
  | (in_ring) "length xs < buffer_capacity d" "begin_index d < buffer_capacity d"
      "end_index d = idx (begin_index d) (buffer_capacity d) (length xs)"
      "\<And>i. i < buffer_capacity d \<Longrightarrow> buffer d ! i = slot xs (off (begin_index d) (buffer_capacity d) i)"
  using assms by (auto simp: holds_def)

lemma holds_nonempty:
  assumes "holds d xs" "xs \<noteq> []"
  shows "length xs < buffer_capacity d" "begin_index d < buffer_capacity d"
    "end_index d = idx (begin_index d) (buffer_capacity d) (length xs)"
    "\<And>i. i < buffer_capacity d \<Longrightarrow> buffer d ! i = slot xs (off (begin_index d) (buffer_capacity d) i)"
  using assms by (auto simp: holds_def)

lemma holds_size:
  assumes "holds d xs"
  shows "dq_size d = length xs"
  using assms by (cases rule: holds_cases) (auto simp: dq_size_def idx_def)

lemma holds_empty:
  assumes "holds d xs"
  shows "dq_empty d \<longleftrightarrow> xs = []"
  using assms by (cases rule: holds_cases) (auto simp: dq_empty_def idx_def split: if_splits)

lemma holds_unique:
  assumes "holds d xs" "holds d ys"
  shows "xs = ys"
proof (rule nth_equalityI)
  show len: "length xs = length ys" using holds_size [OF assms(1)] holds_size [OF assms(2)] by simp
  fix k assume k: "k < length xs"
  let ?cap = "buffer_capacity d" and ?b = "begin_index d"
  have ne: "xs \<noteq> []" "ys \<noteq> []" using k len by auto
  note x = holds_nonempty [OF assms(1) ne(1)]
  have "idx ?b ?cap k < ?cap" using x k by (intro idx_less) auto
  from x(4) [OF this] holds_nonempty(4) [OF assms(2) ne(2) this] x(1,2) k len
  show "xs ! k = ys ! k" by (simp add: off_idx)
qed

text \<open>The begin and end indices span \<open>n\<close> slots; their contents are left open.\<close>

definition spans :: "'a circular_deque \<Rightarrow> nat \<Rightarrow> bool" where
  "spans d n \<longleftrightarrow> n < buffer_capacity d \<and> begin_index d < buffer_capacity d \<and>
     end_index d = idx (begin_index d) (buffer_capacity d) n"

lemma holds_spans: "holds d xs \<Longrightarrow> buffer d \<noteq> [] \<Longrightarrow> spans d (length xs)"
  by (auto simp: holds_def spans_def)

lemma holds_spans_nonempty: "holds d xs \<Longrightarrow> xs \<noteq> [] \<Longrightarrow> spans d (length xs)"
  by (auto simp: holds_def spans_def)

lemma spans_block: "spans d n \<Longrightarrow> buffer d \<noteq> []"
  by (auto simp: spans_def)

lemma spans_valid_index:
  "spans d n \<Longrightarrow> CheckValidIndex d i \<longleftrightarrow>
     i < buffer_capacity d \<and> off (begin_index d) (buffer_capacity d) i < n"
  by (auto simp: spans_def CheckValidIndex_def idx_def off_def split: if_splits)

lemma spans_valid_index_or_end:
  assumes "spans d n" "i < buffer_capacity d"
  shows "CheckValidIndexOrEnd d i \<longleftrightarrow> off (begin_index d) (buffer_capacity d) i \<le> n"
proof -
  have s: "n < buffer_capacity d" "begin_index d < buffer_capacity d"
    "end_index d = idx (begin_index d) (buffer_capacity d) n" using assms(1) by (auto simp: spans_def)
  then show ?thesis
    using assms idx_off [OF s(2) assms(2)] off_idx [OF s(2,1)]
    by (auto simp: CheckValidIndexOrEnd_def spans_valid_index [OF assms(1)] order_le_less)
qed

lemma holds_slot:
  assumes "holds d xs" "k < length xs"
  shows "dq_slot d (idx (begin_index d) (buffer_capacity d) k) = Inr (xs ! k)"
proof -
  have "xs \<noteq> []" using assms(2) by auto
  note h = holds_nonempty [OF assms(1) this]
  show ?thesis using h assms(2) by (simp add: dq_slot_def vb_access ring_simps)
qed

section \<open>Accessors and iterators\<close>

lemma dq_at_ok:
  assumes "holds d xs"
  shows "dq_at d k = (if k < length xs then Inr (xs ! k) else Inl Dcheck_failed)"
proof (cases "k < length xs")
  case True
  then have "xs \<noteq> []" by auto
  note h = holds_nonempty [OF assms this]
  have "(if begin_index d \<le> end_index d \<or> k < buffer_capacity d - begin_index d then begin_index d + k
         else k - (buffer_capacity d - begin_index d)) = idx (begin_index d) (buffer_capacity d) k"
    using h(1-3) True by (auto simp: idx_def split: if_splits)
  then have "dq_at d k = dq_slot d (idx (begin_index d) (buffer_capacity d) k)"
    using True by (auto simp: dq_at_def holds_size [OF assms] Let_def)
  then show ?thesis using True holds_slot [OF assms True] by simp
qed (simp add: dq_at_def holds_size [OF assms])

lemma dq_front_ok:
  assumes "holds d xs"
  shows "dq_front d = (if xs = [] then Inl Dcheck_failed else Inr (hd xs))"
  using holds_slot [OF assms, of 0] holds_nonempty(2) [OF assms]
  by (auto simp: dq_front_def holds_empty [OF assms] hd_conv_nth)

text \<open>The iterator at an offset.\<close>

definition iter_at :: "'a circular_deque \<Rightarrow> nat \<Rightarrow> circular_deque_iterator" where
  "iter_at d k = make_iterator d (if buffer d = [] then end_index d else idx (begin_index d) (buffer_capacity d) k)"

lemma iter_at_simps [simp]:
  "parent_deque (iter_at d k) = Some (this_ptr d)" "created_generation (iter_at d k) = generation d"
  "CheckUnstableUsage d (iter_at d k)" "CheckComparable (iter_at d k) (iter_at d j)"
  "ValidateIterator d (iter_at d k)"
  by (simp_all add: iter_at_def make_iterator_def CheckUnstableUsage_def CheckComparable_def ValidateIterator_def)

lemma dq_begin_is: "holds d xs \<Longrightarrow> dq_begin d = iter_at d 0"
  by (cases rule: holds_cases) (auto simp: dq_begin_def iter_at_def)

lemma dq_end_is: "holds d xs \<Longrightarrow> dq_end d = iter_at d (length xs)"
  by (cases rule: holds_cases) (auto simp: dq_end_def iter_at_def)

lemma it_index_iter_at:
  "buffer d \<noteq> [] \<Longrightarrow> it_index (iter_at d k) = idx (begin_index d) (buffer_capacity d) k"
  by (simp add: iter_at_def make_iterator_def)

lemma OffsetFromBegin_is_off:
  "OffsetFromBegin d it = off (begin_index d) (buffer_capacity d) (it_index it)"
  by (simp add: OffsetFromBegin_def off_def)

lemma spans_offset:
  assumes "spans d n" "k \<le> n"
  shows "OffsetFromBegin d (iter_at d k) = k"
  using assms spans_block [OF assms(1)]
  by (simp add: spans_def OffsetFromBegin_is_off it_index_iter_at ring_simps)

lemma spans_it_eq:
  assumes "spans d n" "j \<le> n" "k \<le> n"
  shows "it_eq (iter_at d j) (iter_at d k) = Inr (j = k)"
  using assms spans_block [OF assms(1)]
  by (simp add: it_eq_def spans_def it_index_iter_at ring_simps)

lemma spans_it_less:
  assumes "spans d n" "j \<le> n" "k \<le> n"
  shows "it_less d (iter_at d j) (iter_at d k) = Inr (j < k)"
  using assms by (simp add: it_less_def spans_offset)

lemma spans_Increment:
  assumes "spans d n" "k < n"
  shows "Increment d (iter_at d k) = Inr (iter_at d (Suc k))"
proof -
  have s: "n < buffer_capacity d" "begin_index d < buffer_capacity d" using assms(1) by (auto simp: spans_def)
  have "(let i = idx (begin_index d) (buffer_capacity d) k + 1 in if i = buffer_capacity d then 0 else i) =
      idx (begin_index d) (buffer_capacity d) (Suc k)"
    using s assms(2) by (auto simp: idx_def Let_def)
  then show ?thesis
    using spans_block [OF assms(1)] s assms(2)
    by (simp add: Increment_def spans_valid_index [OF assms(1)] ring_simps Let_def iter_at_def make_iterator_def
        CheckUnstableUsage_def)
qed

lemma spans_Decrement:
  assumes "spans d n" "0 < k" "k \<le> n"
  shows "Decrement d (iter_at d k) = Inr (iter_at d (k - 1))"
proof -
  have s: "n < buffer_capacity d" "begin_index d < buffer_capacity d" using assms(1) by (auto simp: spans_def)
  have "(if idx (begin_index d) (buffer_capacity d) k = 0 then buffer_capacity d - 1
         else idx (begin_index d) (buffer_capacity d) k - 1) = idx (begin_index d) (buffer_capacity d) (k - 1)"
    using s assms(2,3) by (auto simp: idx_def)
  moreover have "CheckValidIndexOrEnd d (idx (begin_index d) (buffer_capacity d) k)"
    using s assms(3) by (subst spans_valid_index_or_end [OF assms(1)]) (auto simp: ring_simps)
  ultimately show ?thesis
    using spans_block [OF assms(1)]
    by (auto simp: Decrement_def iter_at_def make_iterator_def CheckUnstableUsage_def split: if_splits)
qed

lemma it_eq_ok:
  assumes "holds d xs" "j \<le> length xs" "k \<le> length xs"
  shows "it_eq (iter_at d j) (iter_at d k) = Inr (j = k)"
proof (cases "xs = []")
  case True
  then show ?thesis using assms(2,3) by (simp add: it_eq_def)
qed (use spans_it_eq [OF holds_spans_nonempty [OF assms(1)]] assms in blast)

lemma it_deref_ok:
  assumes "holds d xs" "k < length xs"
  shows "it_deref d (iter_at d k) = Inr (xs ! k)"
proof -
  have "xs \<noteq> []" using assms(2) by auto
  note sp = holds_spans_nonempty [OF assms(1) this]
  have "begin_index d < buffer_capacity d" "length xs < buffer_capacity d" using sp by (auto simp: spans_def)
  then show ?thesis
    using spans_block [OF sp] assms(2) holds_slot [OF assms]
    by (simp add: it_deref_def it_index_iter_at spans_valid_index [OF sp] ring_simps)
qed

lemma dq_back_ok:
  assumes "holds d xs"
  shows "dq_back d = (if xs = [] then Inl Dcheck_failed else Inr (last xs))"
proof (cases "xs = []")
  case False
  then show ?thesis
    using spans_Decrement [OF holds_spans_nonempty [OF assms False], of "length xs"] it_deref_ok [OF assms, of "length xs - 1"]
    by (simp add: dq_back_def holds_empty [OF assms] dq_end_is [OF assms] last_conv_nth)
qed (simp add: dq_back_def holds_empty [OF assms])

section \<open>Storage\<close>

lemma destruct_slots_ok:
  assumes "i \<le> j" "j \<le> length buf" "\<And>k. i \<le> k \<Longrightarrow> k < j \<Longrightarrow> buf ! k \<noteq> None"
  shows "destruct_slots i j buf = Inr (blank i j buf)"
  using assms by (simp add: destruct_slots_def vb_address_def vb_DestructRange_ok)

lemma move_slots_ok:
  assumes "i \<le> j" "j \<le> length src" "\<And>k. i \<le> k \<Longrightarrow> k < j \<Longrightarrow> src ! k \<noteq> None"
    and "to + (j - i) \<le> length dst" "\<And>k. to \<le> k \<Longrightarrow> k < to + (j - i) \<Longrightarrow> dst ! k = None"
  shows "move_slots i j to src dst = Inr (blank i j src, paste to (take (j - i) (drop i src)) dst)"
proof -
  have "i \<le> length src" "to \<le> length dst" using assms(1,2,4) by auto
  then show ?thesis
    using assms(2) MoveRange_between_ok [OF assms] by (simp add: move_slots_def vb_address_def)
qed

text \<open>Destroying the elements from offset \<open>p\<close> up to offset \<open>q\<close>, which may wrap around.\<close>

lemma dq_DestructRange_ok:
  assumes h: "length xs < buffer_capacity d" "begin_index d < buffer_capacity d"
      "\<And>i. i < buffer_capacity d \<Longrightarrow> buffer d ! i = slot xs (off (begin_index d) (buffer_capacity d) i)"
    and pq: "p \<le> q" "q \<le> length xs"
  shows "\<exists>buf. dq_DestructRange (idx (begin_index d) (buffer_capacity d) p) (idx (begin_index d) (buffer_capacity d) q) d =
      Inr (d\<lparr>buffer := buf\<rparr>) \<and> length buf = buffer_capacity d \<and>
    (\<forall>i < buffer_capacity d. buf ! i =
      (if p \<le> off (begin_index d) (buffer_capacity d) i \<and> off (begin_index d) (buffer_capacity d) i < q
       then None else buffer d ! i))"
    (is "\<exists>buf. ?R buf \<and> _ \<and> ?P buf")
proof -
  let ?b = "begin_index d" and ?cap = "buffer_capacity d"
  let ?i = "idx ?b ?cap p" and ?j = "idx ?b ?cap q"
  have cap: "p < ?cap" "q < ?cap" using pq h(1) by auto
  have live: "buffer d ! i \<noteq> None" if "i < ?cap" "off ?b ?cap i < q" for i
    using h(3) that pq by simp
  consider "p = q" | "?i < ?j" | "?j < ?i" "p < q"
    using idx_inject [OF h(2) cap] pq(1) by linarith
  then show ?thesis
  proof cases
    case 1
    then have "?R (buffer d)" "?P (buffer d)" by (auto simp: dq_DestructRange_def)
    then show ?thesis by blast
  next
    case 2
    have d: "destruct_slots ?i ?j (buffer d) = Inr (blank ?i ?j (buffer d))"
      using 2 cap h(1,2) pq
      by (intro destruct_slots_ok live) (auto simp: idx_def off_def split: if_splits)
    have "?R (blank ?i ?j (buffer d))" using 2 by (simp add: dq_DestructRange_def d)
    moreover have "?P (blank ?i ?j (buffer d))"
      using 2 cap h(1,2) pq by (auto simp: idx_def off_def split: if_splits)
    ultimately show ?thesis by (intro exI [of _ "blank ?i ?j (buffer d)"]) simp
  next
    case 3
    let ?m = "blank ?i ?cap (buffer d)"
    have d: "destruct_slots ?i ?cap (buffer d) = Inr ?m"
      using 3 cap h(1,2) pq
      by (intro destruct_slots_ok live) (auto simp: idx_def off_def split: if_splits)
    have e: "destruct_slots 0 ?j ?m = Inr (blank 0 ?j ?m)"
    proof (rule destruct_slots_ok)
      fix k assume k: "k < ?j"
      have "k < ?cap" "off ?b ?cap k < q" using k cap h(1,2) 3 by (auto simp: idx_def off_def split: if_splits)
      from live [OF this] show "?m ! k \<noteq> None" using k 3 \<open>k < ?cap\<close> by simp
    qed (use cap h(2) idx_less [OF h(2), of q] in auto)
    have "?R (blank 0 ?j ?m)" using 3 by (simp add: dq_DestructRange_def d e)
    moreover have "?P (blank 0 ?j ?m)"
      using 3 cap h(1,2) pq by (auto simp: idx_def off_def split: if_splits)
    ultimately show ?thesis by (intro exI [of _ "blank 0 ?j ?m"]) simp
  qed
qed

text \<open>Reallocation: the elements go to the front of a fresh block, and the old block is left empty.\<close>

lemma MoveBuffer_ok:
  assumes h: "length xs < length buf" "b < length buf" "e = idx b (length buf) (length xs)"
      "\<And>i. i < length buf \<Longrightarrow> buf ! i = slot xs (off b (length buf) i)"
    and n: "length xs \<le> n"
  shows "\<exists>old new. MoveBuffer buf b e (VectorBuffer_alloc n) = Inr (old, new, 0, length xs) \<and>
    length new = n \<and> (\<forall>i < n. new ! i = slot xs i) \<and> list_all (\<lambda>s. s = None) old"
proof -
  let ?cap = "length buf" and ?dst = "replicate n None"
  have live: "buf ! i \<noteq> None" if "i < ?cap" "off b ?cap i < length xs" for i
    using h(4) that by simp
  have dead: "buf ! i = None" if "i < ?cap" "length xs \<le> off b ?cap i" for i
    using h(4) that by simp
  consider "b < e" | "e < b" | "b = e" by linarith
  then show ?thesis
  proof cases
    case 1
    then have e: "e = b + length xs" "e < ?cap" using h(1-3) by (auto simp: idx_def split: if_splits)
    let ?new = "paste 0 (take (e - b) (drop b buf)) ?dst"
    have m: "move_slots b e 0 buf ?dst = Inr (blank b e buf, ?new)"
      using 1 e n h(1,2) by (intro move_slots_ok live) (auto simp: off_def)
    have "MoveBuffer buf b e (VectorBuffer_alloc n) = Inr (blank b e buf, ?new, 0, length xs)"
      using 1 m e(1) by (simp add: MoveBuffer_def VectorBuffer_alloc_def)
    moreover have "?new ! i = slot xs i" if "i < n" for i
      using that e h(4) [of "b + i"] by (auto simp: off_def)
    moreover have "list_all (\<lambda>s. s = None) (blank b e buf)"
      using e dead by (auto simp: list_all_length off_def)
    ultimately show ?thesis by simp
  next
    case 2
    then have e: "e = b + length xs - ?cap" "?cap \<le> b + length xs" "e < ?cap" "b < ?cap"
      using h(1-3) by (auto simp: idx_def split: if_splits)
    let ?r = "?cap - b" and ?src = "blank b ?cap buf"
    let ?dst1 = "paste 0 (take ?r (drop b buf)) ?dst"
    let ?new = "paste ?r (take e (drop 0 ?src)) ?dst1"
    have m: "move_slots b ?cap 0 buf ?dst = Inr (?src, ?dst1)"
      using e n by (intro move_slots_ok live) (auto simp: off_def)
    have live2: "?src ! k \<noteq> None" if "k < e" for k
      using that live [of k] e 2 by (simp add: off_def)
    have "move_slots 0 e ?r ?src ?dst1 = Inr (blank 0 e ?src, paste ?r (take (e - 0) (drop 0 ?src)) ?dst1)"
      using e n by (intro move_slots_ok live2) auto
    then have "MoveBuffer buf b e (VectorBuffer_alloc n) = Inr (blank 0 e ?src, ?new, 0, length xs)"
      using 2 e by (simp add: MoveBuffer_def VectorBuffer_alloc_def m)
    moreover have "?new ! i = slot xs i" if "i < n" for i
      using that e 2 h(4) [of "b + i"] h(4) [of "i - ?r"] by (auto simp: off_def)
    moreover have "list_all (\<lambda>s. s = None) (blank 0 e ?src)"
      using e dead by (auto simp: list_all_length off_def)
    ultimately show ?thesis by simp
  next
    case 3
    then have "xs = []" using h(1-3) by (auto simp: idx_def split: if_splits)
    then show ?thesis using 3 dead by (simp add: MoveBuffer_def VectorBuffer_alloc_def list_all_length)
  qed
qed

lemma SetCapacityTo_ok:
  assumes "holds d xs" "length xs \<le> n"
  shows "\<exists>d'. SetCapacityTo n d = Inr d' \<and> holds d' xs \<and> buffer_capacity d' = n + 1 \<and> same_identity d d' \<and>
    begin_index d' = 0"
  using assms(1)
proof (cases rule: holds_cases)
  case no_block
  then show ?thesis
    by (auto simp: SetCapacityTo_def MoveBuffer_def vb_free_def VectorBuffer_alloc_def same_identity_def
        simp del: replicate_Suc intro!: holdsI)
next
  case in_ring
  obtain old new where m:
    "MoveBuffer (buffer d) (begin_index d) (end_index d) (VectorBuffer_alloc (n + 1)) = Inr (old, new, 0, length xs)"
    "length new = n + 1" "\<forall>i < n + 1. new ! i = slot xs i" "list_all (\<lambda>s. s = None) old"
    using MoveBuffer_ok [OF in_ring, of "n + 1"] assms(2) by auto
  then show ?thesis
    using assms(2) by (auto simp: SetCapacityTo_def vb_free_def same_identity_def intro!: holdsI)
qed

lemma dq_capacity_is: "dq_capacity d = buffer_capacity d - 1"
  by (simp add: dq_capacity_def)

lemma same_identity_refl [simp]: "same_identity d d"
  by (simp add: same_identity_def)

lemma holds_capacity: "holds d xs \<Longrightarrow> length xs \<le> dq_capacity d"
  by (auto simp: holds_def dq_capacity_is)

lemma Expand_ok:
  assumes "holds d xs"
  shows "\<exists>d'. ExpandCapacityIfNecessary n d = Inr d' \<and> holds d' xs \<and> length xs + n \<le> dq_capacity d' \<and>
    same_identity d d' \<and> dq_capacity d \<le> dq_capacity d'"
proof (cases "dq_capacity d \<ge> length xs + n")
  case True
  then show ?thesis using assms by (simp add: ExpandCapacityIfNecessary_def holds_size)
next
  case False
  define m where "m = max (max (length xs + n) kCircularBufferInitialCapacity) (dq_capacity d + dq_capacity d div 4)"
  have "length xs \<le> m" by (simp add: m_def)
  from SetCapacityTo_ok [OF assms this] obtain d' where
    "SetCapacityTo m d = Inr d'" "holds d' xs" "buffer_capacity d' = m + 1" "same_identity d d'" by blast
  then show ?thesis
    using False by (simp add: ExpandCapacityIfNecessary_def holds_size [OF assms] Let_def m_def dq_capacity_is [of d']
        le_max_iff_disj)
qed

text \<open>Shrinking bounds the unused room by the number of elements, apart from the initial capacity.\<close>

lemma Shrink_ok:
  assumes "holds d xs"
  shows "\<exists>d'. ShrinkCapacityIfNecessary d = Inr d' \<and> holds d' xs \<and> same_identity d d' \<and>
    dq_capacity d' \<le> max 3 (2 * length xs)"
proof -
  define m where "m = max kCircularBufferInitialCapacity (length xs + length xs div 4)"
  have "length xs \<le> m" by (simp add: m_def)
  from SetCapacityTo_ok [OF assms this] obtain d' where
    d': "SetCapacityTo m d = Inr d'" "holds d' xs" "buffer_capacity d' = m + 1" "same_identity d d'" by blast
  have m: "m \<le> max 3 (2 * length xs)" by (auto simp: m_def kCircularBufferInitialCapacity_def)
  consider "dq_capacity d \<le> 3" | "dq_capacity d > 3" "dq_capacity d - length xs < length xs"
    | "dq_capacity d > 3" "\<not> dq_capacity d - length xs < length xs" "m < dq_capacity d"
    | "dq_capacity d > 3" "\<not> dq_capacity d - length xs < length xs" "\<not> m < dq_capacity d" by linarith
  then show ?thesis
  proof cases
    case 3
    then have "ShrinkCapacityIfNecessary d = Inr d'"
      using d'(1) m_def
      by (simp add: ShrinkCapacityIfNecessary_def holds_size [OF assms] Let_def kCircularBufferInitialCapacity_def)
    then show ?thesis using d' m by (simp add: dq_capacity_is [of d'])
  next
    case 4
    then have "ShrinkCapacityIfNecessary d = Inr d"
      using m_def
      by (simp add: ShrinkCapacityIfNecessary_def holds_size [OF assms] Let_def kCircularBufferInitialCapacity_def)
    then show ?thesis using 4 m assms by auto
  qed (use assms in \<open>auto simp: ShrinkCapacityIfNecessary_def holds_size kCircularBufferInitialCapacity_def\<close>)
qed

lemma holds_IncrementGeneration [simp]: "holds (IncrementGeneration d) xs = holds d xs"
  by (simp add: holds_def IncrementGeneration_def)

lemma destroy_all_ok:
  assumes "holds d xs"
  shows "\<exists>buf. dq_DestructRange (begin_index d) (end_index d) d = Inr (d\<lparr>buffer := buf\<rparr>) \<and>
    length buf = buffer_capacity d \<and> list_all (\<lambda>s. s = None) buf"
  using assms
proof (cases rule: holds_cases)
  case no_block
  then show ?thesis by (auto simp: dq_DestructRange_def)
next
  case in_ring
  let ?b = "begin_index d" and ?cap = "buffer_capacity d"
  obtain buf where buf: "dq_DestructRange (idx ?b ?cap 0) (idx ?b ?cap (length xs)) d = Inr (d\<lparr>buffer := buf\<rparr>)"
    "length buf = ?cap" and nth: "\<forall>i < ?cap. buf ! i = (if 0 \<le> off ?b ?cap i \<and> off ?b ?cap i < length xs
       then None else buffer d ! i)"
    using dq_DestructRange_ok [OF in_ring(1,2,4), of 0 "length xs"] by auto
  have "list_all (\<lambda>s. s = None) buf"
    using nth buf(2) in_ring(4) by (auto simp: list_all_length)
  then show ?thesis using buf in_ring(2,3) by auto
qed

lemma holds_blank_block:
  "list_all (\<lambda>s. s = None) (buffer d) \<Longrightarrow> begin_index d = 0 \<Longrightarrow> end_index d = 0 \<Longrightarrow> holds d []"
  by (cases "buffer d = []") (auto simp: holds_def list_all_length)

lemma ClearRetainCapacity_ok:
  assumes "holds d xs"
  shows "\<exists>d'. ClearRetainCapacity d = Inr d' \<and> holds d' [] \<and> list_all (\<lambda>s. s = None) (buffer d') \<and>
    buffer_capacity d' = buffer_capacity d \<and> this_ptr d' = this_ptr d \<and> generation d' = generation d + 1 \<and>
    begin_index d' = 0 \<and> end_index d' = 0"
  using destroy_all_ok [OF assms]
  by (auto simp: ClearRetainCapacity_def IncrementGeneration_def intro!: holds_blank_block)

lemma dq_clear_ok:
  assumes "holds d xs"
  shows "\<exists>d'. dq_clear d = Inr d' \<and> holds d' [] \<and> dq_capacity d' = 0 \<and> this_ptr d' = this_ptr d \<and>
    generation d' = generation d + 1"
  using ClearRetainCapacity_ok [OF assms]
  by (auto simp: dq_clear_def vb_free_def holds_def dq_capacity_def)

lemma dq_destroy_ok:
  assumes "holds d xs"
  shows "dq_destroy d = Inr ()"
  using destroy_all_ok [OF assms] by (auto simp: dq_destroy_def vb_free_def)

lemma dq_reserve_ok:
  assumes "holds d xs"
  shows "\<exists>d'. dq_reserve n d = Inr d' \<and> holds d' xs \<and> n \<le> dq_capacity d' \<and> same_identity d d'"
proof (cases "n > dq_capacity d")
  case True
  then have "length xs \<le> n" using holds_capacity [OF assms] by simp
  from SetCapacityTo_ok [OF assms this] show ?thesis
    using True by (auto simp: dq_reserve_def dq_capacity_is)
qed (use assms in \<open>simp add: dq_reserve_def\<close>)

lemma shrink_to_fit_ok:
  assumes "holds d xs"
  shows "\<exists>d'. shrink_to_fit d = Inr d' \<and> holds d' xs \<and> dq_capacity d' = length xs \<and> same_identity d d'"
proof (cases "xs = []")
  case True
  have "list_all (\<lambda>s. s = None) (buffer d)"
    using assms True by (auto simp: holds_def list_all_length)
  moreover have "begin_index d = end_index d" using holds_empty [OF assms] True by (simp add: dq_empty_def)
  ultimately show ?thesis
    using True by (auto simp: shrink_to_fit_def dq_empty_def vb_free_def holds_def dq_capacity_def same_identity_def)
next
  case False
  then show ?thesis
    using SetCapacityTo_ok [OF assms order.refl]
    by (auto simp: shrink_to_fit_def holds_empty [OF assms] holds_size [OF assms] dq_capacity_is)
qed

section \<open>Both ends\<close>

lemma construct_slot_ok:
  assumes "i < buffer_capacity d" "buffer d ! i = None"
  shows "construct_slot i x d = Inr (d\<lparr>buffer := (buffer d)[i := Some x]\<rparr>)"
  using assms by (simp add: construct_slot_def vb_access)

lemma emplace_back_ok:
  assumes "holds d xs"
  shows "\<exists>d'. emplace_back x d = Inr (x, d') \<and> holds d' (xs @ [x]) \<and> this_ptr d' = this_ptr d \<and>
    generation d' = generation d + 1 \<and> dq_capacity d \<le> dq_capacity d'"
proof -
  obtain d1 where d1: "ExpandCapacityIfNecessary 1 d = Inr d1" "holds d1 xs" "length xs + 1 \<le> dq_capacity d1"
    "same_identity d d1" "dq_capacity d \<le> dq_capacity d1" using Expand_ok [OF assms, of 1] by blast
  let ?cap = "buffer_capacity d1" and ?b = "begin_index d1"
  have room: "Suc (length xs) < ?cap" using d1(3) by (simp add: dq_capacity_is)
  have h: "?b < ?cap" "end_index d1 = idx ?b ?cap (length xs)"
    "\<And>i. i < ?cap \<Longrightarrow> buffer d1 ! i = slot xs (off ?b ?cap i)"
    using d1(2) room by (auto simp: holds_def)
  define d3 where "d3 = IncrementGeneration (d1\<lparr>buffer := (buffer d1)[end_index d1 := Some x],
    end_index := (if end_index d1 = ?cap - 1 then 0 else end_index d1 + 1)\<rparr>)"
  have e: "end_index d1 < ?cap" "off ?b ?cap (end_index d1) = length xs"
    using h(1,2) room by (auto simp: ring_simps)
  have "holds d3 (xs @ [x])"
  proof (rule holdsI)
    show "end_index d3 = idx (begin_index d3) (buffer_capacity d3) (length (xs @ [x]))"
      using h(1,2) room by (auto simp: d3_def IncrementGeneration_def idx_def split: if_splits)
    fix i assume i: "i < buffer_capacity d3"
    have "off ?b ?cap i = length xs \<longleftrightarrow> i = end_index d1"
      using i h(1) e idx_off [of ?b ?cap i] by (auto simp: d3_def IncrementGeneration_def h(2))
    then show "buffer d3 ! i = slot (xs @ [x]) (off (begin_index d3) (buffer_capacity d3) i)"
      using i h(3) by (auto simp: d3_def IncrementGeneration_def slot_def nth_append nth_list_update)
  qed (use h room in \<open>simp_all add: d3_def IncrementGeneration_def\<close>)
  moreover have "construct_slot (end_index d1) x d1 = Inr (d1\<lparr>buffer := (buffer d1)[end_index d1 := Some x]\<rparr>)"
    using e h(3) by (intro construct_slot_ok) auto
  ultimately show ?thesis
    using d1 dq_back_ok [of d3 "xs @ [x]"]
    by (auto simp: emplace_back_def d3_def Let_def same_identity_def IncrementGeneration_def dq_capacity_is)
qed

lemma emplace_front_ok:
  assumes "holds d xs"
  shows "\<exists>d'. emplace_front x d = Inr (x, d') \<and> holds d' (x # xs) \<and> this_ptr d' = this_ptr d \<and>
    generation d' = generation d + 1 \<and> dq_capacity d \<le> dq_capacity d'"
proof -
  obtain d1 where d1: "ExpandCapacityIfNecessary 1 d = Inr d1" "holds d1 xs" "length xs + 1 \<le> dq_capacity d1"
    "same_identity d d1" "dq_capacity d \<le> dq_capacity d1" using Expand_ok [OF assms, of 1] by blast
  let ?cap = "buffer_capacity d1" and ?b = "begin_index d1"
  have room: "Suc (length xs) < ?cap" using d1(3) by (simp add: dq_capacity_is)
  have h: "?b < ?cap" "end_index d1 = idx ?b ?cap (length xs)"
    "\<And>i. i < ?cap \<Longrightarrow> buffer d1 ! i = slot xs (off ?b ?cap i)"
    using d1(2) room by (auto simp: holds_def)
  define b where "b = (if ?b = 0 then ?cap - 1 else ?b - 1)"
  have b: "b < ?cap" "buffer d1 ! b = None"
    using h(1) h(3) [of b] room by (auto simp: b_def off_def)
  define d2 where "d2 = IncrementGeneration (d1\<lparr>begin_index := b\<rparr>)"
  define d3 where "d3 = d2\<lparr>buffer := (buffer d1)[b := Some x]\<rparr>"
  have shift: "off b ?cap i = (if i = b then 0 else Suc (off ?b ?cap i))" if "i < ?cap" for i
    using that h(1) by (auto simp: b_def off_def)
  have "holds d3 (x # xs)"
  proof (rule holdsI)
    show "end_index d3 = idx (begin_index d3) (buffer_capacity d3) (length (x # xs))"
      using h(1,2) room by (auto simp: d2_def d3_def b_def IncrementGeneration_def idx_def split: if_splits)
    fix i assume "i < buffer_capacity d3"
    then show "buffer d3 ! i = slot (x # xs) (off (begin_index d3) (buffer_capacity d3) i)"
      using h(3) shift
      by (auto simp: d2_def d3_def IncrementGeneration_def slot_def nth_list_update)
  qed (use b room in \<open>simp_all add: d2_def d3_def IncrementGeneration_def\<close>)
  moreover have "construct_slot b x d2 = Inr d3"
    using b construct_slot_ok [of b d2 x] by (simp add: d2_def d3_def IncrementGeneration_def)
  ultimately show ?thesis
    using d1 dq_front_ok [of d3 "x # xs"]
    by (auto simp: emplace_front_def d3_def d2_def b_def Let_def same_identity_def IncrementGeneration_def dq_capacity_is)
qed

lemma push_ok:
  assumes "holds d xs"
  shows "\<exists>d'. push_back x d = Inr d' \<and> holds d' (xs @ [x]) \<and> this_ptr d' = this_ptr d \<and>
      generation d' = generation d + 1 \<and> dq_capacity d \<le> dq_capacity d'"
    and "\<exists>d'. push_front x d = Inr d' \<and> holds d' (x # xs) \<and> this_ptr d' = this_ptr d \<and>
      generation d' = generation d + 1 \<and> dq_capacity d \<le> dq_capacity d'"
  using emplace_back_ok [OF assms, of x] emplace_front_ok [OF assms, of x]
  by (auto simp: push_back_def push_front_def)

lemma pop_front_ok:
  assumes "holds d xs"
  shows "if xs = [] then pop_front d = Inl Dcheck_failed
    else \<exists>d'. pop_front d = Inr d' \<and> holds d' (tl xs) \<and> this_ptr d' = this_ptr d \<and>
      generation d' = generation d + 1 \<and> dq_capacity d' \<le> max 3 (2 * length (tl xs))"
proof (cases "xs = []")
  case False
  note h = holds_nonempty [OF assms False]
  let ?cap = "buffer_capacity d" and ?b = "begin_index d"
  obtain m where m: "length xs = Suc m" using False by (cases xs) auto
  define b where "b = (if ?b + 1 = ?cap then 0 else ?b + 1)"
  define d1 where "d1 = d\<lparr>buffer := blank ?b (?b + 1) (buffer d), begin_index := b\<rparr>"
  have shift: "off ?b ?cap i = (if i = ?b then 0 else Suc (off b ?cap i))" if "i < ?cap" for i
    using that h(2) by (auto simp: b_def off_def)
  have last: "off b ?cap ?b = ?cap - 1" using h(1,2) by (auto simp: b_def off_def)
  have "holds d1 (tl xs)"
  proof (rule holdsI)
    show "end_index d1 = idx (begin_index d1) (buffer_capacity d1) (length (tl xs))"
      using h(1-3) m by (auto simp: d1_def b_def idx_def split: if_splits)
    fix i assume "i < buffer_capacity d1"
    then show "buffer d1 ! i = slot (tl xs) (off (begin_index d1) (buffer_capacity d1) i)"
      using h(1,4) shift last False by (auto simp: d1_def slot_def nth_tl)
  qed (use h(1,2) False in \<open>auto simp: d1_def b_def\<close>)
  from Shrink_ok [OF this] obtain d2 where
    d2: "ShrinkCapacityIfNecessary d1 = Inr d2" "holds d2 (tl xs)" "same_identity d1 d2"
      "dq_capacity d2 \<le> max 3 (2 * length (tl xs))" by blast
  have "buffer d ! ?b \<noteq> None" using h(2,4) False by (simp add: off_def)
  then have "destruct_slots ?b (?b + 1) (buffer d) = Inr (blank ?b (?b + 1) (buffer d))"
    using h(2) by (intro destruct_slots_ok) (auto simp: less_Suc_eq)
  then have "pop_front d = Inr (IncrementGeneration d2)"
    using d2(1) False h(1)
    by (auto simp: pop_front_def holds_size [OF assms] destroy_slots_def Let_def d1_def b_def split: if_splits)
  then show ?thesis
    using False d2 by (auto simp: same_identity_def d1_def IncrementGeneration_def dq_capacity_is holds_def)
qed (simp add: pop_front_def holds_size [OF assms])

lemma pop_back_ok:
  assumes "holds d xs"
  shows "if xs = [] then pop_back d = Inl Dcheck_failed
    else \<exists>d'. pop_back d = Inr d' \<and> holds d' (butlast xs) \<and> this_ptr d' = this_ptr d \<and>
      generation d' = generation d + 1 \<and> dq_capacity d' \<le> max 3 (2 * length (butlast xs))"
proof (cases "xs = []")
  case False
  note h = holds_nonempty [OF assms False]
  let ?cap = "buffer_capacity d" and ?b = "begin_index d"
  obtain m where m: "length xs = Suc m" using False by (cases xs) auto
  define e where "e = (if end_index d = 0 then ?cap - 1 else end_index d - 1)"
  have e: "e = idx ?b ?cap (length xs - 1)" "e < ?cap"
    using h(1-3) m by (auto simp: e_def idx_def split: if_splits)
  define d1 where "d1 = d\<lparr>end_index := e, buffer := blank e (e + 1) (buffer d)\<rparr>"
  have at_e: "off ?b ?cap i = length xs - 1 \<longleftrightarrow> i = e" if "i < ?cap" for i
  proof -
    have "off ?b ?cap e = length xs - 1" using e(1) h(1,2) by (simp add: off_idx)
    then show ?thesis using idx_off [OF h(2) that] e(1) by auto
  qed
  have "holds d1 (butlast xs)"
  proof (rule holdsI)
    fix i assume "i < buffer_capacity d1"
    then have i: "i < ?cap" by (simp add: d1_def)
    show "buffer d1 ! i = slot (butlast xs) (off (begin_index d1) (buffer_capacity d1) i)"
      using h(4) [OF i] at_e [OF i] i m
      by (cases "i = e") (auto simp: d1_def slot_def nth_butlast)
  qed (use h(1,2) e in \<open>auto simp: d1_def\<close>)
  from Shrink_ok [OF this] obtain d2 where
    d2: "ShrinkCapacityIfNecessary d1 = Inr d2" "holds d2 (butlast xs)" "same_identity d1 d2"
      "dq_capacity d2 \<le> max 3 (2 * length (butlast xs))" by blast
  have "buffer d ! e \<noteq> None" using h(4) [OF e(2)] at_e [OF e(2)] False by simp
  then have "destruct_slots e (e + 1) (buffer d) = Inr (blank e (e + 1) (buffer d))"
    using e(2) by (intro destruct_slots_ok) (auto simp: less_Suc_eq)
  then have "pop_back d = Inr (IncrementGeneration d2)"
    using d2(1) False
    unfolding pop_back_def Let_def e_def [symmetric]
    by (simp add: holds_size [OF assms] destroy_slots_def d1_def)
  then show ?thesis
    using False d2 by (auto simp: same_identity_def d1_def IncrementGeneration_def dq_capacity_is holds_def)
qed (simp add: pop_back_def holds_size [OF assms])

section \<open>Size, assignment and copies\<close>

text \<open>What a modifier leaves: the elements, the address, and a generation that has moved on by at
  least one and at most \<open>n\<close>.\<close>

lemma append_all_ok:
  "holds d xs \<Longrightarrow> \<exists>d'. append_all ys d = Inr d' \<and> holds d' (xs @ ys) \<and> this_ptr d' = this_ptr d \<and>
     generation d' = generation d + of_nat (length ys) \<and> dq_capacity d \<le> dq_capacity d'"
proof (induction ys arbitrary: d xs)
  case (Cons y ys)
  obtain d1 where d1: "push_back y d = Inr d1" "holds d1 (xs @ [y])" "this_ptr d1 = this_ptr d"
    "generation d1 = generation d + 1" "dq_capacity d \<le> dq_capacity d1"
    using push_ok(1) [OF Cons.prems] by blast
  from Cons.IH [OF d1(2)] show ?case using d1 by (auto simp: ac_simps)
qed simp

lemma append_until_ok:
  assumes "holds d xs" "length xs \<le> count" "count \<le> length xs + fuel"
  shows "append_until fuel count x d = append_all (replicate (count - length xs) x) d"
  using assms
proof (induction fuel arbitrary: d xs)
  case 0
  then show ?case by (simp add: append_until.simps holds_size)
next
  case (Suc fuel)
  show ?case
  proof (cases "length xs < count")
    case True
    then have r: "replicate (count - length xs) x = x # replicate (count - length (xs @ [x])) x"
      by (simp add: Suc_diff_Suc flip: replicate_Suc)
    obtain d1 where d1: "push_back x d = Inr d1" "holds d1 (xs @ [x])" using push_ok(1) [OF Suc.prems(1)] by blast
    then show ?thesis
      using True Suc.IH [OF d1(2)] Suc.prems
      by (subst append_until.simps) (simp add: holds_size [OF Suc.prems(1)] r)
  qed (use Suc.prems in \<open>simp add: append_until.simps holds_size\<close>)
qed

lemma truncate_ok:
  assumes "holds d xs" "n < length xs"
  shows "\<exists>d1. dq_DestructRange ((begin_index d + n) mod buffer_capacity d) (end_index d) d = Inr d1 \<and>
    holds (d1\<lparr>end_index := (begin_index d + n) mod buffer_capacity d\<rparr>) (take n xs) \<and> same_identity d d1 \<and>
    buffer_capacity d \<noteq> 0"
proof -
  have "xs \<noteq> []" using assms(2) by auto
  note h = holds_nonempty [OF assms(1) this]
  let ?cap = "buffer_capacity d" and ?b = "begin_index d"
  obtain buf where buf: "dq_DestructRange (idx ?b ?cap n) (idx ?b ?cap (length xs)) d = Inr (d\<lparr>buffer := buf\<rparr>)"
    "length buf = ?cap" and nth: "\<forall>i < ?cap. buf ! i = (if n \<le> off ?b ?cap i \<and> off ?b ?cap i < length xs
       then None else buffer d ! i)"
    using dq_DestructRange_ok [OF h(1,2,4), of n "length xs"] assms(2) by auto
  have m: "(?b + n) mod ?cap = idx ?b ?cap n" using idx_mod [OF h(2), of n] assms(2) h(1) by simp
  have "holds (d\<lparr>buffer := buf, end_index := idx ?b ?cap n\<rparr>) (take n xs)"
    using h assms(2) buf(2) nth by (intro holdsI) (auto simp: slot_def)
  then show ?thesis using buf(1) m h by (auto simp: same_identity_def)
qed

lemma resize_value_ok:
  assumes "holds d xs"
  shows "\<exists>d'. resize_value n x d = Inr d' \<and> holds d' (take n xs @ replicate (n - length xs) x) \<and>
    this_ptr d' = this_ptr d"
proof -
  consider "n > length xs" | "n < length xs" | "n = length xs" by linarith
  then show ?thesis
  proof cases
    case 1
    obtain d1 where d1: "ExpandCapacityIfNecessary (n - length xs) d = Inr d1" "holds d1 xs" "same_identity d d1"
      using Expand_ok [OF assms] by blast
    obtain d2 where "append_until n n x d1 = Inr d2" "holds d2 (xs @ replicate (n - length xs) x)"
        "this_ptr d2 = this_ptr d1"
      using append_until_ok [OF d1(2), of n n x] append_all_ok [OF d1(2), of "replicate (n - length xs) x"] 1 by auto
    then show ?thesis
      using 1 d1 by (simp add: resize_value_def holds_size [OF assms] same_identity_def) (simp add: IncrementGeneration_def)
  next
    case 2
    obtain d1 where d1: "dq_DestructRange ((begin_index d + n) mod buffer_capacity d) (end_index d) d = Inr d1"
      "holds (d1\<lparr>end_index := (begin_index d + n) mod buffer_capacity d\<rparr>) (take n xs)" "same_identity d d1"
      "buffer_capacity d \<noteq> 0"
      using truncate_ok [OF assms 2] by blast
    then show ?thesis
      using 2 Shrink_ok [OF d1(2)]
      by (auto simp: resize_value_def holds_size [OF assms] same_identity_def Let_def)
        (simp_all add: IncrementGeneration_def)
  next
    case 3
    then show ?thesis
      using assms by (simp add: resize_value_def holds_size [OF assms]) (simp add: IncrementGeneration_def)
  qed
qed

end
