(* ===== verification/Refinement.thy ===== *)
theory Refinement
  imports Prelude
begin

text \<open>
  The contract between a container and the mathematical object it stands for.  An operation of the
  container either ends in the fault that the specification names or leads to a state that
  stands for the specified result; what a client reads from a state is what the object says.  Any
  sequence of operations, with everything read back after each, then behaves as specified.
\<close>

text \<open>One operation, followed by a look at the state it leaves.\<close>

definition observed :: "('s \<Rightarrow> 'o \<Rightarrow> 's outcome) \<Rightarrow> ('s \<Rightarrow> 'v outcome) \<Rightarrow> 's \<Rightarrow> 'o \<Rightarrow> ('v \<times> 's) outcome" where
  "observed act look s a = and_then (act s a) (\<lambda>s'. map_outcome (\<lambda>v. (v, s')) (look s'))"

text \<open>A concrete outcome that matches an abstract one.\<close>

definition matches :: "('s \<Rightarrow> 'm \<Rightarrow> bool) \<Rightarrow> 's outcome \<Rightarrow> 'm outcome \<Rightarrow> bool" where
  "matches stands c a \<longleftrightarrow> (case a of Inl e \<Rightarrow> c = Inl e | Inr m \<Rightarrow> \<exists>s. c = Inr s \<and> stands s m)"

lemma matchesI: "\<exists>s. c = Inr s \<and> stands s m \<and> P s \<Longrightarrow> matches stands c (Inr m)"
  by (auto simp: matches_def)

lemma matches_Inl [simp]: "matches stands c (Inl e) \<longleftrightarrow> c = Inl e"
  by (simp add: matches_def)

lemma matches_Inr: "matches stands c (Inr m) \<longleftrightarrow> (\<exists>s. c = Inr s \<and> stands s m)"
  by (simp add: matches_def)

locale observed_refinement =
  fixes stands :: "'s \<Rightarrow> 'm \<Rightarrow> bool"
    and act :: "'s \<Rightarrow> 'o \<Rightarrow> 's outcome"
    and spec :: "'m \<Rightarrow> 'o \<Rightarrow> 'm outcome"
    and look :: "'s \<Rightarrow> 'v outcome"
    and view :: "'m \<Rightarrow> 'v"
  assumes simulation: "stands s m \<Longrightarrow> matches stands (act s a) (spec m a)"
    and observation: "stands s m \<Longrightarrow> look s = Inr (view m)"
begin

lemma observed_step:
  assumes "stands s m"
  shows "case spec m a of
      Inl e \<Rightarrow> observed act look s a = Inl e
    | Inr m' \<Rightarrow> \<exists>s'. observed act look s a = Inr (view m', s') \<and> stands s' m'"
  using simulation [OF assms, of a] observation
  by (auto simp: observed_def matches_def split: sum.splits)

lemma run_refines:
  "stands s m \<Longrightarrow>
     (case run_all (observed spec (\<lambda>m. Inr (view m))) m as of
        Inl e \<Rightarrow> run_all (observed act look) s as = Inl e
      | Inr (vs, m') \<Rightarrow> \<exists>s'. run_all (observed act look) s as = Inr (vs, s') \<and> stands s' m')"
proof (induction as arbitrary: s m)
  case (Cons a as)
  show ?case
  proof (cases "spec m a")
    case (Inl e)
    then show ?thesis using observed_step [OF Cons.prems, of a] by (simp add: observed_def)
  next
    case (Inr m1)
    then obtain s1 where s1: "observed act look s a = Inr (view m1, s1)" "stands s1 m1"
      using observed_step [OF Cons.prems, of a] by auto
    have "observed spec (\<lambda>m. Inr (view m)) m a = Inr (view m1, m1)" using Inr by (simp add: observed_def)
    then show ?thesis using s1 Cons.IH [OF s1(2)] by (auto split: sum.splits)
  qed
qed simp

end

end
