(* ===== verification/Deque_Edit.thy ===== *)
theory Deque_Edit
  imports Deque_Spec Refinement
begin

text \<open>
  Insertion, erasure, copies and assignment of the circular deque, on the list it holds.  A loop
  that shifts elements is described by what each slot holds, as a function of its offset, before
  every iteration.
\<close>

section \<open>Assignment and copies\<close>

lemma dq_resize_is_resize_value: "dq_resize x n d = resize_value n x d"
  by (simp add: dq_resize_def resize_value_def)

lemma assign_range_ok:
  assumes "holds d xs"
  shows "\<exists>d'. assign_range ys d = Inr d' \<and> holds d' ys \<and> this_ptr d' = this_ptr d"
proof -
  obtain d1 where d1: "ClearRetainCapacity d = Inr d1" "holds d1 []" "this_ptr d1 = this_ptr d"
    using ClearRetainCapacity_ok [OF assms] by blast
  obtain d2 where "append_all ys d1 = Inr d2" "holds d2 ys" "this_ptr d2 = this_ptr d1"
    using append_all_ok [OF d1(2), of ys] by auto
  then show ?thesis
    using d1 by (simp add: assign_range_def) (simp add: IncrementGeneration_def)
qed

lemma assign_list_ok:
  assumes "holds d xs"
  shows "\<exists>d'. assign_list ys d = Inr d' \<and> holds d' ys \<and> this_ptr d' = this_ptr d"
proof -
  obtain d1 where d1: "dq_reserve (length ys) d = Inr d1" "holds d1 xs" "same_identity d d1"
    using dq_reserve_ok [OF assms] by blast
  then show ?thesis
    using assign_range_ok [OF d1(2), of ys] by (auto simp: assign_list_def same_identity_def)
qed

lemma assign_count_ok:
  assumes "holds d xs"
  shows "\<exists>d'. assign_count n x d = Inr d' \<and> holds d' (replicate n x) \<and> this_ptr d' = this_ptr d"
proof -
  obtain d1 where d1: "ClearRetainCapacity d = Inr d1" "holds d1 []" "this_ptr d1 = this_ptr d"
    using ClearRetainCapacity_ok [OF assms] by blast
  obtain d2 where d2: "dq_reserve n d1 = Inr d2" "holds d2 []" "same_identity d1 d2"
    using dq_reserve_ok [OF d1(2)] by blast
  obtain d3 where "append_all (replicate n x) d2 = Inr d3" "holds d3 (replicate n x)" "this_ptr d3 = this_ptr d2"
    using append_all_ok [OF d2(2), of "replicate n x"] by auto
  then show ?thesis
    using d1 d2 by (simp add: assign_count_def same_identity_def) (simp add: IncrementGeneration_def)
qed

lemma iterate_ok:
  assumes "holds d xs" "j \<le> length xs" "length xs \<le> j + fuel"
  shows "iterate fuel d (iter_at d j) (iter_at d (length xs)) = Inr (drop j xs)"
  using assms(2,3)
proof (induction fuel arbitrary: j)
  case 0
  then show ?case by (subst iterate.simps) (simp add: it_eq_ok [OF assms(1)])
next
  case (Suc fuel)
  show ?case
  proof (cases "j = length xs")
    case True
    then show ?thesis by (subst iterate.simps) (simp add: it_eq_ok [OF assms(1)])
  next
    case False
    then have j: "j < length xs" using Suc.prems by simp
    then have "xs \<noteq> []" by auto
    note sp = holds_spans_nonempty [OF assms(1) this]
    have "iterate fuel d (iter_at d (Suc j)) (iter_at d (length xs)) = Inr (drop (Suc j) xs)"
      using Suc.IH [of "Suc j"] Suc.prems j by simp
    then show ?thesis
      using j False Suc.prems(1)
      by (subst iterate.simps)
        (simp add: it_eq_ok [OF assms(1)] it_deref_ok [OF assms(1)] spans_Increment [OF sp] Cons_nth_drop_Suc)
  qed
qed

lemma read_elements_ok:
  assumes "holds d xs"
  shows "read_elements d = Inr xs"
proof -
  have "length xs \<le> buffer_capacity d" using assms by (auto simp: holds_def)
  then show ?thesis
    using iterate_ok [OF assms, of 0 "buffer_capacity d"]
    by (simp add: read_elements_def dq_begin_is [OF assms] dq_end_is [OF assms])
qed

lemma holds_default: "holds (circular_deque_default ptr) []"
  by (simp add: holds_def circular_deque_default_def)

lemma circular_deque_copy_ok:
  assumes "holds other xs"
  shows "\<exists>d. circular_deque_copy ptr other = Inr d \<and> holds d xs \<and> this_ptr d = ptr"
proof -
  have "holds ((circular_deque_default ptr)\<lparr>buffer := VectorBuffer_alloc (dq_size other + 1)\<rparr>) []"
    by (rule holds_blank_block) (auto simp: VectorBuffer_alloc_def circular_deque_default_def list_all_length simp del: replicate_Suc)
  from assign_range_ok [OF this, of xs] show ?thesis
    by (auto simp: circular_deque_copy_def read_elements_ok [OF assms] circular_deque_default_def)
qed

lemma copy_assign_ok:
  assumes "holds d xs" "holds other ys" "this_ptr other \<noteq> this_ptr d"
  shows "\<exists>d'. copy_assign d other = Inr d' \<and> holds d' ys \<and> this_ptr d' = this_ptr d"
proof -
  obtain d1 where d1: "dq_reserve (dq_size other) d = Inr d1" "holds d1 xs" "same_identity d d1"
    using dq_reserve_ok [OF assms(1)] by blast
  then show ?thesis
    using assign_range_ok [OF d1(2), of ys] assms(3)
    by (auto simp: copy_assign_def read_elements_ok [OF assms(2)] same_identity_def)
qed

lemma deque_move_assign_ok:
  assumes "holds d xs" "holds other ys" "this_ptr other \<noteq> this_ptr d"
  shows "\<exists>d' other'. move_assign d other = Inr (d', other') \<and> holds d' ys \<and> holds other' [] \<and>
    this_ptr d' = this_ptr d \<and> this_ptr other' = this_ptr other \<and> dq_capacity other' = 0"
proof -
  obtain d1 where d1: "ClearRetainCapacity d = Inr d1" "list_all (\<lambda>s. s = None) (buffer d1)"
      "this_ptr d1 = this_ptr d"
    using ClearRetainCapacity_ok [OF assms(1)] by blast
  then show ?thesis
    using assms(2,3)
    by (simp add: move_assign_def vb_free_def) (simp add: holds_def IncrementGeneration_def dq_capacity_def)
qed

lemma circular_deque_move_ok:
  assumes "holds other xs" "circular_deque_move ptr other = (d, other')"
  shows "holds d xs \<and> holds other' [] \<and> this_ptr d = ptr \<and> this_ptr other' = this_ptr other"
  using assms by (auto simp: circular_deque_move_def circular_deque_default_def holds_def)

lemma dq_swap_ok:
  assumes "holds d xs" "holds other ys" "dq_swap d other = (d', other')"
  shows "holds d' ys \<and> holds other' xs \<and> this_ptr d' = this_ptr d \<and> this_ptr other' = this_ptr other"
  using assms by (auto simp: dq_swap_def IncrementGeneration_def holds_def)

section \<open>Making room\<close>

text \<open>Elements from offset \<open>s\<close> on have moved up by \<open>n\<close>.\<close>

definition gap :: "'a list \<Rightarrow> nat \<Rightarrow> nat \<Rightarrow> nat \<Rightarrow> 'a option" where
  "gap xs n s o' = (if o' < s then slot xs o' else if o' < s + n then None else slot xs (o' - n))"

lemma iter_at_buffer:
  "length buf = buffer_capacity d \<Longrightarrow> iter_at (d\<lparr>buffer := buf\<rparr>) k = iter_at d k"
  by (auto simp: iter_at_def make_iterator_def)

lemma spans_buffer: "length buf = buffer_capacity d \<Longrightarrow> spans (d\<lparr>buffer := buf\<rparr>) n = spans d n"
  by (simp add: spans_def)

lemma move_slot_ok:
  assumes "i < buffer_capacity d" "buffer d ! i = Some x" "j < buffer_capacity d" "buffer d ! j = None"
  shows "move_slot i j d = Inr (d\<lparr>buffer := (buffer d)[j := Some x, i := None]\<rparr>)"
proof -
  have "i \<noteq> j" using assms(2,4) by auto
  then show ?thesis using assms MoveRange_one [OF assms] by (simp add: move_slot_def vb_address_def)
qed

lemma nth_update_idx:
  assumes "length buf = cap" "b < cap" "k < cap" "i < cap"
  shows "buf[idx b cap k := v] ! i = (if off b cap i = k then v else buf ! i)"
  using assms idx_off [OF assms(2,4)] off_idx [OF assms(2,3)] idx_less [OF assms(2), of k]
  by (auto simp: nth_list_update)

lemma shift_right_ok:
  assumes "spans d (length xs + n)" "0 < n" "k \<le> s" "s \<le> length xs" "s \<le> k + fuel"
    and "\<And>i. i < buffer_capacity d \<Longrightarrow> buffer d ! i = gap xs n s (off (begin_index d) (buffer_capacity d) i)"
  shows "\<exists>buf. shift_right fuel (iter_at d k) (iter_at d s) (iter_at d (s + n)) d = Inr (d\<lparr>buffer := buf\<rparr>) \<and>
    length buf = buffer_capacity d \<and>
    (\<forall>i < buffer_capacity d. buf ! i = gap xs n k (off (begin_index d) (buffer_capacity d) i))"
  using assms
proof (induction fuel arbitrary: d s)
  case 0
  then show ?case
    by (intro exI [of _ "buffer d"], subst shift_right.simps) (simp add: spans_it_eq)
next
  case (Suc fuel)
  let ?b = "begin_index d" and ?cap = "buffer_capacity d"
  show ?case
  proof (cases "s = k")
    case True
    then show ?thesis
      using Suc.prems by (intro exI [of _ "buffer d"], subst shift_right.simps) (simp add: spans_it_eq)
  next
    case False
    then obtain t where t: "s = Suc t" "k \<le> t" using Suc.prems(3) by (cases s) auto
    have sp: "?b < ?cap" "length xs + n < ?cap" using Suc.prems(1) by (auto simp: spans_def)
    define buf where "buf = (buffer d)[idx ?b ?cap (t + n) := Some (xs ! t), idx ?b ?cap t := None]"
    have len: "length buf = ?cap" by (simp add: buf_def)
    have nth: "buf ! i = gap xs n t (off ?b ?cap i)" if "i < ?cap" for i
      using that sp t Suc.prems(2,4) Suc.prems(6) [OF that]
      by (auto simp: buf_def nth_update_idx gap_def slot_def)
    have move: "move_slot (idx ?b ?cap t) (idx ?b ?cap (t + n)) d = Inr (d\<lparr>buffer := buf\<rparr>)"
      using sp t Suc.prems(2,4) unfolding buf_def
      by (intro move_slot_ok) (auto simp: Suc.prems(6) ring_simps gap_def)
    from Suc.IH [of "d\<lparr>buffer := buf\<rparr>" t] obtain buf' where
      "shift_right fuel (iter_at d k) (iter_at d t) (iter_at d (t + n)) (d\<lparr>buffer := buf\<rparr>) = Inr (d\<lparr>buffer := buf'\<rparr>)"
      "length buf' = ?cap" "\<forall>i < ?cap. buf' ! i = gap xs n k (off ?b ?cap i)"
      using Suc.prems t len nth by (auto simp: iter_at_buffer spans_buffer)
    then show ?thesis
      using Suc.prems(4) t move False spans_block [OF Suc.prems(1)]
        spans_Decrement [OF Suc.prems(1), of s] spans_Decrement [OF Suc.prems(1), of "s + n"]
        spans_it_eq [OF Suc.prems(1), of s k]
      by (intro exI [of _ buf'], subst shift_right.simps) (simp add: it_index_iter_at)
  qed
qed

lemma holds_offset:
  assumes "holds d xs" "k \<le> length xs"
  shows "OffsetFromBegin d (iter_at d k) = k"
  using assms(1)
proof (cases rule: holds_cases)
  case no_block
  then show ?thesis using assms(2) by (simp add: OffsetFromBegin_def iter_at_def make_iterator_def)
next
  case in_ring
  then have "buffer d \<noteq> []" by auto
  from spans_offset [OF holds_spans [OF assms(1) this] assms(2)] show ?thesis .
qed

lemma iter_at_identity:
  "same_identity d d' \<Longrightarrow> buffer d' \<noteq> [] \<Longrightarrow>
     (iter_at d j)\<lparr>it_index := idx (begin_index d') (buffer_capacity d') k\<rparr> = iter_at d' k"
  by (simp add: iter_at_def make_iterator_def same_identity_def)

lemma MakeRoomFor_ok:
  assumes h: "holds d xs" and k: "k \<le> length xs" and n: "0 < n"
  shows "\<exists>d'. MakeRoomFor n (iter_at d k) d = Inr (d', iter_at d' k, iter_at d' (k + n)) \<and>
    spans d' (length xs + n) \<and> same_identity d d' \<and>
    (\<forall>i < buffer_capacity d'. buffer d' ! i = gap xs n k (off (begin_index d') (buffer_capacity d') i))"
proof -
  obtain d1 where d1: "ExpandCapacityIfNecessary n d = Inr d1" "holds d1 xs" "length xs + n \<le> dq_capacity d1"
    "same_identity d d1" using Expand_ok [OF h] by blast
  let ?b = "begin_index d1" and ?cap = "buffer_capacity d1"
  have room: "length xs + n < ?cap" "buffer d1 \<noteq> []" using d1(3) n by (auto simp: dq_capacity_is)
  then have r: "?b < ?cap" "end_index d1 = idx ?b ?cap (length xs)"
    "\<And>i. i < ?cap \<Longrightarrow> buffer d1 ! i = slot xs (off ?b ?cap i)"
    using d1(2) by (auto simp: holds_def)
  define d2 where "d2 = d1\<lparr>end_index := idx ?b ?cap (length xs + n)\<rparr>"
  have cap: "buffer_capacity d2 = ?cap" by (simp add: d2_def)
  have wrap: "(idx ?b ?cap j + n) mod ?cap = idx ?b ?cap (j + n)" if "j \<le> length xs" for j
    using that room r(1) by (auto simp: idx_def mod_if)
  have same: "iter_at d1 j = iter_at d2 j" for j
    using room(2) by (simp add: iter_at_def make_iterator_def d2_def)
  have "\<And>i. i < buffer_capacity d2 \<Longrightarrow>
      buffer d2 ! i = gap xs n (length xs) (off (begin_index d2) (buffer_capacity d2) i)"
    using r(3) by (auto simp: d2_def gap_def slot_def)
  with shift_right_ok [of d2 xs n k "length xs" ?cap] obtain buf where
    buf: "shift_right ?cap (iter_at d2 k) (iter_at d2 (length xs)) (iter_at d2 (length xs + n)) d2 =
        Inr (d2\<lparr>buffer := buf\<rparr>)"
      "length buf = ?cap" "\<forall>i < ?cap. buf ! i = gap xs n k (off ?b ?cap i)"
    using room r(1) k n by (auto simp: d2_def spans_def)
  have ends: "dq_end d1 = iter_at d2 (length xs)" "dq_end d2 = iter_at d2 (length xs + n)"
    using dq_end_is [OF d1(2)] same room(2) by (simp_all add: dq_end_def d2_def iter_at_def make_iterator_def)
  have "(iter_at d k)\<lparr>it_index := (?b + k) mod ?cap\<rparr> = iter_at d2 k"
    using iter_at_identity [OF d1(4) room(2), of k k] idx_mod [OF r(1), of k] k room(1) same by simp
  moreover have "make_iterator d1 (((?b + k) mod ?cap + n) mod ?cap) = iter_at d2 (k + n)"
    using wrap [OF k] room k idx_mod [OF r(1), of k] by (simp add: iter_at_def make_iterator_def d2_def)
  moreover have "(end_index d1 + n) mod ?cap = idx ?b ?cap (length xs + n)" using wrap [OF order.refl] r(2) by simp
  ultimately have "MakeRoomFor n (iter_at d k) d =
      Inr (d2\<lparr>buffer := buf\<rparr>, iter_at d2 k, iter_at d2 (k + n))"
    using n d1(1) room(2) ends buf(1) holds_offset [OF h k] cap
    by (simp add: MakeRoomFor_def Let_def d2_def [symmetric])
  moreover have "spans (d2\<lparr>buffer := buf\<rparr>) (length xs + n)" "same_identity d (d2\<lparr>buffer := buf\<rparr>)"
    using buf(2) room r(1) d1(4) by (simp_all add: spans_def d2_def same_identity_def)
  ultimately show ?thesis
    using buf(2,3) by (intro exI [of _ "d2\<lparr>buffer := buf\<rparr>"]) (simp add: iter_at_buffer d2_def)
qed

text \<open>The list with the offsets from \<open>a\<close> up to \<open>e\<close> still to be filled.\<close>

definition hole :: "'a list \<Rightarrow> nat \<Rightarrow> nat \<Rightarrow> nat \<Rightarrow> 'a option" where
  "hole zs a e o' = (if a \<le> o' \<and> o' < e then None else slot zs o')"

lemma gap_is_hole:
  "k \<le> length xs \<Longrightarrow> gap xs (length vs) k = hole (take k xs @ vs @ drop k xs) k (k + length vs)"
  by (rule ext) (auto simp: gap_def hole_def slot_def nth_append)

lemma fill_hole_ok:
  assumes "spans d (length zs)" "a + length vs \<le> length zs" "take (length vs) (drop a zs) = vs"
    and "\<And>i. i < buffer_capacity d \<Longrightarrow>
      buffer d ! i = hole zs a (a + length vs) (off (begin_index d) (buffer_capacity d) i)"
  shows "\<exists>buf. fill_hole vs (iter_at d a) (iter_at d (a + length vs)) d = Inr (d\<lparr>buffer := buf\<rparr>) \<and>
    length buf = buffer_capacity d \<and>
    (\<forall>i < buffer_capacity d. buf ! i = slot zs (off (begin_index d) (buffer_capacity d) i))"
  using assms
proof (induction vs arbitrary: a d)
  case Nil
  then show ?case
    by (intro exI [of _ "buffer d"], subst fill_hole.simps) (simp add: spans_it_less hole_def)
next
  case (Cons v vs)
  let ?b = "begin_index d" and ?cap = "buffer_capacity d"
  have sp: "?b < ?cap" "length zs < ?cap" using Cons.prems(1) by (auto simp: spans_def)
  have a: "a < length zs" using Cons.prems(2) by simp
  then have v: "a < length zs" "zs ! a = v" "take (length vs) (drop (Suc a) zs) = vs"
    using Cons.prems(3) Cons_nth_drop_Suc [OF a, symmetric] by simp_all
  define buf where "buf = (buffer d)[idx ?b ?cap a := Some v]"
  have len: "length buf = ?cap" by (simp add: buf_def)
  have nth: "buf ! i = hole zs (Suc a) (Suc a + length vs) (off ?b ?cap i)" if "i < ?cap" for i
  proof (cases "off ?b ?cap i = a")
    case True
    then show ?thesis using that sp v(1,2) by (simp add: buf_def nth_update_idx hole_def)
  next
    case False
    then show ?thesis
      using that sp v(1) Cons.prems(4) [OF that] by (auto simp: buf_def nth_update_idx hole_def Suc_le_eq)
  qed
  have c: "construct_slot (idx ?b ?cap a) v d = Inr (d\<lparr>buffer := buf\<rparr>)"
    using sp v(1) Cons.prems(4) [of "idx ?b ?cap a"] unfolding buf_def
    by (intro construct_slot_ok) (auto simp: ring_simps hole_def)
  have inc: "Increment (d\<lparr>buffer := buf\<rparr>) (iter_at d a) = Inr (iter_at d (Suc a))"
    using spans_Increment [of "d\<lparr>buffer := buf\<rparr>" "length zs" a] Cons.prems(1) v(1) len
    by (simp add: spans_buffer iter_at_buffer)
  from Cons.IH [of "d\<lparr>buffer := buf\<rparr>" "Suc a"] obtain buf' where
    "fill_hole vs (iter_at d (Suc a)) (iter_at d (Suc a + length vs)) (d\<lparr>buffer := buf\<rparr>) = Inr (d\<lparr>buffer := buf'\<rparr>)"
    "length buf' = ?cap" "\<forall>i < ?cap. buf' ! i = slot zs (off ?b ?cap i)"
    using Cons.prems(1,2) v(3) len nth by (auto simp: iter_at_buffer spans_buffer)
  then show ?case
    using Cons.prems(1,2) c inc spans_block [OF Cons.prems(1)]
    by (intro exI [of _ buf'], subst fill_hole.simps) (simp add: spans_it_less it_index_iter_at)
qed

lemma filled_holds:
  assumes "spans d (length zs)" "length buf = buffer_capacity d"
    and "\<forall>i < buffer_capacity d. buf ! i = slot zs (off (begin_index d) (buffer_capacity d) i)"
  shows "holds (d\<lparr>buffer := buf\<rparr>) zs"
  using assms by (intro holdsI) (auto simp: spans_def)

text \<open>Making room and filling it.\<close>

lemma insert_middle_ok:
  assumes h: "holds d xs" and k: "k \<le> length xs" and vs: "vs \<noteq> []"
  shows "\<exists>d1 d2. MakeRoomFor (length vs) (iter_at d k) d = Inr (d1, iter_at d1 k, iter_at d1 (k + length vs)) \<and>
    fill_hole vs (iter_at d1 k) (iter_at d1 (k + length vs)) d1 = Inr d2 \<and>
    holds d2 (take k xs @ vs @ drop k xs) \<and> same_identity d d2 \<and>
    it_less d1 (iter_at d1 k) (iter_at d1 (k + length vs)) = Inr True \<and> (\<forall>j. iter_at d1 j = iter_at d2 j)"
proof -
  let ?zs = "take k xs @ vs @ drop k xs"
  obtain d1 where d1: "MakeRoomFor (length vs) (iter_at d k) d = Inr (d1, iter_at d1 k, iter_at d1 (k + length vs))"
    "spans d1 (length xs + length vs)" "same_identity d d1"
    "\<forall>i < buffer_capacity d1. buffer d1 ! i = gap xs (length vs) k (off (begin_index d1) (buffer_capacity d1) i)"
    using MakeRoomFor_ok [OF h k, of "length vs"] vs by auto
  have sp: "spans d1 (length ?zs)" using d1(2) k by (simp add: add.commute)
  have "take (length vs) (drop k ?zs) = vs" using k by simp
  from fill_hole_ok [OF sp _ this] obtain buf where
    "fill_hole vs (iter_at d1 k) (iter_at d1 (k + length vs)) d1 = Inr (d1\<lparr>buffer := buf\<rparr>)"
    "length buf = buffer_capacity d1"
    "\<forall>i < buffer_capacity d1. buf ! i = slot ?zs (off (begin_index d1) (buffer_capacity d1) i)"
    using d1(4) k gap_is_hole [OF k, of vs] by auto
  then show ?thesis
    using d1(1,3) filled_holds [OF sp] spans_it_less [OF d1(2), of k "k + length vs"] k vs
    by (intro exI [of _ d1] exI [of _ "d1\<lparr>buffer := buf\<rparr>"]) (auto simp: same_identity_def iter_at_buffer)
qed

section \<open>Insertion\<close>

lemma make_iterator_is_iter_at: "make_iterator d (it_index (iter_at d k)) = iter_at d k"
  by (simp add: iter_at_def make_iterator_def)

lemma push_front_times_ok:
  "holds d xs \<Longrightarrow> \<exists>d'. push_front_times n x d = Inr d' \<and> holds d' (replicate n x @ xs) \<and> this_ptr d' = this_ptr d"
proof (induction n arbitrary: d xs)
  case (Suc n)
  obtain d1 where d1: "push_front x d = Inr d1" "holds d1 (x # xs)" "this_ptr d1 = this_ptr d"
    using push_ok(2) [OF Suc.prems] by blast
  then show ?case using Suc.IH [OF d1(2)] by (auto simp: replicate_app_Cons_same)
qed simp

lemma insert_count_ok:
  assumes "holds d xs" "k \<le> length xs"
  shows "\<exists>d'. insert_count (iter_at d k) n x d = Inr d' \<and> holds d' (take k xs @ replicate n x @ drop k xs) \<and>
    this_ptr d' = this_ptr d"
proof -
  have eq: "it_eq (iter_at d k) (dq_begin d) = Inr (k = 0)"
    using it_eq_ok [OF assms, of 0] by (simp add: dq_begin_is [OF assms(1)])
  consider "k = 0" | "k \<noteq> 0" "n = 0" | "k \<noteq> 0" "n \<noteq> 0" by blast
  then show ?thesis
  proof cases
    case 1
    obtain d1 where d1: "ExpandCapacityIfNecessary n d = Inr d1" "holds d1 xs" "same_identity d d1"
      using Expand_ok [OF assms(1)] by blast
    then show ?thesis
      using push_front_times_ok [OF d1(2), of n x] eq 1 by (auto simp: insert_count_def same_identity_def)
  next
    case 2
    have "it_less d (iter_at d k) (iter_at d k) = Inr False" by (simp add: it_less_def)
    then have "fill_hole [] (iter_at d k) (iter_at d k) d = Inr d" by (subst fill_hole.simps) simp
    then show ?thesis
      using 2 eq assms(1)
      by (simp add: insert_count_def MakeRoomFor_def make_iterator_is_iter_at) (simp add: IncrementGeneration_def)
  next
    case 3
    then have "replicate n x \<noteq> []" by simp
    from insert_middle_ok [OF assms this] obtain d1 d2 where
      "MakeRoomFor n (iter_at d k) d = Inr (d1, iter_at d1 k, iter_at d1 (k + n))"
      "fill_hole (replicate n x) (iter_at d1 k) (iter_at d1 (k + n)) d1 = Inr d2"
      "holds d2 (take k xs @ replicate n x @ drop k xs)" "same_identity d d2" by auto
    then show ?thesis
      using 3 eq
      by (simp add: insert_count_def make_iterator_is_iter_at same_identity_def) (simp add: IncrementGeneration_def)
  qed
qed

lemma step_back_mod:
  fixes b :: nat
  assumes "b < cap" "n < cap"
  shows "(b + cap - n) mod cap = (if n \<le> b then b - n else b + cap - n)"
proof (cases "n \<le> b")
  case True
  then have "b + cap - n = (b - n) + cap" by simp
  then have "(b + cap - n) mod cap = (b - n) mod cap" by (simp only: mod_add_self2)
  then show ?thesis using True assms(1) by simp
qed (use assms in simp)

text \<open>Insertion of a range at the beginning opens the hole in front of the begin index.\<close>

lemma insert_front_ok:
  assumes "holds d xs" "vs \<noteq> []"
  shows "\<exists>d1 d2 d3. ExpandCapacityIfNecessary (length vs) d = Inr d1 \<and> buffer_capacity d1 \<noteq> 0 \<and>
    d2 = d1\<lparr>begin_index := (begin_index d1 + buffer_capacity d1 - length vs) mod buffer_capacity d1\<rparr> \<and>
    fill_hole vs (dq_begin d2) (dq_begin d1) d2 = Inr d3 \<and> holds d3 (vs @ xs) \<and> same_identity d d3"
proof -
  obtain d1 where d1: "ExpandCapacityIfNecessary (length vs) d = Inr d1" "holds d1 xs"
    "length xs + length vs \<le> dq_capacity d1" "same_identity d d1" using Expand_ok [OF assms(1)] by blast
  let ?b = "begin_index d1" and ?cap = "buffer_capacity d1" and ?n = "length vs"
  have room: "length xs + ?n < ?cap" using d1(3) assms(2) by (cases vs) (auto simp: dq_capacity_is)
  then have r: "?b < ?cap" "end_index d1 = idx ?b ?cap (length xs)"
    "\<And>i. i < ?cap \<Longrightarrow> buffer d1 ! i = slot xs (off ?b ?cap i)"
    using d1(2) by (auto simp: holds_def)
  define b where "b = (?b + ?cap - ?n) mod ?cap"
  have b: "b = (if ?n \<le> ?b then ?b - ?n else ?b + ?cap - ?n)" "b < ?cap"
    using step_back_mod [OF r(1), of ?n] r(1) room by (auto simp: b_def)
  define d2 where "d2 = d1\<lparr>begin_index := b\<rparr>"
  have behind: "idx b ?cap ?n = ?b" "end_index d1 = idx b ?cap (?n + length xs)"
    using b r(1,2) room by (auto simp: idx_def split: if_splits)
  have shift: "off b ?cap i = (if off ?b ?cap i + ?n < ?cap then off ?b ?cap i + ?n else off ?b ?cap i + ?n - ?cap)"
    if "i < ?cap" for i
    using that b r(1) room by (auto simp: off_def split: if_splits)
  have sp: "spans d2 (length (vs @ xs))" using room b(2) behind(2) by (simp add: spans_def d2_def)
  have "buffer d2 ! i = hole (vs @ xs) 0 (0 + ?n) (off (begin_index d2) (buffer_capacity d2) i)"
    if "i < buffer_capacity d2" for i
    using that r(3) [of i] shift [of i] room off_less [OF r(1), of i]
    by (auto simp: d2_def hole_def slot_def nth_append)
  from fill_hole_ok [OF sp _ _ this] obtain buf where
    buf: "fill_hole vs (iter_at d2 0) (iter_at d2 (0 + ?n)) d2 = Inr (d2\<lparr>buffer := buf\<rparr>)"
      "length buf = buffer_capacity d2"
      "\<forall>i < buffer_capacity d2. buf ! i = slot (vs @ xs) (off (begin_index d2) (buffer_capacity d2) i)" by auto
  have "dq_begin d2 = iter_at d2 0" "dq_begin d1 = iter_at d2 (0 + ?n)"
    using b(2) behind(1) r(1) by (auto simp: dq_begin_def iter_at_def make_iterator_def d2_def)
  then show ?thesis
    using d1 buf(1) filled_holds [OF sp buf(2,3)] r(1)
    by (intro exI [of _ d1] exI [of _ d2] exI [of _ "d2\<lparr>buffer := buf\<rparr>"])
      (auto simp: d2_def b_def same_identity_def)
qed

lemma insert_range_ok:
  assumes "holds d xs" "k \<le> length xs"
  shows "\<exists>d'. insert_range (iter_at d k) vs d = Inr d' \<and> holds d' (take k xs @ vs @ drop k xs) \<and>
    this_ptr d' = this_ptr d \<and> (vs \<noteq> [] \<longrightarrow> generation d' = generation d + 1)"
proof -
  have eq: "it_eq (iter_at d k) (dq_begin d) = Inr (k = 0)"
    using it_eq_ok [OF assms, of 0] by (simp add: dq_begin_is [OF assms(1)])
  consider "vs = []" | "vs \<noteq> []" "k = 0" | "vs \<noteq> []" "k \<noteq> 0" by blast
  then show ?thesis
  proof cases
    case 1
    then show ?thesis using assms(1) by (simp add: insert_range_def)
  next
    case 2
    from insert_front_ok [OF assms(1) 2(1)] show ?thesis
      using 2 eq
      by (auto simp: insert_range_def Let_def same_identity_def) (simp_all add: IncrementGeneration_def)
  next
    case 3
    from insert_middle_ok [OF assms 3(1)] show ?thesis
      using 3 eq
      by (auto simp: insert_range_def Let_def make_iterator_is_iter_at same_identity_def)
        (simp_all add: IncrementGeneration_def)
  qed
qed

lemma fill_one:
  assumes "fill_hole [x] c e d = Inr d'" "it_less d c e = Inr True"
  shows "construct_slot (it_index c) x d = Inr d'"
proof -
  have nil: "fill_hole [] c' e d1 = Inr d2 \<Longrightarrow> d2 = d1" for c' d1 d2
    by (subst (asm) fill_hole.simps) (auto simp: outcome_simps split: if_splits)
  show ?thesis
    using assms by (subst (asm) fill_hole.simps) (auto simp: outcome_simps dest: nil)
qed

lemma emplace_ok:
  assumes "holds d xs" "k \<le> length xs"
  shows "\<exists>d'. emplace (iter_at d k) x d = Inr (iter_at d' k, d') \<and> holds d' (take k xs @ x # drop k xs) \<and>
    this_ptr d' = this_ptr d \<and> generation d' = generation d + 1"
proof -
  have eq: "it_eq (iter_at d k) (dq_begin d) = Inr (k = 0)"
    using it_eq_ok [OF assms, of 0] by (simp add: dq_begin_is [OF assms(1)])
  show ?thesis
  proof (cases "k = 0")
    case True
    obtain d1 where "emplace_front x d = Inr (x, d1)" "holds d1 (x # xs)" "this_ptr d1 = this_ptr d"
        "generation d1 = generation d + 1"
      using emplace_front_ok [OF assms(1)] by blast
    then show ?thesis using True eq by (auto simp: emplace_def dq_begin_is)
  next
    case False
    let ?d = "IncrementGeneration d"
    have "holds ?d xs" using assms(1) by simp
    from insert_middle_ok [OF this assms(2), of "[x]"] obtain d1 d2 where
      m: "MakeRoomFor 1 (iter_at ?d k) ?d = Inr (d1, iter_at d1 k, iter_at d1 (k + 1))"
      "fill_hole [x] (iter_at d1 k) (iter_at d1 (k + 1)) d1 = Inr d2"
      "holds d2 (take k xs @ x # drop k xs)" "same_identity ?d d2"
      "it_less d1 (iter_at d1 k) (iter_at d1 (k + 1)) = Inr True" "iter_at d1 k = iter_at d2 k" by auto
    have "make_iterator ?d (it_index (iter_at d k)) = iter_at ?d k"
      by (simp add: iter_at_def make_iterator_def IncrementGeneration_def)
    then show ?thesis
      using False eq m fill_one [OF m(2,5)]
      by (simp add: emplace_def Let_def same_identity_def) (simp add: IncrementGeneration_def)
  qed
qed

section \<open>Erasure\<close>

text \<open>Elements up to offset \<open>s\<close> have moved down by \<open>c\<close> over the erased ones.\<close>

definition closing :: "'a list \<Rightarrow> nat \<Rightarrow> nat \<Rightarrow> nat \<Rightarrow> nat \<Rightarrow> 'a option" where
  "closing xs p c s o' =
     (if o' < s - c then slot (take p xs @ drop (p + c) xs) o' else if o' < s then None else slot xs o')"

lemma shift_left_ok:
  assumes "spans d (length xs)" "0 < c" "p + c \<le> s" "s \<le> length xs" "length xs \<le> s + fuel"
    and "\<And>i. i < buffer_capacity d \<Longrightarrow>
      buffer d ! i = closing xs p c s (off (begin_index d) (buffer_capacity d) i)"
  shows "\<exists>buf. shift_left fuel (iter_at d s) (iter_at d (length xs)) (iter_at d (s - c)) d =
      Inr (iter_at d (length xs - c), d\<lparr>buffer := buf\<rparr>) \<and> length buf = buffer_capacity d \<and>
    (\<forall>i < buffer_capacity d. buf ! i = closing xs p c (length xs) (off (begin_index d) (buffer_capacity d) i))"
  using assms
proof (induction fuel arbitrary: d s)
  case 0
  then show ?case
    by (intro exI [of _ "buffer d"], subst shift_left.simps) (simp add: spans_it_less)
next
  case (Suc fuel)
  let ?b = "begin_index d" and ?cap = "buffer_capacity d"
  show ?case
  proof (cases "s = length xs")
    case True
    then show ?thesis
      using Suc.prems by (intro exI [of _ "buffer d"], subst shift_left.simps) (simp add: spans_it_less)
  next
    case False
    then have s: "s < length xs" using Suc.prems(4) by simp
    have sp: "?b < ?cap" "length xs < ?cap" using Suc.prems(1) by (auto simp: spans_def)
    define t where "t = s - c"
    have t: "s = t + c" "p \<le> t" using Suc.prems(3) by (auto simp: t_def)
    define buf where "buf = (buffer d)[idx ?b ?cap t := Some (xs ! s), idx ?b ?cap s := None]"
    have len: "length buf = ?cap" by (simp add: buf_def)
    have moved: "slot (take p xs @ drop (p + c) xs) t = Some (xs ! s)"
      using s t by (simp add: slot_def nth_append add.commute)
    have nth: "buf ! i = closing xs p c (Suc s) (off ?b ?cap i)" if "i < ?cap" for i
    proof -
      consider "off ?b ?cap i = t" | "off ?b ?cap i = s" | "off ?b ?cap i \<noteq> t" "off ?b ?cap i \<noteq> s" by blast
      then show ?thesis
        using that sp s t Suc.prems(2) Suc.prems(6) [OF that] moved
        by cases (auto simp: buf_def nth_update_idx closing_def)
    qed
    have move: "move_slot (idx ?b ?cap s) (idx ?b ?cap t) d = Inr (d\<lparr>buffer := buf\<rparr>)"
      using sp s t Suc.prems(2) unfolding buf_def
      by (intro move_slot_ok) (auto simp: Suc.prems(6) ring_simps closing_def)
    have inc: "Increment (d\<lparr>buffer := buf\<rparr>) (iter_at d j) = Inr (iter_at d (Suc j))" if "j < length xs" for j
      using spans_Increment [of "d\<lparr>buffer := buf\<rparr>" "length xs" j] Suc.prems(1) that len
      by (simp add: spans_buffer iter_at_buffer)
    have "Suc s - c = Suc t" using t by simp
    with Suc.IH [of "d\<lparr>buffer := buf\<rparr>" "Suc s"] obtain buf' where
      "shift_left fuel (iter_at d (Suc s)) (iter_at d (length xs)) (iter_at d (Suc t)) (d\<lparr>buffer := buf\<rparr>) =
        Inr (iter_at d (length xs - c), d\<lparr>buffer := buf'\<rparr>)"
      "length buf' = ?cap" "\<forall>i < ?cap. buf' ! i = closing xs p c (length xs) (off ?b ?cap i)"
      using Suc.prems s len nth by (auto simp: iter_at_buffer spans_buffer)
    then show ?thesis
      using s t move inc spans_block [OF Suc.prems(1)] spans_it_less [OF Suc.prems(1), of s "length xs"]
      by (intro exI [of _ buf'], subst shift_left.simps) (simp add: it_index_iter_at)
  qed
qed

lemma destroy_pieces:
  "i \<noteq> j \<Longrightarrow> (if i < j then destroy_slots i j d
     else and_then (destroy_slots i (buffer_capacity d) d) (destroy_slots 0 j)) = dq_DestructRange i j d"
  by (auto simp: destroy_slots_def dq_DestructRange_def map_outcome_def and_then_def split: sum.splits)

lemma closing_done:
  assumes "p \<le> q" "q \<le> length xs"
  shows "closing xs p (q - p) (length xs) o' = slot (take p xs @ drop q xs) o'"
  using assms by (auto simp: closing_def slot_def)

lemma off_from_idx:
  assumes "b < cap" "q < cap" "i < cap"
  shows "off (idx b cap q) cap i = (if q \<le> off b cap i then off b cap i - q else off b cap i + cap - q)"
  using assms by (cases "b \<le> i"; cases "b + q < cap") (auto simp: idx_def off_def)

lemma drop_front_holds:
  assumes r: "length xs < buffer_capacity d" "begin_index d < buffer_capacity d"
      "end_index d = idx (begin_index d) (buffer_capacity d) (length xs)"
      "\<And>i. i < buffer_capacity d \<Longrightarrow> buffer d ! i = slot xs (off (begin_index d) (buffer_capacity d) i)"
    and q: "q \<le> length xs" and len: "length buf = buffer_capacity d"
    and nth: "\<forall>i < buffer_capacity d. buf ! i =
      (if off (begin_index d) (buffer_capacity d) i < q then None else buffer d ! i)"
  shows "holds (d\<lparr>buffer := buf, begin_index := idx (begin_index d) (buffer_capacity d) q\<rparr>) (drop q xs)"
proof (rule holdsI, goal_cases)
  case 3
  then show ?case using r(1-3) q len by (auto simp: idx_def split: if_splits)
next
  case (4 i)
  then have i: "i < buffer_capacity d" using len by simp
  then show ?case
    using off_from_idx [OF r(2) _ i, of q] len nth r(1,4) q off_less [OF r(2) i] by (auto simp: slot_def)
qed (use r(1,2) q len idx_less [OF r(2), of q] in auto)

lemma erase_range_ok:
  assumes h: "holds d xs" and pq: "p \<le> q" "q \<le> length xs"
  shows "\<exists>d'. erase_range (iter_at d p) (iter_at d q) d = Inr (iter_at d' p, d') \<and>
    holds d' (take p xs @ drop q xs) \<and> this_ptr d' = this_ptr d \<and> generation d' = generation d + 1"
proof (cases "p = q")
  case True
  then show ?thesis
    using h by (simp add: erase_range_def Let_def)
      (simp add: iter_at_def make_iterator_def IncrementGeneration_def)
next
  case False
  then have lt: "p < q" and ne: "xs \<noteq> []" using pq by auto
  let ?d = "IncrementGeneration d"
  have h1: "holds ?d xs" using h by simp
  note r = holds_nonempty [OF h1 ne] and sp = holds_spans_nonempty [OF h1 ne]
  let ?b = "begin_index ?d" and ?cap = "buffer_capacity ?d"
  have ix: "it_index (iter_at d j) = idx ?b ?cap j" for j
    using r(1) by (simp add: iter_at_def make_iterator_def IncrementGeneration_def) auto
  have neq: "idx ?b ?cap p \<noteq> idx ?b ?cap q" using idx_inject [OF r(2)] lt pq r(1) by simp
  obtain buf where buf: "dq_DestructRange (idx ?b ?cap p) (idx ?b ?cap q) ?d = Inr (?d\<lparr>buffer := buf\<rparr>)"
    "length buf = ?cap" and nth: "\<forall>i < ?cap. buf ! i = (if p \<le> off ?b ?cap i \<and> off ?b ?cap i < q
       then None else buffer ?d ! i)"
    using dq_DestructRange_ok [OF r(1,2,4) pq] by blast
  let ?d2 = "?d\<lparr>buffer := buf\<rparr>"
  have it2: "make_iterator ?d2 (idx ?b ?cap j) = iter_at ?d2 j" for j
    using buf(2) r(1) by (auto simp: iter_at_def make_iterator_def)
  show ?thesis
  proof (cases "p = 0")
    case True
    define d3 where "d3 = ?d2\<lparr>begin_index := idx ?b ?cap q\<rparr>"
    have "holds d3 (drop q xs)"
      using drop_front_holds [OF r _ buf(2), of q] pq nth True by (simp add: d3_def)
    moreover have "erase_range (iter_at d p) (iter_at d q) d = Inr (make_iterator d3 (idx ?b ?cap q), d3)"
      using neq buf(1) True r(2) by (simp add: erase_range_def ix Let_def destroy_pieces d3_def)
    moreover have "make_iterator d3 (idx ?b ?cap q) = iter_at d3 p"
      using True buf(2) r(1,2) pq idx_less [OF r(2), of q] by (auto simp: d3_def iter_at_def make_iterator_def)
    ultimately show ?thesis using True by (simp add: d3_def) (simp add: IncrementGeneration_def)
  next
    case False
    have ends: "dq_end ?d2 = iter_at ?d2 (length xs)" using r(3) it2 by (simp add: dq_end_def)
    have "buffer ?d2 ! i = closing xs p (q - p) q (off (begin_index ?d2) (buffer_capacity ?d2) i)"
      if "i < buffer_capacity ?d2" for i
      using that buf(2) nth r(4) lt pq by (auto simp: closing_def slot_def nth_append)
    with shift_left_ok [of ?d2 xs "q - p" p q ?cap] obtain buf' where
      sh: "shift_left ?cap (iter_at ?d2 q) (iter_at ?d2 (length xs)) (iter_at ?d2 p) ?d2 =
          Inr (iter_at ?d2 (length xs - (q - p)), ?d2\<lparr>buffer := buf'\<rparr>)"
        "length buf' = ?cap" "\<forall>i < ?cap. buf' ! i = closing xs p (q - p) (length xs) (off ?b ?cap i)"
      using sp buf(2) lt pq r(1) by (auto simp: spans_def)
    define d4 where "d4 = ?d2\<lparr>buffer := buf', end_index := idx ?b ?cap (length xs - (q - p))\<rparr>"
    have "holds d4 (take p xs @ drop q xs)"
      using r(1,2) pq lt sh(2,3) by (intro holdsI) (auto simp: d4_def closing_done min_def add.commute)
    moreover have "erase_range (iter_at d p) (iter_at d q) d = Inr (make_iterator d4 (idx ?b ?cap p), d4)"
    proof -
      have "idx ?b ?cap p \<noteq> ?b" using False r(1,2) pq lt by (auto simp: idx_def)
      moreover have "buffer ?d2 \<noteq> []" using buf(2) r(1) by auto
      ultimately show ?thesis
        using neq buf sh(1) ends it2
        by (simp add: erase_range_def ix Let_def destroy_pieces d4_def it_index_iter_at)
    qed
    moreover have "make_iterator d4 (idx ?b ?cap p) = iter_at d4 p"
      using sh(2) r(1) by (auto simp: d4_def iter_at_def make_iterator_def)
    ultimately show ?thesis by (simp add: d4_def) (simp add: IncrementGeneration_def)
  qed
qed

section \<open>Iterator arithmetic\<close>

lemma holds_no_block_invalid: "holds d xs \<Longrightarrow> buffer d = [] \<Longrightarrow> \<not> CheckValidIndex d i \<and> xs = []"
  by (auto simp: holds_def CheckValidIndex_def)

lemma it_Add_ok:
  assumes h: "holds d xs" and k: "k \<le> length xs"
  shows "it_Add d (int n) (iter_at d k) =
    (if k + n \<le> length xs then Inr (iter_at d (k + n)) else Inl Dcheck_failed)"
proof (cases "buffer d = []")
  case True
  then have "xs = []" "\<not> CheckValidIndex d i" for i using holds_no_block_invalid [OF h True] by auto
  moreover have "CheckValidIndexOrEnd d (it_index (iter_at d k))"
    using True by (simp add: CheckValidIndexOrEnd_def iter_at_def make_iterator_def)
  ultimately show ?thesis using k by (auto simp: it_Add_def)
next
  case False
  note sp = holds_spans [OF h False]
  have s: "length xs < buffer_capacity d" "begin_index d < buffer_capacity d" using sp by (auto simp: spans_def)
  have ix: "it_index (iter_at d k) = idx (begin_index d) (buffer_capacity d) k" by (rule it_index_iter_at [OF False])
  have v: "CheckValidIndex d (it_index (iter_at d k)) \<longleftrightarrow> k < length xs"
    "CheckValidIndexOrEnd d (it_index (iter_at d k))"
    using s k by (simp_all add: ix spans_valid_index [OF sp] spans_valid_index_or_end [OF sp] ring_simps)
  have "(k + n + begin_index d) mod buffer_capacity d = idx (begin_index d) (buffer_capacity d) (k + n)"
    if "k + n \<le> length xs"
    using that s idx_mod [OF s(2), of "k + n"] by (simp add: add.commute)
  moreover have "(iter_at d k)\<lparr>it_index := idx (begin_index d) (buffer_capacity d) (k + n)\<rparr> = iter_at d (k + n)"
    using False by (simp add: iter_at_def make_iterator_def)
  ultimately show ?thesis
    using v k False
    by (cases "n = 0") (auto simp: it_Add_def Let_def spans_offset [OF sp] holds_size [OF h] nat_int_add)
qed

lemma erase_one_ok:
  assumes "holds d xs" "k < length xs"
  shows "\<exists>d'. erase_one (iter_at d k) d = Inr (iter_at d' k, d') \<and> holds d' (take k xs @ drop (Suc k) xs) \<and>
    this_ptr d' = this_ptr d \<and> generation d' = generation d + 1"
  using it_Add_ok [OF assms(1), of k 1] erase_range_ok [OF assms(1), of k "Suc k"] assms(2)
  by (simp add: erase_one_def)

section \<open>Runs\<close>

text \<open>
  A client that uses the whole interface.  Positions are given as offsets and turned into
  iterators by adding to \<^verbatim>\<open>begin()\<close>; after every operation all elements are read back through iterators.
\<close>

datatype 'a dq_op =
    Push_back 'a | Push_front 'a | Pop_back | Pop_front
  | Resize nat 'a | Reserve nat | Shrink_to_fit | Clear_all
  | Assign "'a list" | Assign_copies nat 'a
  | Insert_at nat "'a list" | Insert_copies nat nat 'a | Emplace_at nat 'a | Erase_at nat nat

fun apply_op :: "'a circular_deque \<Rightarrow> 'a dq_op \<Rightarrow> 'a circular_deque outcome" where
  "apply_op d (Push_back x) = push_back x d"
| "apply_op d (Push_front x) = push_front x d"
| "apply_op d Pop_back = pop_back d"
| "apply_op d Pop_front = pop_front d"
| "apply_op d (Resize n x) = resize_value n x d"
| "apply_op d (Reserve n) = dq_reserve n d"
| "apply_op d Shrink_to_fit = shrink_to_fit d"
| "apply_op d Clear_all = dq_clear d"
| "apply_op d (Assign xs) = assign_list xs d"
| "apply_op d (Assign_copies n x) = assign_count n x d"
| "apply_op d (Insert_at k xs) = and_then (it_Add d (int k) (dq_begin d)) (\<lambda>it. insert_range it xs d)"
| "apply_op d (Insert_copies k n x) = and_then (it_Add d (int k) (dq_begin d)) (\<lambda>it. insert_count it n x d)"
| "apply_op d (Emplace_at k x) =
     and_then (it_Add d (int k) (dq_begin d)) (\<lambda>it. map_outcome snd (emplace it x d))"
| "apply_op d (Erase_at k n) =
     and_then (it_Add d (int k) (dq_begin d)) (\<lambda>it. and_then (it_Add d (int n) it) (\<lambda>last_it.
       map_outcome snd (erase_range it last_it d)))"

fun list_op :: "'a list \<Rightarrow> 'a dq_op \<Rightarrow> 'a list outcome" where
  "list_op xs (Push_back x) = Inr (xs @ [x])"
| "list_op xs (Push_front x) = Inr (x # xs)"
| "list_op xs Pop_back = dcheck (xs \<noteq> []) (Inr (butlast xs))"
| "list_op xs Pop_front = dcheck (xs \<noteq> []) (Inr (tl xs))"
| "list_op xs (Resize n x) = Inr (take n xs @ replicate (n - length xs) x)"
| "list_op xs (Reserve n) = Inr xs"
| "list_op xs Shrink_to_fit = Inr xs"
| "list_op xs Clear_all = Inr []"
| "list_op xs (Assign ys) = Inr ys"
| "list_op xs (Assign_copies n x) = Inr (replicate n x)"
| "list_op xs (Insert_at k ys) = dcheck (k \<le> length xs) (Inr (take k xs @ ys @ drop k xs))"
| "list_op xs (Insert_copies k n x) = dcheck (k \<le> length xs) (Inr (take k xs @ replicate n x @ drop k xs))"
| "list_op xs (Emplace_at k x) = dcheck (k \<le> length xs) (Inr (take k xs @ x # drop k xs))"
| "list_op xs (Erase_at k n) = dcheck (k + n \<le> length xs) (Inr (take k xs @ drop (k + n) xs))"

lemma begin_plus:
  "holds d xs \<Longrightarrow> it_Add d (int k) (dq_begin d) =
     (if k \<le> length xs then Inr (iter_at d k) else Inl Dcheck_failed)"
  using it_Add_ok [of d xs 0 k] by (simp add: dq_begin_is)

lemma at_position:
  assumes "holds d xs" "k \<le> length xs \<Longrightarrow> matches holds (f (iter_at d k)) (Inr ys)"
  shows "matches holds (and_then (it_Add d (int k) (dq_begin d)) f) (dcheck (k \<le> length xs) (Inr ys))"
  using assms(2) by (auto simp: begin_plus [OF assms(1)] matches_def dcheck_def)

lemma apply_op_simulates:
  assumes h: "holds d xs"
  shows "matches holds (apply_op d op) (list_op xs op)"
proof (cases op)
  case (Emplace_at k x)
  then show ?thesis
    using emplace_ok [OF h, of k x] by (auto intro!: at_position [OF h] matchesI)
next
  case (Erase_at k n)
  show ?thesis
  proof (cases "k \<le> length xs")
    case True
    then show ?thesis
      using Erase_at erase_range_ok [OF h, of k "k + n"] it_Add_ok [OF h True, of n]
      by (auto simp: begin_plus [OF h] matches_def dcheck_def)
  qed (use Erase_at in \<open>simp add: begin_plus [OF h] matches_def\<close>)
next
  case (Insert_at k ys)
  then show ?thesis
    using insert_range_ok [OF h, of k ys] by (auto intro!: at_position [OF h] matchesI)
next
  case (Insert_copies k n x)
  then show ?thesis
    using insert_count_ok [OF h, of k n x] by (auto intro!: at_position [OF h] matchesI)
next
  case Pop_back
  then show ?thesis using pop_back_ok [OF h] by (auto simp: matches_def split: if_splits)
next
  case Pop_front
  then show ?thesis using pop_front_ok [OF h] by (auto simp: matches_def split: if_splits)
next
  case (Push_back x)
  then show ?thesis using push_ok(1) [OF h] by (auto intro!: matchesI)
next
  case (Push_front x)
  then show ?thesis using push_ok(2) [OF h] by (auto intro!: matchesI)
next
  case (Resize n x)
  then show ?thesis using resize_value_ok [OF h] by (auto intro!: matchesI)
next
  case (Reserve n)
  then show ?thesis using dq_reserve_ok [OF h] by (auto intro!: matchesI)
next
  case Shrink_to_fit
  then show ?thesis using shrink_to_fit_ok [OF h] by (auto intro!: matchesI)
next
  case Clear_all
  then show ?thesis using dq_clear_ok [OF h] by (auto intro!: matchesI)
next
  case (Assign ys)
  then show ?thesis using assign_list_ok [OF h] by (auto intro!: matchesI)
next
  case (Assign_copies n x)
  then show ?thesis using assign_count_ok [OF h] by (auto intro!: matchesI)
qed

interpretation deque: observed_refinement holds apply_op list_op read_elements "\<lambda>xs. xs"
  using apply_op_simulates read_elements_ok by unfold_locales

section \<open>Properties\<close>

text \<open>
  C2: the circular deque is a list.  For any sequence of operations on a new deque, at both ends,
  in the middle, on the size and on the capacity, it meets a fault exactly where the list
  specification fails a check (a pop from an empty deque, a position past the end), and otherwise
  the elements read back through iterators after every operation are those of the list; the
  accessors of the final deque agree with the list, no access ever leaves the block or touches a
  slot without an object, and destroying the deque destroys every object it still holds.
\<close>

theorem deque_refines_list:
  "case run_all (observed list_op (\<lambda>xs. Inr xs)) [] ops of
     Inl e \<Rightarrow> run_all (observed apply_op read_elements) (circular_deque_default ptr) ops = Inl e
   | Inr (yss, ys) \<Rightarrow> \<exists>d. run_all (observed apply_op read_elements) (circular_deque_default ptr) ops = Inr (yss, d) \<and>
       dq_size d = length ys \<and> dq_empty d = (ys = []) \<and>
       dq_at d k = (if k < length ys then Inr (ys ! k) else Inl Dcheck_failed) \<and>
       dq_front d = (if ys = [] then Inl Dcheck_failed else Inr (hd ys)) \<and>
       dq_back d = (if ys = [] then Inl Dcheck_failed else Inr (last ys)) \<and>
       dq_destroy d = Inr ()"
proof -
  have final: "dq_size d = length ys \<and> dq_empty d = (ys = []) \<and>
      dq_at d k = (if k < length ys then Inr (ys ! k) else Inl Dcheck_failed) \<and>
      dq_front d = (if ys = [] then Inl Dcheck_failed else Inr (hd ys)) \<and>
      dq_back d = (if ys = [] then Inl Dcheck_failed else Inr (last ys)) \<and> dq_destroy d = Inr ()"
    if "holds d ys" for d :: "'a circular_deque" and ys
    using holds_size [OF that] holds_empty [OF that] dq_at_ok [OF that] dq_front_ok [OF that]
      dq_back_ok [OF that] dq_destroy_ok [OF that] by simp
  show ?thesis
    using deque.run_refines [OF holds_default [of ptr], of ops]
    by (auto split: sum.splits dest!: final)
qed

lemma list_op_ends: "list_op xs op \<noteq> Inl Out_of_fuel"
  by (cases op) (auto simp: dcheck_def)

lemma list_run_ends: "run_all (observed list_op (\<lambda>xs. Inr xs)) xs ops \<noteq> Inl Out_of_fuel"
proof (induction ops arbitrary: xs)
  case (Cons op ops)
  show ?case
  proof (cases "list_op xs op")
    case (Inl e)
    then show ?thesis using list_op_ends [of xs op] by (simp add: observed_def)
  next
    case (Inr ys)
    then have "observed list_op (\<lambda>xs. Inr xs) xs op = Inr (ys, ys)" by (simp add: observed_def)
    then show ?thesis
      using Cons.IH [of ys] by (cases "run_all (observed list_op (\<lambda>xs. Inr xs)) ys ops") auto
  qed
qed simp

text \<open>
  The loops of the deque end: those that move, fill, read and close gaps run until two iterators into the
  ring are equal; in no run of operations on a new deque, whatever the operations and their arguments, does one
  of them use up the number of steps that the capacity of the block allows.
\<close>

lemma deque_loops_end: "run_all (observed apply_op read_elements) (circular_deque_default ptr) ops \<noteq> Inl Out_of_fuel"
  using deque.run_refines [OF holds_default [of ptr], of ops] list_run_ends [of "[]" ops]
  by (auto split: sum.splits)

text \<open>
  C9: iterators and change.  An iterator to any element, taken before an element is pushed or popped at either end or
  emplaced at any position, before a range that is not empty is inserted at any position, before any element
  or any range is erased, or before the deque is cleared, fails its check when it is dereferenced afterwards.
  A reallocation by \<^verbatim>\<open>reserve\<close> is not noticed, although it moves the elements: the old iterator
  still passes the check on its generation, and reads the element whose offset is the slot it
  used to point to, or fails the range check where there is none.
\<close>

theorem stale_iterators:
  assumes "holds d xs" "k < length xs" "j \<le> length xs" "e < length xs" "p \<le> q" "q \<le> length xs" "vs \<noteq> []"
    and "dq_capacity d < n"
  shows "(\<exists>d'. push_back x d = Inr d' \<and> it_deref d' (iter_at d k) = Inl Dcheck_failed) \<and>
    (\<exists>d'. push_front x d = Inr d' \<and> it_deref d' (iter_at d k) = Inl Dcheck_failed) \<and>
    (\<exists>d'. pop_back d = Inr d' \<and> it_deref d' (iter_at d k) = Inl Dcheck_failed) \<and>
    (\<exists>d'. pop_front d = Inr d' \<and> it_deref d' (iter_at d k) = Inl Dcheck_failed) \<and>
    (\<exists>it d'. emplace (iter_at d j) x d = Inr (it, d') \<and> it_deref d' (iter_at d k) = Inl Dcheck_failed) \<and>
    (\<exists>d'. insert_range (iter_at d j) vs d = Inr d' \<and> it_deref d' (iter_at d k) = Inl Dcheck_failed) \<and>
    (\<exists>it d'. erase_one (iter_at d e) d = Inr (it, d') \<and> it_deref d' (iter_at d k) = Inl Dcheck_failed) \<and>
    (\<exists>it d'. erase_range (iter_at d p) (iter_at d q) d = Inr (it, d') \<and> it_deref d' (iter_at d k) = Inl Dcheck_failed) \<and>
    (\<exists>d'. dq_clear d = Inr d' \<and> it_deref d' (iter_at d k) = Inl Dcheck_failed) \<and>
    (\<exists>d'. dq_reserve n d = Inr d' \<and> CheckUnstableUsage d' (iter_at d k) \<and>
       it_deref d' (iter_at d k) =
         (let i = it_index (iter_at d k) in if i < length xs then Inr (xs ! i) else Inl Dcheck_failed))"
proof -
  have stale: "it_deref d' (iter_at d k) = Inl Dcheck_failed" if "generation d' = generation d + 1" for d'
    using that by (simp add: it_deref_def CheckUnstableUsage_def)
  have ne: "xs \<noteq> []" using assms(2) by auto
  have "length xs \<le> n" using holds_capacity [OF assms(1)] assms(8) by simp
  then obtain d' where d': "dq_reserve n d = Inr d'" "holds d' xs" "same_identity d d'" "begin_index d' = 0"
      "buffer_capacity d' = n + 1"
    using SetCapacityTo_ok [OF assms(1)] assms(8) by (auto simp: dq_reserve_def)
  have cu: "CheckUnstableUsage d' (iter_at d k)"
    using d'(3) by (simp add: CheckUnstableUsage_def same_identity_def)
  note r = holds_nonempty [OF d'(2) ne] and sp = holds_spans_nonempty [OF d'(2) ne]
  have "it_deref d' (iter_at d k) =
      (let i = it_index (iter_at d k) in if i < length xs then Inr (xs ! i) else Inl Dcheck_failed)"
    using cu r sp d'(4) by (auto simp: it_deref_def spans_valid_index dq_slot_def vb_access Let_def)
  moreover have "\<exists>d'. pop_back d = Inr d' \<and> generation d' = generation d + 1"
    "\<exists>d'. pop_front d = Inr d' \<and> generation d' = generation d + 1"
    using pop_back_ok [OF assms(1)] pop_front_ok [OF assms(1)] ne by auto
  moreover note push_ok(1) [OF assms(1), of x] push_ok(2) [OF assms(1), of x] emplace_ok [OF assms(1,3), of x]
    insert_range_ok [OF assms(1,3), of vs] erase_one_ok [OF assms(1,4)] erase_range_ok [OF assms(1,5,6)]
    dq_clear_ok [OF assms(1)]
  ultimately show ?thesis
    using stale d'(1) cu assms(7) by (intro conjI; blast)
qed

text \<open>A deque whose first element sits in the last slot: a reservation makes an old iterator read
  another element.\<close>

definition wrapped_deque :: "nat circular_deque" where
  "wrapped_deque = \<lparr>this_ptr = 1, buffer = [Some 20, Some 30, None, Some 10], begin_index = 3, end_index = 2,
     generation = 0\<rparr>"

lemma wrapped_deque_holds: "holds wrapped_deque [10, 20, 30]"
  by (auto simp: holds_def wrapped_deque_def idx_def off_def slot_def less_Suc_eq numeral_nat)

theorem stale_iterators_witness:
  "\<exists>d'. dq_reserve 4 wrapped_deque = Inr d' \<and> CheckUnstableUsage d' (iter_at wrapped_deque 1) \<and>
     it_deref wrapped_deque (iter_at wrapped_deque 1) = Inr 20 \<and>
     it_deref d' (iter_at wrapped_deque 1) = Inr 10"
proof -
  have "it_deref wrapped_deque (iter_at wrapped_deque 1) = Inr 20"
    using it_deref_ok [OF wrapped_deque_holds, of 1] by simp
  moreover have "dq_capacity wrapped_deque < 4" "it_index (iter_at wrapped_deque 1) = 0"
    by (simp_all add: dq_capacity_def wrapped_deque_def iter_at_def make_iterator_def idx_def)
  ultimately show ?thesis
    using stale_iterators [OF wrapped_deque_holds, of 1 0 2 0 3 "[5]" 4] by auto
qed

text \<open>
  C35: room and capacity, on any deque, empty or not.  After a pop, which needs an element, the capacity is at most three or
  twice the number of elements left, so that a deque that drains gives its memory back; pushing at either end never shrinks it
  and makes room for the new element; \<^verbatim>\<open>reserve\<close> is honoured, \<^verbatim>\<open>shrink_to_fit\<close> leaves no spare room and \<^verbatim>\<open>clear\<close>
  leaves none at all.
\<close>

theorem deque_capacity:
  assumes "holds d xs"
  shows "(if dq_size d = 0 then pop_front d = Inl Dcheck_failed \<and> pop_back d = Inl Dcheck_failed
     else (\<exists>d'. pop_front d = Inr d' \<and> dq_size d' = dq_size d - 1 \<and> dq_capacity d' \<le> max 3 (2 * dq_size d')) \<and>
       (\<exists>d'. pop_back d = Inr d' \<and> dq_size d' = dq_size d - 1 \<and> dq_capacity d' \<le> max 3 (2 * dq_size d'))) \<and>
    (\<exists>d'. push_back x d = Inr d' \<and> dq_capacity d \<le> dq_capacity d' \<and> dq_size d' = dq_size d + 1 \<and> dq_size d' \<le> dq_capacity d') \<and>
    (\<exists>d'. push_front x d = Inr d' \<and> dq_capacity d \<le> dq_capacity d' \<and> dq_size d' = dq_size d + 1 \<and> dq_size d' \<le> dq_capacity d') \<and>
    (\<exists>d'. dq_reserve n d = Inr d' \<and> n \<le> dq_capacity d' \<and> dq_size d' = dq_size d) \<and>
    (\<exists>d'. shrink_to_fit d = Inr d' \<and> dq_capacity d' = dq_size d' \<and> dq_size d' = dq_size d) \<and>
    (\<exists>d'. dq_clear d = Inr d' \<and> dq_capacity d' = 0 \<and> dq_size d' = 0)"
  (is "?pop \<and> ?push_b \<and> ?push_f \<and> ?res \<and> ?fit \<and> ?clr")
proof (intro conjI)
  note size = holds_size [OF assms]
  show ?pop
  proof (cases "xs = []")
    case True
    then show ?thesis using pop_front_ok [OF assms] pop_back_ok [OF assms] size by simp
  next
    case False
    then obtain d1 d2 where "pop_front d = Inr d1" "holds d1 (tl xs)" "dq_capacity d1 \<le> max 3 (2 * length (tl xs))"
      "pop_back d = Inr d2" "holds d2 (butlast xs)" "dq_capacity d2 \<le> max 3 (2 * length (butlast xs))"
      using pop_front_ok [OF assms] pop_back_ok [OF assms] by auto
    then show ?thesis using False size holds_size [of d1 "tl xs"] holds_size [of d2 "butlast xs"] by simp
  qed
  show ?push_b using push_ok(1) [OF assms, of x] holds_capacity holds_size size by fastforce
  show ?push_f using push_ok(2) [OF assms, of x] holds_capacity holds_size size by fastforce
  show ?res using dq_reserve_ok [OF assms, of n] size holds_size by metis
  show ?fit using shrink_to_fit_ok [OF assms] size holds_size by metis
  show ?clr using dq_clear_ok [OF assms] holds_size by fastforce
qed

theorem deque_capacity_witness:
  "\<exists>d'. pop_front wrapped_deque = Inr d' \<and> dq_capacity d' \<le> max 3 (2 * dq_size d')"
proof -
  have "dq_size wrapped_deque \<noteq> 0" using holds_size [OF wrapped_deque_holds] by simp
  then show ?thesis using deque_capacity [OF wrapped_deque_holds] by (auto split: if_splits)
qed

end
