(* ===== verification/Intrusive_Heap.thy ===== *)
theory Intrusive_Heap
  imports Prelude "HOL-Library.Multiset"
begin

text \<open>
  \<^verbatim>\<open>base/containers/intrusive_heap.h\<close>: a binary max-heap in a vector whose elements carry handles.  An element
  of type \<^verbatim>\<open>WithHeapHandle<V>\<close> is a value and the handle object it owns; the handle object is
  identified by a number, and the heap's state holds what every handle object contains.  The record of a handle
  is kept after its element has left the heap: in the source it then lives on with a taken element or in a handle that a
  client stores itself, and is destroyed with an erased one.  Moving an
  element moves the handle object with it and leaves a moved-from object, \<open>None\<close>, which has no
  handle object and must not be compared.  Comparison is a parameter, as in the source.
  \<^verbatim>\<open>std::vector\<close> is a list; an index outside it is undefined behaviour.
\<close>

section \<open>Definitions\<close>

subsection \<open>Handles\<close>

type_synonym HeapHandle = nat

definition kInvalidIndex :: HeapHandle where
  "kInvalidIndex = 2 ^ 64 - 1"

definition IsValid :: "HeapHandle \<Rightarrow> bool" where
  "IsValid h \<longleftrightarrow> h \<noteq> kInvalidIndex"

type_synonym 'a element = "nat \<times> 'a"

record 'a IntrusiveHeap =
  slots :: "'a element option list"
  handles :: "nat \<Rightarrow> HeapHandle"

abbreviation heap_size :: "'a IntrusiveHeap \<Rightarrow> nat" where
  "heap_size h \<equiv> length (slots h)"

definition IntrusiveHeap_default :: "'a IntrusiveHeap" where
  "IntrusiveHeap_default = \<lparr>slots = [], handles = (\<lambda>_. kInvalidIndex)\<rparr>"

definition ParentIndex :: "nat \<Rightarrow> nat outcome" where
  "ParentIndex i = dcheck (i \<noteq> 0) (Inr ((i - 1) div 2))"

definition LeftIndex :: "nat \<Rightarrow> nat" where
  "LeftIndex i = 2 * i + 1"

definition GetHeapHandle :: "nat \<Rightarrow> 'a IntrusiveHeap \<Rightarrow> HeapHandle outcome" where
  "GetHeapHandle i h =
     defined_if (i < heap_size h)
       (Inr (case slots h ! i of None \<Rightarrow> kInvalidIndex | Some (k, v) \<Rightarrow> handles h k))"

definition CheckInvalidOrEqualTo :: "HeapHandle \<Rightarrow> nat \<Rightarrow> bool" where
  "CheckInvalidOrEqualTo handle index \<longleftrightarrow> (IsValid handle \<longrightarrow> index = handle)"

text \<open>\<^verbatim>\<open>InternalHeapHandleStorage::SetHeapHandle\<close> and \<^verbatim>\<open>ClearHeapHandle\<close> on the element in a slot.\<close>

definition element_SetHeapHandle :: "nat \<Rightarrow> HeapHandle \<Rightarrow> 'a IntrusiveHeap \<Rightarrow> 'a IntrusiveHeap outcome" where
  "element_SetHeapHandle i handle h =
     defined_if (i < heap_size h)
       (dcheck (IsValid handle)
         (Inr (case slots h ! i of None \<Rightarrow> h
               | Some (k, v) \<Rightarrow> h\<lparr>handles := (handles h)(k := handle)\<rparr>)))"

definition element_ClearHeapHandle :: "nat \<Rightarrow> 'a IntrusiveHeap \<Rightarrow> 'a IntrusiveHeap outcome" where
  "element_ClearHeapHandle i h =
     defined_if (i < heap_size h)
       (Inr (case slots h ! i of None \<Rightarrow> h
             | Some (k, v) \<Rightarrow> h\<lparr>handles := (handles h)(k := kInvalidIndex)\<rparr>))"

definition SetHeapHandle :: "nat \<Rightarrow> 'a IntrusiveHeap \<Rightarrow> 'a IntrusiveHeap outcome" where
  "SetHeapHandle i h =
     and_then (element_SetHeapHandle i i h) (\<lambda>h1.
     and_then (GetHeapHandle i h1) (\<lambda>handle. dcheck (CheckInvalidOrEqualTo handle i) (Inr h1)))"

definition ClearHeapHandle :: "nat \<Rightarrow> 'a IntrusiveHeap \<Rightarrow> 'a IntrusiveHeap outcome" where
  "ClearHeapHandle i h =
     and_then (element_ClearHeapHandle i h) (\<lambda>h1.
     and_then (GetHeapHandle i h1) (\<lambda>handle. dcheck (\<not> IsValid handle) (Inr h1)))"

subsection \<open>Access and comparison\<close>

definition read_slot :: "nat \<Rightarrow> 'a IntrusiveHeap \<Rightarrow> 'a element outcome" where
  "read_slot i h = defined_if (i < heap_size h \<and> slots h ! i \<noteq> None) (Inr (the (slots h ! i)))"

definition Less_slots :: "('a \<Rightarrow> 'a \<Rightarrow> bool) \<Rightarrow> nat \<Rightarrow> nat \<Rightarrow> 'a IntrusiveHeap \<Rightarrow> bool outcome" where
  "Less_slots lt i j h =
     dcheck (i < heap_size h) (dcheck (j < heap_size h)
      (and_then (read_slot i h) (\<lambda>a. and_then (read_slot j h) (\<lambda>b. Inr (lt (snd a) (snd b))))))"

definition Less_element_slot :: "('a \<Rightarrow> 'a \<Rightarrow> bool) \<Rightarrow> 'a element \<Rightarrow> nat \<Rightarrow> 'a IntrusiveHeap \<Rightarrow> bool outcome" where
  "Less_element_slot lt e i h =
     dcheck (i < heap_size h) (and_then (read_slot i h) (\<lambda>b. Inr (lt (snd e) (snd b))))"

definition Less_slot_element :: "('a \<Rightarrow> 'a \<Rightarrow> bool) \<Rightarrow> nat \<Rightarrow> 'a element \<Rightarrow> 'a IntrusiveHeap \<Rightarrow> bool outcome" where
  "Less_slot_element lt i e h =
     dcheck (i < heap_size h) (and_then (read_slot i h) (\<lambda>a. Inr (lt (snd a) (snd e))))"

text \<open>Moving the element out of a slot.\<close>

definition move_out :: "nat \<Rightarrow> 'a IntrusiveHeap \<Rightarrow> ('a element \<times> 'a IntrusiveHeap) outcome" where
  "move_out i h = and_then (read_slot i h) (\<lambda>e. Inr (e, h\<lparr>slots := (slots h)[i := None]\<rparr>))"

subsection \<open>Holes\<close>

definition MakeHole :: "nat \<Rightarrow> 'a IntrusiveHeap \<Rightarrow> 'a IntrusiveHeap outcome" where
  "MakeHole pos h = dcheck (pos < heap_size h) (ClearHeapHandle pos h)"

definition put_slot :: "nat \<Rightarrow> 'a element \<Rightarrow> 'a IntrusiveHeap \<Rightarrow> 'a IntrusiveHeap" where
  "put_slot i e h =
     (if i = heap_size h then h\<lparr>slots := slots h @ [Some e]\<rparr>
      else h\<lparr>slots := (slots h)[i := Some e]\<rparr>)"

definition FillHole :: "nat \<Rightarrow> 'a element \<Rightarrow> 'a IntrusiveHeap \<Rightarrow> 'a IntrusiveHeap outcome" where
  "FillHole hole_pos e h =
     dcheck (hole_pos \<le> heap_size h) (SetHeapHandle hole_pos (put_slot hole_pos e h))"

definition MoveHole :: "nat \<Rightarrow> nat \<Rightarrow> 'a IntrusiveHeap \<Rightarrow> 'a IntrusiveHeap outcome" where
  "MoveHole new_hole_pos old_hole_pos h =
     dcheck (new_hole_pos \<noteq> old_hole_pos) (dcheck (new_hole_pos < heap_size h)
      (dcheck (old_hole_pos \<le> heap_size h)
        (and_then (move_out new_hole_pos h) (\<lambda>(e, h1). SetHeapHandle old_hole_pos (put_slot old_hole_pos e h1)))))"

function hole_up :: "('a \<Rightarrow> 'a \<Rightarrow> bool) \<Rightarrow> nat \<Rightarrow> 'a element \<Rightarrow> 'a IntrusiveHeap \<Rightarrow> (nat \<times> 'a IntrusiveHeap) outcome" where
  "hole_up lt hole_pos e h =
     (if hole_pos = 0 then Inr (hole_pos, h)
      else and_then (ParentIndex hole_pos) (\<lambda>parent.
           and_then (Less_slot_element lt parent e h) (\<lambda>less.
             if \<not> less then Inr (hole_pos, h)
             else and_then (MoveHole parent hole_pos h) (\<lambda>h1. hole_up lt parent e h1))))"
  by auto

termination hole_up
  by (relation "measure (\<lambda>(lt, p, e, h). p)") (auto simp: ParentIndex_def dcheck_Inr)

definition MoveHoleUpAndFill ::
  "('a \<Rightarrow> 'a \<Rightarrow> bool) \<Rightarrow> nat \<Rightarrow> 'a element \<Rightarrow> 'a IntrusiveHeap \<Rightarrow> (nat \<times> 'a IntrusiveHeap) outcome" where
  "MoveHoleUpAndFill lt hole_pos e h =
     dcheck (hole_pos \<le> heap_size h)
      (and_then (hole_up lt hole_pos e h) (\<lambda>(p, h1). map_outcome (Pair p) (FillHole p e h1)))"

text \<open>The way down among the first \<open>n\<close> slots; \<open>leaf\<close> is \<^verbatim>\<open>kIsLeafElement\<close>.\<close>

function hole_down ::
  "('a \<Rightarrow> 'a \<Rightarrow> bool) \<Rightarrow> bool \<Rightarrow> nat \<Rightarrow> nat \<Rightarrow> 'a element \<Rightarrow> 'a IntrusiveHeap \<Rightarrow> (nat \<times> 'a IntrusiveHeap) outcome"
where
  "hole_down lt leaf n hole_pos e h =
     (let left = LeftIndex hole_pos
      in if left \<ge> n then Inr (hole_pos, h)
         else
           let right = left + 1
           in and_then (if right < n then Less_slots lt left right h else Inr False) (\<lambda>b.
              let largest = (if b then right else left)
              in and_then (if leaf then Inr True else Less_element_slot lt e largest h) (\<lambda>go.
                 if \<not> go then Inr (hole_pos, h)
                 else and_then (MoveHole largest hole_pos h) (\<lambda>h1. hole_down lt leaf n largest e h1))))"
  by auto

termination hole_down
  by (relation "measure (\<lambda>(lt, leaf, n, p, e, h). n - p)") (auto simp: LeftIndex_def Let_def split: if_splits)

definition MoveHoleDownAndFill ::
  "('a \<Rightarrow> 'a \<Rightarrow> bool) \<Rightarrow> bool \<Rightarrow> nat \<Rightarrow> 'a element \<Rightarrow> 'a IntrusiveHeap \<Rightarrow> (nat \<times> 'a IntrusiveHeap) outcome" where
  "MoveHoleDownAndFill lt leaf hole_pos e h =
     dcheck (hole_pos < heap_size h)
      (let n = heap_size h - (if leaf then 1 else 0)
       in dcheck (hole_pos < n)
         (and_then (GetHeapHandle hole_pos h) (\<lambda>handle.
          dcheck (\<not> IsValid handle)
           (and_then (hole_down lt leaf n hole_pos e h) (\<lambda>(p, h1).
             if leaf then MoveHoleUpAndFill lt p e h1 else map_outcome (Pair p) (FillHole p e h1))))))"

declare hole_up.simps [simp del] hole_down.simps [simp del]

subsection \<open>Operations\<close>

definition InsertImpl ::
  "('a \<Rightarrow> 'a \<Rightarrow> bool) \<Rightarrow> 'a element \<Rightarrow> 'a IntrusiveHeap \<Rightarrow> (nat \<times> 'a IntrusiveHeap) outcome" where
  "InsertImpl lt e h = MoveHoleUpAndFill lt (heap_size h) e h"

fun insert_all :: "('a \<Rightarrow> 'a \<Rightarrow> bool) \<Rightarrow> 'a element list \<Rightarrow> 'a IntrusiveHeap \<Rightarrow> 'a IntrusiveHeap outcome" where
  "insert_all lt [] h = Inr h"
| "insert_all lt (e # es) h = and_then (InsertImpl lt e h) (\<lambda>(i, h1). insert_all lt es h1)"

definition pop_back_slot :: "'a IntrusiveHeap \<Rightarrow> 'a IntrusiveHeap outcome" where
  "pop_back_slot h = defined_if (slots h \<noteq> []) (Inr (h\<lparr>slots := butlast (slots h)\<rparr>))"

definition take_at :: "('a \<Rightarrow> 'a \<Rightarrow> bool) \<Rightarrow> nat \<Rightarrow> 'a IntrusiveHeap \<Rightarrow> ('a element \<times> 'a IntrusiveHeap) outcome" where
  "take_at lt pos h =
     and_then (MakeHole pos h) (\<lambda>h1.
     and_then (move_out pos h1) (\<lambda>(val, h2).
     and_then
       (let last_index = heap_size h2 - 1
        in if pos \<noteq> last_index
           then and_then (MakeHole last_index h2) (\<lambda>h3.
                and_then (move_out last_index h3) (\<lambda>(e, h4).
                  map_outcome snd (MoveHoleDownAndFill lt True pos e h4)))
           else Inr h2)
       (\<lambda>h5. map_outcome (Pair val) (pop_back_slot h5))))"

definition take_top :: "('a \<Rightarrow> 'a \<Rightarrow> bool) \<Rightarrow> 'a IntrusiveHeap \<Rightarrow> ('a element \<times> 'a IntrusiveHeap) outcome" where
  "take_top lt h = take_at lt 0 h"

definition erase_at_index :: "('a \<Rightarrow> 'a \<Rightarrow> bool) \<Rightarrow> nat \<Rightarrow> 'a IntrusiveHeap \<Rightarrow> 'a IntrusiveHeap outcome" where
  "erase_at_index lt pos h =
     dcheck (pos < heap_size h)
      (and_then (MakeHole pos h) (\<lambda>h1.
       and_then
         (let last_index = heap_size h1 - 1
          in if pos \<noteq> last_index
             then and_then (MakeHole last_index h1) (\<lambda>h2.
                  and_then (move_out last_index h2) (\<lambda>(e, h3).
                    map_outcome snd (MoveHoleDownAndFill lt True pos e h3)))
             else Inr h1)
         pop_back_slot))"

definition heap_pop :: "('a \<Rightarrow> 'a \<Rightarrow> bool) \<Rightarrow> 'a IntrusiveHeap \<Rightarrow> 'a IntrusiveHeap outcome" where
  "heap_pop lt h = erase_at_index lt 0 h"

definition Update ::
  "('a \<Rightarrow> 'a \<Rightarrow> bool) \<Rightarrow> nat \<Rightarrow> 'a IntrusiveHeap \<Rightarrow> (nat \<times> 'a IntrusiveHeap) outcome" where
  "Update lt pos h =
     dcheck (pos < heap_size h)
      (and_then (MakeHole pos h) (\<lambda>h1.
       and_then
         (if pos > 0
          then and_then (ParentIndex pos) (\<lambda>i. map_outcome Not (Less_slots lt pos i h1))
          else Inr False)
         (\<lambda>child_greater_eq_parent.
           and_then (move_out pos h1) (\<lambda>(e, h2).
             if child_greater_eq_parent then MoveHoleUpAndFill lt pos e h2
             else MoveHoleDownAndFill lt False pos e h2))))"

text \<open>
  Iterators are offsets into the vector; a reverse iterator is its \<^verbatim>\<open>base()\<close>, so \<^verbatim>\<open>crend()\<close> is \<open>0\<close>.
\<close>

definition ToIndex_iterator :: "nat \<Rightarrow> 'a IntrusiveHeap \<Rightarrow> nat outcome" where
  "ToIndex_iterator pos h =
     dcheck (pos \<le> heap_size h) (Inr (if pos = heap_size h then kInvalidIndex else pos))"

definition ToIndex_reverse :: "nat \<Rightarrow> 'a IntrusiveHeap \<Rightarrow> nat outcome" where
  "ToIndex_reverse base h =
     dcheck (base \<le> heap_size h) (Inr (if base = 0 then kInvalidIndex else base - 1))"

text \<open>\<^verbatim>\<open>at\<close> of the vector, which stops the program outside its range.\<close>

definition heap_at :: "HeapHandle \<Rightarrow> 'a IntrusiveHeap \<Rightarrow> 'a element outcome" where
  "heap_at handle h = rtc_check (handle < heap_size h) (read_slot handle h)"

text \<open>\<^verbatim>\<open>Modify\<close> applies a function to the value in a slot and repairs the heap.\<close>

definition Modify ::
  "('a \<Rightarrow> 'a \<Rightarrow> bool) \<Rightarrow> nat \<Rightarrow> ('a \<Rightarrow> 'a) \<Rightarrow> 'a IntrusiveHeap \<Rightarrow> (nat \<times> 'a IntrusiveHeap) outcome" where
  "Modify lt index unary_op h =
     and_then (heap_at index h) (\<lambda>(k, v).
       Update lt index (h\<lparr>slots := (slots h)[index := Some (k, unary_op v)]\<rparr>))"

definition ReplaceImpl ::
  "('a \<Rightarrow> 'a \<Rightarrow> bool) \<Rightarrow> nat \<Rightarrow> 'a element \<Rightarrow> 'a IntrusiveHeap \<Rightarrow> (nat \<times> 'a IntrusiveHeap) outcome" where
  "ReplaceImpl lt pos e h =
     and_then (MakeHole pos h) (\<lambda>h1.
     and_then (Less_element_slot lt e pos h1) (\<lambda>less.
       if \<not> less then MoveHoleUpAndFill lt pos e h1 else MoveHoleDownAndFill lt False pos e h1))"

definition ReplaceTopImpl ::
  "('a \<Rightarrow> 'a \<Rightarrow> bool) \<Rightarrow> 'a element \<Rightarrow> 'a IntrusiveHeap \<Rightarrow> (nat \<times> 'a IntrusiveHeap) outcome" where
  "ReplaceTopImpl lt e h = and_then (MakeHole 0 h) (MoveHoleDownAndFill lt False 0 e)"

fun clear_handles :: "nat list \<Rightarrow> 'a IntrusiveHeap \<Rightarrow> 'a IntrusiveHeap outcome" where
  "clear_handles [] h = Inr h"
| "clear_handles (i # is) h = and_then (ClearHeapHandle i h) (clear_handles is)"

definition heap_clear :: "'a IntrusiveHeap \<Rightarrow> 'a IntrusiveHeap outcome" where
  "heap_clear h =
     and_then (clear_handles [0..<heap_size h] h) (\<lambda>h1. Inr (h1\<lparr>slots := []\<rparr>))"

definition heap_top :: "'a IntrusiveHeap \<Rightarrow> 'a element outcome" where
  "heap_top h = read_slot 0 h"

end
