(* ===== verification/Weak_Order.thy ===== *)
theory Weak_Order
  imports Main
begin

text \<open>
  What the ordered containers ask of a comparison: a strict weak order, the requirement \<^verbatim>\<open>Compare\<close> of the
  C++ library.  It is asymmetric, and not being less is transitive.
\<close>

locale value_compare =
  fixes lt :: "'a \<Rightarrow> 'a \<Rightarrow> bool"
  assumes asym: "lt a b \<Longrightarrow> \<not> lt b a"
    and ntrans: "\<not> lt a b \<Longrightarrow> \<not> lt b c \<Longrightarrow> \<not> lt a c"
begin

lemma irrefl: "\<not> lt a a"
  using asym by blast

lemma trans: "lt a b \<Longrightarrow> lt b c \<Longrightarrow> lt a c"
  using asym ntrans by blast

lemma less_le_trans: "lt a b \<Longrightarrow> \<not> lt c b \<Longrightarrow> lt a c"
  using ntrans by blast

lemma le_less_trans: "\<not> lt b a \<Longrightarrow> lt b c \<Longrightarrow> lt a c"
  using ntrans by blast

end

end
