(* ===== verification/Heap_Order.thy ===== *)
theory Heap_Order
  imports Intrusive_Heap Weak_Order
begin

text \<open>
  The heap as a list of elements.  The heap property is stated with the comparison the heap is
  given, which has to be a strict weak ordering; while a hole moves, the list stands for the slots
  with the pending element in the hole.
\<close>

section \<open>The order along the tree\<close>

definition parent :: "nat \<Rightarrow> nat" where
  "parent i = (i - 1) div 2"

definition below :: "('a \<Rightarrow> 'a \<Rightarrow> bool) \<Rightarrow> 'a element list \<Rightarrow> nat \<Rightarrow> nat \<Rightarrow> bool" where
  "below lt A i j \<longleftrightarrow> \<not> lt (snd (A ! j)) (snd (A ! i))"

definition heap_order :: "('a \<Rightarrow> 'a \<Rightarrow> bool) \<Rightarrow> 'a element list \<Rightarrow> bool" where
  "heap_order lt A \<longleftrightarrow> (\<forall>i. 0 < i \<longrightarrow> i < length A \<longrightarrow> below lt A i (parent i))"

text \<open>The order may fail at \<open>p\<close> towards its parent, or at the children of \<open>p\<close> and at \<open>p\<close>.\<close>

definition grand_order :: "('a \<Rightarrow> 'a \<Rightarrow> bool) \<Rightarrow> 'a element list \<Rightarrow> nat \<Rightarrow> bool" where
  "grand_order lt A p \<longleftrightarrow>
     (\<forall>c. 0 < c \<longrightarrow> c < length A \<longrightarrow> parent c = p \<longrightarrow> 0 < p \<longrightarrow> below lt A c (parent p))"

definition up_order :: "('a \<Rightarrow> 'a \<Rightarrow> bool) \<Rightarrow> 'a element list \<Rightarrow> nat \<Rightarrow> bool" where
  "up_order lt A p \<longleftrightarrow>
     (\<forall>i. 0 < i \<longrightarrow> i < length A \<longrightarrow> i \<noteq> p \<longrightarrow> below lt A i (parent i)) \<and> grand_order lt A p"

definition down_order :: "('a \<Rightarrow> 'a \<Rightarrow> bool) \<Rightarrow> 'a element list \<Rightarrow> nat \<Rightarrow> bool" where
  "down_order lt A p \<longleftrightarrow>
     (\<forall>i. 0 < i \<longrightarrow> i < length A \<longrightarrow> i \<noteq> p \<longrightarrow> parent i \<noteq> p \<longrightarrow> below lt A i (parent i)) \<and> grand_order lt A p"

definition swapped :: "'a list \<Rightarrow> nat \<Rightarrow> nat \<Rightarrow> 'a list" where
  "swapped A p q = A[p := A ! q, q := A ! p]"

lemma length_swapped [simp]: "length (swapped A p q) = length A"
  by (simp add: swapped_def)

lemma nth_swapped:
  "p < length A \<Longrightarrow> q < length A \<Longrightarrow> i < length A \<Longrightarrow>
     swapped A p q ! i = (if i = q then A ! p else if i = p then A ! q else A ! i)"
  by (auto simp: swapped_def nth_list_update)

lemma mset_swapped: "p < length A \<Longrightarrow> q < length A \<Longrightarrow> mset (swapped A p q) = mset A"
  by (simp add: swapped_def mset_swap)

lemma parent_less: "0 < i \<Longrightarrow> parent i < i"
  by (simp add: parent_def)

lemma ParentIndex_parent: "0 < i \<Longrightarrow> ParentIndex i = Inr (parent i)"
  by (simp add: ParentIndex_def parent_def)

lemma parent_of_child: "0 < i \<Longrightarrow> parent i = p \<longleftrightarrow> i = LeftIndex p \<or> i = LeftIndex p + 1"
  by (auto simp: parent_def LeftIndex_def)

lemma parent_child [simp]: "parent (LeftIndex p) = p" "parent (Suc (LeftIndex p)) = p" "p < LeftIndex p"
  by (auto simp: parent_def LeftIndex_def)

context value_compare
begin

lemma below_trans: "below lt A i j \<Longrightarrow> below lt A j k \<Longrightarrow> below lt A i k"
  using ntrans by (auto simp: below_def)

lemma below_refl [simp]: "below lt A i i"
  using asym by (auto simp: below_def)

lemma above_below: "\<not> below lt A i j \<Longrightarrow> below lt A j i"
  using asym by (auto simp: below_def)

lemma up_step:
  assumes up: "up_order lt A p" and p: "0 < p" "p < length A" and less: "\<not> below lt A p (parent p)"
  shows "up_order lt (swapped A p (parent p)) (parent p)"
proof -
  let ?q = "parent p" and ?B = "swapped A p (parent p)"
  have q: "?q < p" "?q < length A" using p parent_less [OF p(1)] by auto
  have sw: "below lt ?B i j \<longleftrightarrow> below lt A (if i = ?q then p else if i = p then ?q else i)
      (if j = ?q then p else if j = p then ?q else j)" if "i < length A" "j < length A" for i j
    using that p q by (auto simp: below_def nth_swapped)
  have qp: "below lt A ?q p" by (rule above_below [OF less])
  have ord: "below lt A i (parent i)" if "0 < i" "i < length A" "i \<noteq> p" for i
    using up that by (auto simp: up_order_def)
  have kid: "below lt A c ?q" if "0 < c" "c < length A" "parent c = p" for c
    using up that p by (auto simp: up_order_def grand_order_def)
  have "below lt ?B i (parent i)" if i: "0 < i" "i < length A" "i \<noteq> ?q" for i
  proof -
    have par: "parent i < length A" "parent i \<noteq> i" using parent_less [OF i(1)] i by auto
    consider "i = p" | "i \<noteq> p" "parent i = ?q" | "parent i = p" | "i \<noteq> p" "parent i \<noteq> ?q" "parent i \<noteq> p" by blast
    then show ?thesis
    proof cases
      case 2
      then show ?thesis using sw [OF i(2) par(1)] i below_trans [OF ord [OF i(1,2)] ] qp by auto
    qed (use sw [OF i(2) par(1)] i par qp kid ord q in auto)
  qed
  moreover have "below lt ?B c (parent ?q)" if c: "0 < c" "c < length A" "parent c = ?q" "0 < ?q" for c
  proof -
    have gp: "parent ?q < ?q" "parent ?q < length A" using parent_less [OF c(4)] q by auto
    have "c \<noteq> ?q" using parent_less [OF c(1)] c(3) by auto
    moreover have "below lt A ?q (parent ?q)" using ord [of ?q] c(4) q by simp
    ultimately show ?thesis
      using sw [OF c(2) gp(2)] gp q ord [OF c(1,2)] c(3) below_trans by (cases "c = p") auto
  qed
  ultimately show ?thesis by (simp add: up_order_def grand_order_def)
qed

lemma up_done:
  assumes "up_order lt A p" "p = 0 \<or> below lt A p (parent p)"
  shows "heap_order lt A"
  using assms by (auto simp: up_order_def heap_order_def)

text \<open>The child that the way down continues with.\<close>

lemma down_step:
  assumes down: "down_order lt A p" and l: "0 < l" "l < length A" "parent l = p"
    and largest: "\<And>c. 0 < c \<Longrightarrow> c < length A \<Longrightarrow> parent c = p \<Longrightarrow> below lt A c l"
  shows "down_order lt (swapped A p l) l"
    and "0 < p \<longrightarrow> below lt (swapped A p l) p (parent p)"
proof -
  let ?B = "swapped A p l"
  have p: "p < l" "p < length A" using parent_less [OF l(1)] l by auto
  have sw: "below lt ?B i j \<longleftrightarrow> below lt A (if i = l then p else if i = p then l else i)
      (if j = l then p else if j = p then l else j)" if "i < length A" "j < length A" for i j
    using that p l by (auto simp: below_def nth_swapped)
  have ord: "below lt A i (parent i)" if "0 < i" "i < length A" "i \<noteq> p" "parent i \<noteq> p" for i
    using down that by (auto simp: down_order_def)
  have grand: "below lt A l (parent p)" if "0 < p" using down l that by (auto simp: down_order_def grand_order_def)
  show up: "0 < p \<longrightarrow> below lt ?B p (parent p)"
  proof
    assume "0 < p"
    then have "parent p < p" "parent p < length A" using parent_less [of p] p by auto
    then show "below lt ?B p (parent p)" using sw [OF p(2)] grand [OF \<open>0 < p\<close>] p by auto
  qed
  have "below lt ?B i (parent i)" if i: "0 < i" "i < length A" "i \<noteq> l" "parent i \<noteq> l" for i
  proof -
    have par: "parent i < length A" "parent i \<noteq> i" using parent_less [OF i(1)] i by auto
    consider "i = p" | "i \<noteq> p" "parent i = p" | "i \<noteq> p" "parent i \<noteq> p" by blast
    then show ?thesis
    proof cases
      case 1
      then show ?thesis using up i by simp
    qed (use sw [OF i(2) par(1)] i par largest ord p in auto)
  qed
  moreover have "below lt ?B c (parent l)" if c: "0 < c" "c < length A" "parent c = l" for c
  proof -
    have "l < c" using parent_less [OF c(1)] c(3) by simp
    then show ?thesis using sw [OF c(2), of p] c l p ord [OF c(1,2)] by auto
  qed
  ultimately show "down_order lt ?B l" by (simp add: down_order_def grand_order_def)
qed

lemma down_done:
  assumes down: "down_order lt A p" and top: "0 < p \<longrightarrow> below lt A p (parent p)"
    and kids: "\<And>c. 0 < c \<Longrightarrow> c < length A \<Longrightarrow> parent c = p \<Longrightarrow> below lt A c p"
  shows "heap_order lt A"
proof -
  have "below lt A i (parent i)" if i: "0 < i" "i < length A" for i
    using down top kids [OF i] i by (cases "i = p"; cases "parent i = p") (auto simp: down_order_def)
  then show ?thesis by (simp add: heap_order_def)
qed

lemma down_leaf:
  assumes "down_order lt A p" "length A \<le> LeftIndex p"
  shows "up_order lt A p"
proof -
  have "parent i \<noteq> p" if "0 < i" "i < length A" for i
    using that assms(2) parent_of_child [OF that(1), of p] by auto
  then show ?thesis using assms(1) by (auto simp: down_order_def up_order_def)
qed

lemma top_is_greatest:
  assumes "heap_order lt A" "i < length A"
  shows "below lt A i 0"
  using assms(2)
proof (induction i rule: less_induct)
  case (less i)
  show ?case
  proof (cases "i = 0")
    case False
    then have p: "parent i < i" using parent_less by simp
    with less have "below lt A (parent i) 0" by simp
    moreover have "below lt A i (parent i)" using assms(1) less.prems False by (simp add: heap_order_def)
    ultimately show ?thesis using below_trans by blast
  qed simp
qed

lemma changed_order:
  assumes "heap_order lt A" "p < length A"
  shows "down_order lt (A[p := e]) p"
proof -
  have "below lt (A[p := e]) i (parent i)" if i: "0 < i" "i < length A" "i \<noteq> p" "parent i \<noteq> p" for i
    using assms i by (auto simp: heap_order_def below_def)
  moreover have "below lt (A[p := e]) c (parent p)" if c: "0 < c" "c < length A" "parent c = p" "0 < p" for c
  proof -
    have "c \<noteq> p" "parent p \<noteq> p" using parent_less [OF c(1)] parent_less [OF c(4)] c(3) by auto
    moreover have "below lt A c p" "below lt A p (parent p)" using assms c by (auto simp: heap_order_def)
    then have "below lt A c (parent p)" by (rule below_trans)
    ultimately show ?thesis by (simp add: below_def)
  qed
  ultimately show ?thesis by (simp add: down_order_def grand_order_def)
qed

end

section \<open>Slots and handles\<close>

text \<open>
  \<open>holed h A p\<close>: the slots of \<open>h\<close> hold the elements \<open>A\<close>, each with its handle at its index, except
  that the element \<open>A ! p\<close> is pending; the hole \<open>p\<close> may be one past the end.  A handle object that
  belongs to no element is invalid.
\<close>

definition holed :: "'a IntrusiveHeap \<Rightarrow> 'a element list \<Rightarrow> nat \<Rightarrow> bool" where
  "holed h A p \<longleftrightarrow> p < length A \<and> p \<le> heap_size h \<and> length A \<le> kInvalidIndex \<and> distinct (map fst A) \<and>
     (\<forall>i < length A. i \<noteq> p \<longrightarrow>
        i < heap_size h \<and> slots h ! i = Some (A ! i) \<and> handles h (fst (A ! i)) = i) \<and>
     (\<forall>k. k \<notin> fst ` set A \<longrightarrow> handles h k = kInvalidIndex)"

definition filled :: "'a IntrusiveHeap \<Rightarrow> 'a element list \<Rightarrow> bool" where
  "filled h A \<longleftrightarrow> length A \<le> kInvalidIndex \<and> distinct (map fst A) \<and>
     (\<forall>i < length A. i < heap_size h \<and> slots h ! i = Some (A ! i) \<and> handles h (fst (A ! i)) = i) \<and>
     (\<forall>k. k \<notin> fst ` set A \<longrightarrow> handles h k = kInvalidIndex)"

lemma fst_distinct:
  "distinct (map fst A) \<Longrightarrow> i < length A \<Longrightarrow> j < length A \<Longrightarrow> fst (A ! i) = fst (A ! j) \<longleftrightarrow> i = j"
  by (metis distinct_conv_nth length_map nth_map)

lemma put_slot_size: "p \<le> heap_size h \<Longrightarrow> heap_size (put_slot p e h) = max (heap_size h) (Suc p)"
  by (auto simp: put_slot_def)

lemma put_slot_nth:
  "p \<le> heap_size h \<Longrightarrow> i < max (heap_size h) (Suc p) \<Longrightarrow>
     slots (put_slot p e h) ! i = (if i = p then Some e else slots h ! i)"
  by (auto simp: put_slot_def nth_append)

lemma handles_put_slot [simp]: "handles (put_slot p e h) = handles h"
  by (simp add: put_slot_def)

lemma SetHeapHandle_ok:
  assumes "i < heap_size h" "slots h ! i = Some e" "i \<noteq> kInvalidIndex"
  shows "SetHeapHandle i h = Inr (h\<lparr>handles := (handles h)(fst e := i)\<rparr>)"
  using assms
  by (cases e) (auto simp: SetHeapHandle_def element_SetHeapHandle_def GetHeapHandle_def IsValid_def
      CheckInvalidOrEqualTo_def)

lemma FillHole_ok:
  assumes "holed h A p"
  shows "\<exists>h'. FillHole p (A ! p) h = Inr h' \<and> filled h' A \<and> heap_size h' = max (heap_size h) (Suc p)"
proof -
  let ?h = "put_slot p (A ! p) h"
  have p: "p < length A" "p \<le> heap_size h" "p \<noteq> kInvalidIndex" using assms by (auto simp: holed_def)
  have nth: "slots ?h ! p = Some (A ! p)" using put_slot_nth [OF p(2), of p "A ! p"] by simp
  have set: "SetHeapHandle p ?h = Inr (?h\<lparr>handles := (handles h)(fst (A ! p) := p)\<rparr>)"
    using SetHeapHandle_ok [OF _ nth p(3)] by (simp add: put_slot_size [OF p(2)])
  moreover have "filled (?h\<lparr>handles := (handles h)(fst (A ! p) := p)\<rparr>) A"
    using assms p fst_distinct [of A _ p] by (auto simp: holed_def filled_def put_slot_size put_slot_nth)
  ultimately show ?thesis using p by (simp add: FillHole_def put_slot_size)
qed

lemma MoveHole_ok:
  assumes "holed h A p" "q < length A" "q \<noteq> p"
  shows "\<exists>h'. MoveHole q p h = Inr h' \<and> holed h' (swapped A p q) q \<and> heap_size h' = max (heap_size h) (Suc p)"
proof -
  have p: "p < length A" "p \<le> heap_size h" "p \<noteq> kInvalidIndex" using assms by (auto simp: holed_def)
  have q: "q < heap_size h" "slots h ! q = Some (A ! q)" using assms by (auto simp: holed_def)
  let ?h1 = "h\<lparr>slots := (slots h)[q := None]\<rparr>"
  have out: "move_out q h = Inr (A ! q, ?h1)" using q by (simp add: move_out_def read_slot_def)
  let ?h2 = "put_slot p (A ! q) ?h1"
  have le: "p \<le> heap_size ?h1" using p by simp
  have nth: "slots ?h2 ! p = Some (A ! q)" using put_slot_nth [OF le, of p "A ! q"] by simp
  let ?h3 = "?h2\<lparr>handles := (handles h)(fst (A ! q) := p)\<rparr>"
  have "SetHeapHandle p ?h2 = Inr ?h3"
    using SetHeapHandle_ok [OF _ nth p(3)] by (simp add: put_slot_size [OF le])
  then have "MoveHole q p h = Inr ?h3" using assms(3) p q out by (simp add: MoveHole_def)
  moreover have "holed ?h3 (swapped A p q) q"
  proof -
    have "distinct (map fst (swapped A p q))"
      using assms(1) p(1) assms(2) mset_swapped [of p A q]
      by (metis distinct_map holed_def mset_eq_imp_distinct_iff mset_map)
    moreover have "set (swapped A p q) = set A" using p(1) assms(2) mset_swapped [of p A q] by (metis mset_eq_setD)
    ultimately show ?thesis
      using assms p(1) le fst_distinct [of A] nth_swapped [OF p(1) assms(2)]
      by (auto simp: holed_def put_slot_size put_slot_nth)
  qed
  ultimately show ?thesis by (simp add: put_slot_size [OF le])
qed

lemma holed_read:
  assumes "holed h A p" "i < length A" "i \<noteq> p"
  shows "read_slot i h = Inr (A ! i)" "i < heap_size h"
  using assms by (auto simp: holed_def read_slot_def)

context value_compare
begin

lemma hole_up_ok:
  assumes "holed h A p" "up_order lt A p" "p < length A"
  shows "\<exists>p' h' B. hole_up lt p (A ! p) h = Inr (p', h') \<and> holed h' B p' \<and> B ! p' = A ! p \<and> mset B = mset A \<and>
    heap_order lt B \<and> max (heap_size h') (Suc p') = max (heap_size h) (Suc p) \<and> p' \<le> heap_size h'"
  using assms
proof (induction p arbitrary: h A rule: less_induct)
  case (less p)
  note prems = less.prems
  have le: "p \<le> heap_size h" using prems(1) by (simp add: holed_def)
  show ?case
  proof (cases "p = 0 \<or> below lt A p (parent p)")
    case True
    have "hole_up lt p (A ! p) h = Inr (p, h)"
    proof (cases "p = 0")
      case False
      then have q: "parent p < p" "below lt A p (parent p)" using parent_less True by auto
      then show ?thesis
        using False prems(3) holed_read [OF prems(1), of "parent p"]
        by (subst hole_up.simps)
          (simp add: ParentIndex_parent Less_slot_element_def below_def)
    qed (simp add: hole_up.simps)
    then show ?thesis using prems up_done [OF prems(2) True] le by blast
  next
    case False
    then have p: "0 < p" "\<not> below lt A p (parent p)" by auto
    let ?q = "parent p" and ?B = "swapped A p (parent p)"
    have q: "?q < p" "?q < length A" using parent_less [OF p(1)] prems(3) by auto
    obtain h1 where h1: "MoveHole ?q p h = Inr h1" "holed h1 ?B ?q" "heap_size h1 = max (heap_size h) (Suc p)"
      using MoveHole_ok [OF prems(1) q(2)] q(1) by auto
    have "up_order lt ?B ?q" by (rule up_step [OF prems(2) p(1) prems(3) p(2)])
    moreover have "?B ! ?q = A ! p" using prems(3) q by (simp add: nth_swapped)
    ultimately obtain p' h' B where ih: "hole_up lt ?q (A ! p) h1 = Inr (p', h')" "holed h' B p'" "B ! p' = A ! p"
      "mset B = mset ?B" "heap_order lt B" "max (heap_size h') (Suc p') = max (heap_size h1) (Suc ?q)" "p' \<le> heap_size h'"
      using less.IH [OF q(1) h1(2)] q(2) by auto
    have "hole_up lt p (A ! p) h = hole_up lt ?q (A ! p) h1"
      using p q h1(1) holed_read [OF prems(1) q(2)]
      by (subst hole_up.simps)
        (simp add: ParentIndex_parent Less_slot_element_def below_def)
    then show ?thesis
      using ih h1(3) q mset_swapped [OF prems(3) q(2)]
      by (intro exI [of _ p'] exI [of _ h'] exI [of _ B]) auto
  qed
qed

lemma MoveHoleUpAndFill_ok:
  assumes "holed h A p" "up_order lt A p"
  shows "\<exists>p' h' B. MoveHoleUpAndFill lt p (A ! p) h = Inr (p', h') \<and> filled h' B \<and> p' < length B \<and>
    B ! p' = A ! p \<and> mset B = mset A \<and> heap_order lt B \<and> heap_size h' = max (heap_size h) (Suc p)"
proof -
  have p: "p < length A" "p \<le> heap_size h" using assms(1) by (auto simp: holed_def)
  obtain p' h' B where up: "hole_up lt p (A ! p) h = Inr (p', h')" "holed h' B p'" "B ! p' = A ! p" "mset B = mset A"
    "heap_order lt B" "max (heap_size h') (Suc p') = max (heap_size h) (Suc p)"
    using hole_up_ok [OF assms p(1)] by blast
  obtain h'' where "FillHole p' (A ! p) h' = Inr h''" "filled h'' B" "heap_size h'' = max (heap_size h') (Suc p')"
    using FillHole_ok [OF up(2)] up(3) by auto
  moreover have "p' < length B" using up(2) by (simp add: holed_def)
  ultimately show ?thesis using p(2) up by (auto simp: MoveHoleUpAndFill_def)
qed

text \<open>One decision on the way down: the larger child, if there is one.\<close>

lemma larger_child:
  assumes h: "holed h A p" and n: "length A = n" "LeftIndex p < n"
  shows "\<exists>b. (if LeftIndex p + 1 < n then Less_slots lt (LeftIndex p) (LeftIndex p + 1) h else Inr False) = Inr b \<and>
    (let l = if b then LeftIndex p + 1 else LeftIndex p
     in 0 < l \<and> l < n \<and> parent l = p \<and> l \<noteq> p \<and>
       (\<forall>c. 0 < c \<longrightarrow> c < n \<longrightarrow> parent c = p \<longrightarrow> below lt A c l))"
proof -
  let ?l = "LeftIndex p" and ?r = "LeftIndex p + 1"
  have pos: "0 < ?l" "0 < ?r" "?l \<noteq> p" "?r \<noteq> p" by (simp_all add: LeftIndex_def)
  have kids: "below lt A c l" if "0 < c" "c < n" "parent c = p" "below lt A ?l l" "?r < n \<Longrightarrow> below lt A ?r l" for c l
    using that parent_of_child [OF that(1), of p] by auto
  show ?thesis
  proof (cases "?r < n")
    case True
    have cmp: "Less_slots lt ?l ?r h = Inr (\<not> below lt A ?r ?l)"
      using holed_read [OF h, of ?l] holed_read [OF h, of ?r] n True pos by (simp add: Less_slots_def below_def)
    show ?thesis
    proof (cases "below lt A ?r ?l")
      case l: True
      then show ?thesis using True cmp n(2) pos kids [of _ ?l] by (intro exI [of _ False]) (simp add: Let_def)
    next
      case r: False
      from above_below [OF r] show ?thesis
        using True r cmp pos kids [of _ ?r] by (intro exI [of _ True]) (simp add: Let_def)
    qed
  next
    case False
    then show ?thesis using n(2) pos kids [of _ ?l] by (intro exI [of _ False]) (simp add: Let_def)
  qed
qed

lemma hole_down_step:
  assumes "LeftIndex p < n" "l = (if b then LeftIndex p + 1 else LeftIndex p)"
    and "(if LeftIndex p + 1 < n then Less_slots lt (LeftIndex p) (LeftIndex p + 1) h else Inr False) = Inr b"
  shows "hole_down lt leaf n p e h =
    and_then (if leaf then Inr True else Less_element_slot lt e l h) (\<lambda>go.
      if \<not> go then Inr (p, h) else and_then (MoveHole l p h) (\<lambda>h1. hole_down lt leaf n l e h1))"
  using assms by (subst hole_down.simps) (simp only: Let_def and_then_simps linorder_not_le [symmetric] if_False if_cancel)

lemma hole_down_ok:
  assumes "holed h A p" "down_order lt A p" "length A = n" "p < heap_size h"
    and "\<not> leaf \<Longrightarrow> 0 < p \<longrightarrow> below lt A p (parent p)"
  shows "\<exists>p' h' B. hole_down lt leaf n p (A ! p) h = Inr (p', h') \<and> holed h' B p' \<and> B ! p' = A ! p \<and>
    mset B = mset A \<and> p' < heap_size h' \<and> heap_size h' = heap_size h \<and>
    (if leaf then up_order lt B p' else heap_order lt B)"
  using assms
proof (induction "n - p" arbitrary: p h A rule: less_induct)
  case less
  note prems = less.prems
  have p: "p < length A" using prems(1) by (simp add: holed_def)
  show ?case
  proof (cases "n \<le> LeftIndex p")
    case True
    then have "hole_down lt leaf n p (A ! p) h = Inr (p, h)" by (simp add: hole_down.simps Let_def)
    moreover have "up_order lt A p" using down_leaf [OF prems(2)] True prems(3) by simp
    moreover have "heap_order lt A" if "\<not> leaf"
      using up_done [OF \<open>up_order lt A p\<close>] prems(5) [OF that] by blast
    ultimately show ?thesis using prems by (intro exI [of _ p] exI [of _ h] exI [of _ A]) simp
  next
    case False
    then have left: "LeftIndex p < n" by simp
    obtain b l where b: "(if LeftIndex p + 1 < n then Less_slots lt (LeftIndex p) (LeftIndex p + 1) h
        else Inr False) = Inr b" "l = (if b then LeftIndex p + 1 else LeftIndex p)"
      and l: "0 < l" "l < n" "parent l = p" "l \<noteq> p" "\<And>c. 0 < c \<Longrightarrow> c < n \<Longrightarrow> parent c = p \<Longrightarrow> below lt A c l"
      using larger_child [OF prems(1,3) left] by (auto simp: Let_def)
    have el: "Less_element_slot lt (A ! p) l h = Inr (\<not> below lt A l p)"
      using holed_read [OF prems(1), of l] l prems(3) by (simp add: Less_element_slot_def below_def)
    show ?thesis
    proof (cases "\<not> leaf \<and> below lt A l p")
      case True
      then have "hole_down lt leaf n p (A ! p) h = Inr (p, h)"
        using hole_down_step [OF left b(2,1)] el by simp
      moreover have "heap_order lt A"
        using down_done [OF prems(2)] prems(3,5) True l below_trans by blast
      ultimately show ?thesis using True prems by (intro exI [of _ p] exI [of _ h] exI [of _ A]) simp
    next
      case go: False
      let ?B = "swapped A p l"
      obtain h1 where h1: "MoveHole l p h = Inr h1" "holed h1 ?B l" "heap_size h1 = heap_size h"
        using MoveHole_ok [OF prems(1), of l] l prems(3,4) by (auto simp: max_def Suc_le_eq)
      have step: "hole_down lt leaf n p (A ! p) h = hole_down lt leaf n l (A ! p) h1"
        using go hole_down_step [OF left b(2,1)] el h1(1) by auto
      have down: "down_order lt ?B l"
        using down_step(1) [OF prems(2) l(1) _ l(3)] l(2,5) prems(3) by blast
      have parent_ok: "below lt ?B l (parent l)" if "\<not> leaf"
        using go that l p prems(3) above_below [of A l p] by (auto simp: below_def nth_swapped)
      have nl: "n - l < n - p" using l parent_less [OF l(1)] by simp
      have lh: "l < heap_size h1" using h1(2,3) holed_read(2) [OF prems(1), of l] l prems(3) by simp
      have at: "?B ! l = A ! p" using p l prems(3) by (simp add: nth_swapped)
      obtain p' h' B where "hole_down lt leaf n l (?B ! l) h1 = Inr (p', h')" "holed h' B p'" "B ! p' = ?B ! l"
          "mset B = mset ?B" "p' < heap_size h'" "heap_size h' = heap_size h1"
          "if leaf then up_order lt B p' else heap_order lt B"
        using less.hyps [OF nl h1(2) down _ lh] prems(3) parent_ok by auto
      then show ?thesis
        using step at h1(3) mset_swapped [of p A l] p l prems(3)
        by (intro exI [of _ p'] exI [of _ h'] exI [of _ B]) auto
    qed
  qed
qed

lemma MoveHoleDownAndFill_ok:
  assumes "holed h A p" "down_order lt A p" "p < heap_size h"
    and "heap_size h = length A + (if leaf then 1 else 0)"
    and "\<not> leaf \<Longrightarrow> 0 < p \<longrightarrow> below lt A p (parent p)"
    and "GetHeapHandle p h = Inr kInvalidIndex"
  shows "\<exists>p' h' B. MoveHoleDownAndFill lt leaf p (A ! p) h = Inr (p', h') \<and> filled h' B \<and> p' < length B \<and>
    B ! p' = A ! p \<and> mset B = mset A \<and> heap_order lt B \<and> heap_size h' = heap_size h"
proof -
  have p: "p < length A" using assms(1) by (simp add: holed_def)
  obtain p1 h1 B where d: "hole_down lt leaf (length A) p (A ! p) h = Inr (p1, h1)" "holed h1 B p1" "B ! p1 = A ! p"
    "mset B = mset A" "p1 < heap_size h1" "heap_size h1 = heap_size h"
    "if leaf then up_order lt B p1 else heap_order lt B"
    using hole_down_ok [OF assms(1,2) refl assms(3,5)] by blast
  have n: "heap_size h - (if leaf then 1 else 0) = length A" using assms(4) by simp
  have start: "MoveHoleDownAndFill lt leaf p (A ! p) h =
      (if leaf then MoveHoleUpAndFill lt p1 (A ! p) h1 else map_outcome (Pair p1) (FillHole p1 (A ! p) h1))"
    using assms(3,6) p d(1) unfolding MoveHoleDownAndFill_def Let_def n by (simp add: IsValid_def)
  show ?thesis
  proof (cases leaf)
    case True
    then obtain p' h' C where "MoveHoleUpAndFill lt p1 (A ! p) h1 = Inr (p', h')" "filled h' C" "p' < length C"
        "C ! p' = A ! p" "mset C = mset B" "heap_order lt C" "heap_size h' = max (heap_size h1) (Suc p1)"
      using MoveHoleUpAndFill_ok [OF d(2)] d(3,7) by auto
    then show ?thesis using True start d by (auto simp: max_def Suc_le_eq)
  next
    case False
    obtain h' where "FillHole p1 (A ! p) h1 = Inr h'" "filled h' B" "heap_size h' = max (heap_size h1) (Suc p1)"
      using FillHole_ok [OF d(2)] d(3) by auto
    moreover have "p1 < length B" using d(2) by (simp add: holed_def)
    ultimately show ?thesis using False start d by (auto simp: max_def Suc_le_eq)
  qed
qed

end

end
