(* ===== verification/Heap_Ops.thy ===== *)
theory Heap_Ops
  imports Heap_Order
begin

text \<open>
  The operations of the intrusive heap: each succeeds, keeps the heap property and the handles, and
  changes the elements as documented.
\<close>

section \<open>The invariant\<close>

definition heap_ok :: "('a \<Rightarrow> 'a \<Rightarrow> bool) \<Rightarrow> 'a IntrusiveHeap \<Rightarrow> 'a element list \<Rightarrow> bool" where
  "heap_ok lt h A \<longleftrightarrow> filled h A \<and> heap_size h = length A \<and> heap_order lt A"

lemma filledD:
  assumes "filled h A" "i < length A"
  shows "i < heap_size h" "slots h ! i = Some (A ! i)" "handles h (fst (A ! i)) = i" "i \<noteq> kInvalidIndex"
  using assms by (auto simp: filled_def)

lemma filled_distinct: "filled h A \<Longrightarrow> distinct (map fst A)"
  by (simp add: filled_def)

lemma MakeHole_ok:
  assumes "i < heap_size h" "slots h ! i = Some e"
  shows "MakeHole i h = Inr (h\<lparr>handles := (handles h)(fst e := kInvalidIndex)\<rparr>)"
  using assms
  by (cases e) (simp add: MakeHole_def ClearHeapHandle_def element_ClearHeapHandle_def GetHeapHandle_def IsValid_def)

lemma distinct_map_update:
  assumes "distinct (map f A)" "p < length A" "f e \<notin> f ` set A \<or> f e = f (A ! p)"
  shows "distinct (map f (A[p := e]))"
proof -
  have "distinct ((map f A)[p := f e])"
    using assms by (cases "f e = f (A ! p)") (auto simp: distinct_list_update)
  then show ?thesis by (simp add: map_update)
qed

lemma filled_size:
  assumes "length A \<le> kInvalidIndex" "distinct (map fst A)" "length A \<le> heap_size h"
    "\<And>i. i < length A \<Longrightarrow> slots h ! i = Some (A ! i)" "\<And>i. i < length A \<Longrightarrow> handles h (fst (A ! i)) = i"
    "\<And>k. k \<notin> fst ` set A \<Longrightarrow> handles h k = kInvalidIndex"
  shows "filled h A"
  using assms by (auto simp: filled_def)

lemma last_id:
  assumes "distinct (map fst A)" "A \<noteq> []"
  shows "fst (last A) \<notin> fst ` set (butlast A)"
proof -
  have "distinct (map fst (butlast A @ [last A]))" using assms by simp
  then show ?thesis by simp
qed

lemma filled_butlast:
  assumes "filled h A" "A \<noteq> []" "heap_size h' = heap_size h"
    and "\<And>i. Suc i < length A \<Longrightarrow> slots h' ! i = slots h ! i"
    and "handles h' = (handles h)(fst (last A) := kInvalidIndex)"
  shows "filled h' (butlast A)"
proof (rule filled_size)
  have d: "distinct (map fst A)" using filled_distinct [OF assms(1)] .
  show "length (butlast A) \<le> heap_size h'"
    using filledD(1) [OF assms(1), of "length A - 1"] assms(2,3) by (cases A) auto
  show "distinct (map fst (butlast A))" using d by (simp add: map_butlast distinct_butlast)
  show "handles h' (fst (butlast A ! i)) = i" if "i < length (butlast A)" for i
  proof -
    have "fst (butlast A ! i) \<noteq> fst (last A)" using last_id [OF d assms(2)] that by (metis image_eqI nth_mem)
    then show ?thesis using filledD(3) [OF assms(1)] that assms(5) by (simp add: nth_butlast)
  qed
  show "handles h' k = kInvalidIndex" if "k \<notin> fst ` set (butlast A)" for k
  proof (cases "k = fst (last A)")
    case False
    then have "k \<notin> fst ` set (butlast A @ [last A])" using that by simp
    then have "k \<notin> fst ` set A" using assms(2) by simp
    then show ?thesis using assms(1,5) by (simp add: filled_def)
  qed (simp add: assms(5))
qed (use assms in \<open>auto simp: filled_def nth_butlast\<close>)

text \<open>A heap in which the element at \<open>p\<close> has been taken out of account and \<open>e\<close> is to take its place.\<close>

lemma holed_update:
  assumes "filled h A" "p < length A" "heap_size h' = heap_size h"
    and "fst e \<notin> fst ` set A \<or> fst e = fst (A ! p)"
    and "\<And>i. i < length A \<Longrightarrow> i \<noteq> p \<Longrightarrow> slots h' ! i = slots h ! i"
    and "handles h' = (handles h)(fst (A ! p) := kInvalidIndex)"
  shows "holed h' (A[p := e]) p"
proof -
  have d: "distinct (map fst A)" using filled_distinct [OF assms(1)] .
  note ids = fst_distinct [OF d _ assms(2)]
  have "distinct (map fst (A[p := e]))" using distinct_map_update [OF d assms(2,4)] .
  moreover have "p \<le> heap_size h'" using filledD(1) [OF assms(1,2)] assms(3) by simp
  moreover have "handles h' k = kInvalidIndex" if "k \<notin> fst ` set (A[p := e])" for k
  proof (cases "k = fst (A ! p)")
    case False
    have "k \<notin> fst ` set A"
    proof
      assume "k \<in> fst ` set A"
      then obtain i where i: "i < length A" "k = fst (A ! i)" by (auto simp: in_set_conv_nth)
      then have "A[p := e] ! i = A ! i" using False by (cases "i = p") auto
      then have "A ! i \<in> set (A[p := e])" using i(1) by (metis length_list_update nth_mem)
      then show False using that i(2) by auto
    qed
    then show ?thesis using assms(1,6) by (simp add: filled_def)
  qed (simp add: assms(6))
  ultimately show ?thesis
    using assms filledD [OF assms(1)] ids by (auto simp: holed_def filled_def)
qed

lemma handle_of_cleared:
  "i < heap_size h \<Longrightarrow> slots h ! i = None \<or> (\<exists>e. slots h ! i = Some e \<and> handles h (fst e) = kInvalidIndex) \<Longrightarrow>
     GetHeapHandle i h = Inr kInvalidIndex"
  by (auto simp: GetHeapHandle_def)

context value_compare
begin

section \<open>Insertion\<close>

lemma InsertImpl_ok:
  assumes "heap_ok lt h A" "fst e \<notin> fst ` set A" "length A < kInvalidIndex"
  shows "\<exists>i h' B. InsertImpl lt e h = Inr (i, h') \<and> heap_ok lt h' B \<and> mset B = add_mset e (mset A) \<and>
    i < length B \<and> B ! i = e"
proof -
  let ?B = "A @ [e]" and ?p = "length A"
  have h: "filled h A" "heap_size h = ?p" "heap_order lt A" using assms(1) by (auto simp: heap_ok_def)
  have "holed h ?B ?p"
    using h(1,2) assms(2,3) filledD [OF h(1)] by (auto simp: holed_def filled_def nth_append less_Suc_eq)
  moreover have "up_order lt ?B ?p"
  proof -
    have "below lt ?B i (parent i)" if "0 < i" "i < ?p" for i
      using that h(3) parent_less [OF that(1)] by (simp add: heap_order_def below_def nth_append)
    moreover have "parent c \<noteq> ?p" if "0 < c" "c < length ?B" for c
      using that parent_less [OF that(1)] by simp
    ultimately show ?thesis by (auto simp: up_order_def grand_order_def less_Suc_eq)
  qed
  ultimately obtain i h' B where "MoveHoleUpAndFill lt ?p e h = Inr (i, h')" "filled h' B" "i < length B" "B ! i = e"
      "mset B = mset ?B" "heap_order lt B" "heap_size h' = max (heap_size h) (Suc ?p)"
    using MoveHoleUpAndFill_ok [of h ?B ?p] by auto
  moreover have "length B = Suc ?p" using \<open>mset B = mset ?B\<close> by (metis length_append_singleton mset_eq_length)
  ultimately show ?thesis using h(2) by (auto simp: InsertImpl_def heap_ok_def)
qed

section \<open>Removal\<close>

lemma heap_order_butlast: "heap_order lt A \<Longrightarrow> heap_order lt (butlast A)"
proof -
  assume "heap_order lt A"
  then have "below lt (butlast A) i (parent i)" if "0 < i" "i < length (butlast A)" for i
    using that parent_less [OF that(1)] by (simp add: heap_order_def below_def nth_butlast)
  then show ?thesis by (simp add: heap_order_def)
qed

lemma drop_slot_ok:
  assumes "filled h B" "heap_size h = Suc (length B)" "heap_order lt B"
  shows "\<exists>h'. pop_back_slot h = Inr h' \<and> heap_ok lt h' B"
proof -
  have "slots h \<noteq> []" using assms(2) by auto
  moreover have "filled (h\<lparr>slots := butlast (slots h)\<rparr>) B"
    using assms(1,2) by (intro filled_size) (auto simp: filled_def nth_butlast)
  ultimately show ?thesis using assms by (simp add: pop_back_slot_def heap_ok_def)
qed

text \<open>The last element takes the place of the one at \<open>p\<close>.\<close>

lemma fill_with_leaf:
  assumes h: "heap_ok lt h A" and p: "Suc p < length A"
    and h': "heap_size h' = heap_size h" "GetHeapHandle p h' = Inr kInvalidIndex"
      "\<And>i. Suc i < length A \<Longrightarrow> i \<noteq> p \<Longrightarrow> slots h' ! i = slots h ! i"
      "handles h' = (handles h)(fst (A ! p) := kInvalidIndex, fst (last A) := kInvalidIndex)"
  shows "\<exists>q h1 h2 B. MoveHoleDownAndFill lt True p (last A) h' = Inr (q, h1) \<and> pop_back_slot h1 = Inr h2 \<and>
    heap_ok lt h2 B \<and> mset B = mset A - {#A ! p#}"
proof -
  let ?e = "last A" and ?C = "(butlast A)[p := last A]"
  have f: "filled h A" "heap_size h = length A" "heap_order lt A" using h by (auto simp: heap_ok_def)
  have ne: "A \<noteq> []" and pb: "p < length (butlast A)" using p by auto
  have A: "A = butlast A @ [?e]" using ne by simp
  let ?h0 = "h\<lparr>handles := (handles h)(fst ?e := kInvalidIndex)\<rparr>"
  have fb: "filled ?h0 (butlast A)" using filled_butlast [OF f(1) ne] by simp
  have new: "fst ?e \<notin> fst ` set (butlast A)" using last_id [OF filled_distinct [OF f(1)] ne] .
  moreover have "butlast A ! p = A ! p" using pb by (rule nth_butlast)
  ultimately have hol: "holed h' ?C p"
    using h' f(2) by (intro holed_update [OF fb pb]) auto
  have down: "down_order lt ?C p" by (rule changed_order [OF heap_order_butlast [OF f(3)] pb])
  have at: "?C ! p = ?e" using pb by simp
  have sz: "heap_size h' = length ?C + 1" using h'(1) f(2) p by simp
  then obtain q h1 B where d: "MoveHoleDownAndFill lt True p ?e h' = Inr (q, h1)" "filled h1 B" "mset B = mset ?C"
      "heap_order lt B" "heap_size h1 = heap_size h'"
    using MoveHoleDownAndFill_ok [OF hol down _ _ _ h'(2), of True] at pb by auto
  have len: "length B = length ?C" using d(3) by (metis mset_eq_length)
  then obtain h2 where "pop_back_slot h1 = Inr h2" "heap_ok lt h2 B"
    using drop_slot_ok [OF d(2) _ d(4)] d(5) sz by auto
  moreover have "mset ?C = mset A - {#A ! p#}"
  proof -
    have "mset A = add_mset ?e (mset (butlast A))" by (subst A) simp
    moreover have "A ! p \<in># mset (butlast A)" using pb by (metis nth_butlast nth_mem set_mset_mset)
    ultimately show ?thesis using pb by (simp add: mset_update nth_butlast)
  qed
  ultimately show ?thesis using d by auto
qed

lemma drop_last_ok:
  assumes h: "heap_ok lt h A" and p: "Suc p = length A"
    and h': "heap_size h' = heap_size h" "\<And>i. i < p \<Longrightarrow> slots h' ! i = slots h ! i"
      "handles h' = (handles h)(fst (A ! p) := kInvalidIndex)"
  shows "\<exists>h2. pop_back_slot h' = Inr h2 \<and> heap_ok lt h2 (butlast A) \<and> mset (butlast A) = mset A - {#A ! p#}"
proof -
  have f: "filled h A" "heap_size h = length A" "heap_order lt A" using h by (auto simp: heap_ok_def)
  have A: "A = butlast A @ [A ! p]" using p by (metis append_butlast_last_id diff_Suc_1 last_conv_nth length_0_conv nat.distinct(1))
  have "last A = A ! p" using A by (metis last_snoc)
  then have "filled h' (butlast A)"
    using h' p by (intro filled_butlast [OF f(1)]) auto
  moreover have "mset (butlast A) = mset A - {#A ! p#}"
    by (subst (2) A) simp
  ultimately show ?thesis
    using drop_slot_ok [of h' "butlast A"] heap_order_butlast [OF f(3)] h'(1) f(2) p by simp
qed

lemma take_at_ok:
  assumes h: "heap_ok lt h A" and p: "p < length A"
  shows "\<exists>h' B. take_at lt p h = Inr (A ! p, h') \<and> heap_ok lt h' B \<and> mset B = mset A - {#A ! p#}"
proof -
  have f: "filled h A" "heap_size h = length A" using h by (auto simp: heap_ok_def)
  note fd = filledD [OF f(1)]
  let ?h2 = "h\<lparr>handles := (handles h)(fst (A ! p) := kInvalidIndex), slots := (slots h)[p := None]\<rparr>"
  have start: "MakeHole p h = Inr (h\<lparr>handles := (handles h)(fst (A ! p) := kInvalidIndex)\<rparr>)"
    "move_out p (h\<lparr>handles := (handles h)(fst (A ! p) := kInvalidIndex)\<rparr>) = Inr (A ! p, ?h2)"
    using MakeHole_ok [OF fd(1,2) [OF p]] fd [OF p] by (simp_all add: move_out_def read_slot_def)
  show ?thesis
  proof (cases "p = length A - 1")
    case True
    then have "Suc p = length A" using p by linarith
    then obtain h2 where "pop_back_slot ?h2 = Inr h2" "heap_ok lt h2 (butlast A)" "mset (butlast A) = mset A - {#A ! p#}"
      using drop_last_ok [OF h, of p ?h2] p by auto
    then show ?thesis using True start f(2) by (auto simp: take_at_def Let_def)
  next
    case False
    let ?l = "length A - 1"
    have l: "?l < length A" "p \<noteq> ?l" using p False by auto
    have sp: "Suc p < length A" using l p by linarith
    have la: "last A = A ! ?l" using p by (intro last_conv_nth) auto
    let ?h4 = "?h2\<lparr>handles := (handles ?h2)(fst (A ! ?l) := kInvalidIndex), slots := (slots ?h2)[?l := None]\<rparr>"
    have mk: "MakeHole ?l ?h2 = Inr (?h2\<lparr>handles := (handles ?h2)(fst (A ! ?l) := kInvalidIndex)\<rparr>)"
      using MakeHole_ok [of ?l ?h2 "A ! ?l"] fd [OF l(1)] l by simp
    have mv: "move_out ?l (?h2\<lparr>handles := (handles ?h2)(fst (A ! ?l) := kInvalidIndex)\<rparr>) = Inr (last A, ?h4)"
      using fd [OF l(1)] l(2) by (simp add: move_out_def read_slot_def la)
    have "GetHeapHandle p ?h4 = Inr kInvalidIndex"
      using fd [OF p] l by (intro handle_of_cleared) auto
    moreover have "slots ?h4 ! i = slots h ! i" if "Suc i < length A" "i \<noteq> p" for i using that by simp
    moreover have "handles ?h4 = (handles h)(fst (A ! p) := kInvalidIndex, fst (last A) := kInvalidIndex)"
      using la by simp
    ultimately obtain q h1 h2 B where "MoveHoleDownAndFill lt True p (last A) ?h4 = Inr (q, h1)"
        "pop_back_slot h1 = Inr h2" "heap_ok lt h2 B" "mset B = mset A - {#A ! p#}"
      using fill_with_leaf [OF h sp, of ?h4] by fastforce
    then show ?thesis using start mk mv l f(2) by (auto simp: take_at_def Let_def)
  qed
qed

lemma erase_at_index_ok:
  assumes h: "heap_ok lt h A" and p: "p < length A"
  shows "\<exists>h' B. erase_at_index lt p h = Inr h' \<and> heap_ok lt h' B \<and> mset B = mset A - {#A ! p#}"
proof -
  have f: "filled h A" "heap_size h = length A" using h by (auto simp: heap_ok_def)
  note fd = filledD [OF f(1)]
  let ?h1 = "h\<lparr>handles := (handles h)(fst (A ! p) := kInvalidIndex)\<rparr>"
  have start: "MakeHole p h = Inr ?h1" using MakeHole_ok [OF fd(1,2) [OF p]] .
  show ?thesis
  proof (cases "p = length A - 1")
    case True
    then have "Suc p = length A" using p by linarith
    then obtain h2 where "pop_back_slot ?h1 = Inr h2" "heap_ok lt h2 (butlast A)" "mset (butlast A) = mset A - {#A ! p#}"
      using drop_last_ok [OF h, of p ?h1] p by auto
    then show ?thesis using True start f(2) p by (auto simp: erase_at_index_def Let_def)
  next
    case False
    let ?l = "length A - 1"
    have l: "?l < length A" "p \<noteq> ?l" using p False by auto
    have sp: "Suc p < length A" using l p by linarith
    have la: "last A = A ! ?l" using p by (intro last_conv_nth) auto
    let ?h3 = "?h1\<lparr>handles := (handles ?h1)(fst (A ! ?l) := kInvalidIndex), slots := (slots ?h1)[?l := None]\<rparr>"
    have mk: "MakeHole ?l ?h1 = Inr (?h1\<lparr>handles := (handles ?h1)(fst (A ! ?l) := kInvalidIndex)\<rparr>)"
      using MakeHole_ok [of ?l ?h1 "A ! ?l"] fd [OF l(1)] by simp
    have mv: "move_out ?l (?h1\<lparr>handles := (handles ?h1)(fst (A ! ?l) := kInvalidIndex)\<rparr>) = Inr (last A, ?h3)"
      using fd [OF l(1)] l(2) by (simp add: move_out_def read_slot_def la)
    have "GetHeapHandle p ?h3 = Inr kInvalidIndex"
      using fd [OF p] l by (intro handle_of_cleared) auto
    moreover have "slots ?h3 ! i = slots h ! i" if "Suc i < length A" "i \<noteq> p" for i using that by simp
    moreover have "handles ?h3 = (handles h)(fst (A ! p) := kInvalidIndex, fst (last A) := kInvalidIndex)"
      using la by simp
    ultimately obtain q h1 h2 B where "MoveHoleDownAndFill lt True p (last A) ?h3 = Inr (q, h1)"
        "pop_back_slot h1 = Inr h2" "heap_ok lt h2 B" "mset B = mset A - {#A ! p#}"
      using fill_with_leaf [OF h sp, of ?h3] by fastforce
    then show ?thesis using start mk mv l f(2) p by (auto simp: erase_at_index_def Let_def)
  qed
qed

section \<open>Replacement and update\<close>

lemma up_if_not_below_parent:
  assumes "down_order lt A p" "p < length A" "0 < p" "\<not> lt (snd (A ! p)) (snd (A ! parent p))"
  shows "up_order lt A p"
proof -
  have "below lt A c p" if "0 < c" "c < length A" "parent c = p" for c
    using assms that ntrans by (auto simp: down_order_def grand_order_def below_def)
  then show ?thesis using assms(1) by (auto simp: up_order_def down_order_def)
qed

lemma heap_ok_same_length:
  assumes "filled h B" "heap_order lt B" "mset B = mset A" "heap_size h = length A"
  shows "heap_ok lt h B"
  using assms by (metis heap_ok_def mset_eq_length)

text \<open>The value at \<open>p\<close> has changed and its handle has been cleared: the element is put back either way.\<close>

lemma put_back_up:
  assumes "filled h A" "heap_size h = length A" "up_order lt (A[p := e]) p" "p < length A"
    and "fst e \<notin> fst ` set A \<or> fst e = fst (A ! p)"
    and "heap_size h' = heap_size h" "\<And>i. i < length A \<Longrightarrow> i \<noteq> p \<Longrightarrow> slots h' ! i = slots h ! i"
    and "handles h' = (handles h)(fst (A ! p) := kInvalidIndex)"
  shows "\<exists>q h2 B. MoveHoleUpAndFill lt p e h' = Inr (q, h2) \<and> heap_ok lt h2 B \<and> q < length B \<and> B ! q = e \<and>
    mset B = mset (A[p := e])"
proof -
  have hol: "holed h' (A[p := e]) p" using assms by (intro holed_update) auto
  obtain q h2 B where "MoveHoleUpAndFill lt p e h' = Inr (q, h2)" "filled h2 B" "q < length B" "B ! q = e"
      "mset B = mset (A[p := e])" "heap_order lt B" "heap_size h2 = max (heap_size h') (Suc p)"
    using MoveHoleUpAndFill_ok [OF hol assms(3)] assms(4) by auto
  then show ?thesis using heap_ok_same_length [of h2 B "A[p := e]"] assms(2,4,6) by auto
qed

lemma put_back_down:
  assumes "filled h A" "heap_size h = length A" "down_order lt (A[p := e]) p" "p < length A"
    and "fst e \<notin> fst ` set A \<or> fst e = fst (A ! p)"
    and "heap_size h' = heap_size h" "\<And>i. i < length A \<Longrightarrow> i \<noteq> p \<Longrightarrow> slots h' ! i = slots h ! i"
    and "handles h' = (handles h)(fst (A ! p) := kInvalidIndex)"
    and "0 < p \<Longrightarrow> below lt (A[p := e]) p (parent p)" "GetHeapHandle p h' = Inr kInvalidIndex"
  shows "\<exists>q h2 B. MoveHoleDownAndFill lt False p e h' = Inr (q, h2) \<and> heap_ok lt h2 B \<and> q < length B \<and> B ! q = e \<and>
    mset B = mset (A[p := e])"
proof -
  have hol: "holed h' (A[p := e]) p" using assms by (intro holed_update) auto
  obtain q h2 B where "MoveHoleDownAndFill lt False p e h' = Inr (q, h2)" "filled h2 B" "q < length B" "B ! q = e"
      "mset B = mset (A[p := e])" "heap_order lt B" "heap_size h2 = heap_size h'"
    using MoveHoleDownAndFill_ok [OF hol assms(3), of False] assms(2,4,6,9,10) by auto
  then show ?thesis using heap_ok_same_length [of h2 B "A[p := e]"] assms(2,4,6) by auto
qed

lemma Update_restores:
  assumes h: "filled h (A[p := e])" "heap_size h = length A" and A: "heap_order lt A" "p < length A"
  shows "\<exists>q h' B. Update lt p h = Inr (q, h') \<and> heap_ok lt h' B \<and> q < length B \<and> B ! q = e \<and>
    mset B = mset (A[p := e])"
proof -
  let ?A = "A[p := e]"
  have pl: "p < length ?A" and e: "?A ! p = e" and same: "?A[p := e] = ?A" using A(2) by simp_all
  note fd = filledD [OF h(1)]
  let ?h1 = "h\<lparr>handles := (handles h)(fst e := kInvalidIndex)\<rparr>"
  let ?h2 = "?h1\<lparr>slots := (slots h)[p := None]\<rparr>"
  have start: "MakeHole p h = Inr ?h1" "move_out p ?h1 = Inr (e, ?h2)"
    using MakeHole_ok [OF fd(1,2) [OF pl]] fd [OF pl] e by (simp_all add: move_out_def read_slot_def)
  have down: "down_order lt ?A p" by (rule changed_order [OF A])
  have frame: "heap_size ?h2 = heap_size h" "\<And>i. i < length ?A \<Longrightarrow> i \<noteq> p \<Longrightarrow> slots ?h2 ! i = slots h ! i"
    "handles ?h2 = (handles h)(fst (?A ! p) := kInvalidIndex)"
    using e by simp_all
  have clear: "GetHeapHandle p ?h2 = Inr kInvalidIndex" using fd [OF pl] by (intro handle_of_cleared) auto
  let ?up = "0 < p \<and> \<not> lt (snd e) (snd (?A ! parent p))"
  have test: "(if p > 0 then and_then (ParentIndex p) (\<lambda>i. map_outcome Not (Less_slots lt p i ?h1)) else Inr False) = Inr ?up"
    using fd(1,2) [OF pl] fd(1,2) [of "parent p"] e parent_less [of p] A(2)
    by (auto simp: ParentIndex_def Less_slots_def read_slot_def parent_def)
  show ?thesis
  proof (cases ?up)
    case True
    then have "up_order lt ?A p" using up_if_not_below_parent [OF down pl] e by simp
    then obtain q h3 B where "MoveHoleUpAndFill lt p e ?h2 = Inr (q, h3)" "heap_ok lt h3 B" "q < length B" "B ! q = e"
        "mset B = mset ?A"
      using put_back_up [OF h(1) _ _ pl _ frame, of e] h(2) same e by auto
    then show ?thesis using start test True fd(1) [OF pl] unfolding Update_def by auto
  next
    case False
    then have "below lt ?A p (parent p)" if "0 < p" using that asym e by (auto simp: below_def)
    then obtain q h3 B where "MoveHoleDownAndFill lt False p e ?h2 = Inr (q, h3)" "heap_ok lt h3 B" "q < length B"
        "B ! q = e" "mset B = mset ?A"
      using put_back_down [OF h(1) _ _ pl _ frame _ clear, of e] h(2) same e down by auto
    then show ?thesis using start test False fd(1) [OF pl] unfolding Update_def by auto
  qed
qed

lemma Modify_ok:
  assumes h: "heap_ok lt h A" and p: "p < length A"
  shows "\<exists>q h' B. Modify lt p f h = Inr (q, h') \<and> heap_ok lt h' B \<and> q < length B \<and>
    B ! q = (fst (A ! p), f (snd (A ! p))) \<and> mset B = mset (A[p := (fst (A ! p), f (snd (A ! p)))])"
proof -
  let ?e = "(fst (A ! p), f (snd (A ! p)))"
  let ?h = "h\<lparr>slots := (slots h)[p := Some ?e]\<rparr>"
  have g: "filled h A" "heap_size h = length A" "heap_order lt A" using h by (auto simp: heap_ok_def)
  have ids: "map fst (A[p := ?e]) = map fst A" by (simp add: map_update list_update_same_conv p)
  then have "fst ` set (A[p := ?e]) = fst ` set A" by (metis set_map)
  then have "filled ?h (A[p := ?e])"
    using g(1) p ids by (simp add: filled_def nth_list_update)
  moreover have "heap_at p h = Inr (A ! p)" using filledD [OF g(1) p] by (simp add: heap_at_def read_slot_def)
  then have "Modify lt p f h = Update lt p ?h" by (simp add: Modify_def split_beta)
  ultimately show ?thesis using Update_restores [of ?h A p ?e] g p by simp
qed

lemma ReplaceImpl_ok:
  assumes h: "heap_ok lt h A" and p: "p < length A" and new: "fst e \<notin> fst ` set A"
  shows "\<exists>q h' B. ReplaceImpl lt p e h = Inr (q, h') \<and> heap_ok lt h' B \<and> q < length B \<and> B ! q = e \<and>
    mset B = mset (A[p := e])"
proof -
  have g: "filled h A" "heap_size h = length A" "heap_order lt A" using h by (auto simp: heap_ok_def)
  note fd = filledD [OF g(1)]
  let ?h1 = "h\<lparr>handles := (handles h)(fst (A ! p) := kInvalidIndex)\<rparr>"
  have start: "MakeHole p h = Inr ?h1" "Less_element_slot lt e p ?h1 = Inr (lt (snd e) (snd (A ! p)))"
    using MakeHole_ok [OF fd(1,2) [OF p]] fd [OF p] by (simp_all add: Less_element_slot_def read_slot_def)
  have frame: "heap_size ?h1 = heap_size h" "\<And>i. i < length A \<Longrightarrow> i \<noteq> p \<Longrightarrow> slots ?h1 ! i = slots h ! i"
    "handles ?h1 = (handles h)(fst (A ! p) := kInvalidIndex)"
    by auto
  have clear: "GetHeapHandle p ?h1 = Inr kInvalidIndex" using fd [OF p] by (intro handle_of_cleared) auto
  show ?thesis
  proof (cases "lt (snd e) (snd (A ! p))")
    case True
    have "below lt (A[p := e]) p (parent p)" if "0 < p"
    proof -
      have "parent p < p" "below lt A p (parent p)" using parent_less [OF that] g(3) that p by (auto simp: heap_order_def)
      then show ?thesis using True asym ntrans p unfolding below_def by (metis nth_list_update_eq nth_list_update_neq order_less_irrefl)
    qed
    then show ?thesis
      using put_back_down [OF g(1,2) changed_order [OF g(3) p] p _ frame _ clear, of e] new start True
      by (simp add: ReplaceImpl_def)
  next
    case False
    have "below lt (A[p := e]) c p" if c: "0 < c" "c < length A" "parent c = p" for c
    proof -
      have "c \<noteq> p" "below lt A c p" using parent_less [OF c(1)] g(3) c by (auto simp: heap_order_def)
      then show ?thesis using False ntrans p by (auto simp: below_def)
    qed
    then have "up_order lt (A[p := e]) p"
      using changed_order [OF g(3) p, of e] by (auto simp: up_order_def down_order_def)
    then show ?thesis
      using put_back_up [OF g(1,2) _ p _ frame, of e] new start False by (simp add: ReplaceImpl_def)
  qed
qed

lemma ReplaceTopImpl_ok:
  assumes h: "heap_ok lt h A" and p: "A \<noteq> []" and new: "fst e \<notin> fst ` set A"
  shows "\<exists>q h' B. ReplaceTopImpl lt e h = Inr (q, h') \<and> heap_ok lt h' B \<and> q < length B \<and> B ! q = e \<and>
    mset B = mset (A[0 := e])"
proof -
  have g: "filled h A" "heap_size h = length A" "heap_order lt A" using h by (auto simp: heap_ok_def)
  have z: "0 < length A" using p by simp
  note fd = filledD [OF g(1)]
  let ?h1 = "h\<lparr>handles := (handles h)(fst (A ! 0) := kInvalidIndex)\<rparr>"
  have start: "MakeHole 0 h = Inr ?h1" using MakeHole_ok [OF fd(1,2) [OF z]] .
  have frame: "heap_size ?h1 = heap_size h" "\<And>i. i < length A \<Longrightarrow> i \<noteq> 0 \<Longrightarrow> slots ?h1 ! i = slots h ! i"
    "handles ?h1 = (handles h)(fst (A ! 0) := kInvalidIndex)"
    by auto
  have "GetHeapHandle 0 ?h1 = Inr kInvalidIndex" using fd [OF z] by (intro handle_of_cleared) auto
  then show ?thesis
    using put_back_down [OF g(1,2) changed_order [OF g(3) z] z _ frame, of e] new start by (simp add: ReplaceTopImpl_def)
qed

end

end
