(* ===== verification/Heap_Client.thy ===== *)
theory Heap_Client
  imports Heap_Ops
begin

text \<open>
  The intrusive heap as its clients use it: every run of operations, described by the ledger of what has
  been put in and not yet taken out, and what taking the top again and again delivers.
\<close>

section \<open>Clearing\<close>

lemma ClearHeapHandle_ok:
  assumes "i < heap_size h" "slots h ! i = Some e"
  shows "ClearHeapHandle i h = Inr (h\<lparr>handles := (handles h)(fst e := kInvalidIndex)\<rparr>)"
  using MakeHole_ok [OF assms] assms(1) by (simp add: MakeHole_def)

lemma clear_handles_ok:
  assumes "\<And>i. i \<in> set js \<Longrightarrow> i < heap_size h \<and> slots h ! i \<noteq> None"
  shows "\<exists>h'. clear_handles js h = Inr h' \<and> slots h' = slots h \<and>
    (\<forall>k. handles h' k = (if k \<in> (\<lambda>i. fst (the (slots h ! i))) ` set js then kInvalidIndex else handles h k))"
  using assms
proof (induction js arbitrary: h)
  case (Cons i js)
  have "i < heap_size h \<and> slots h ! i \<noteq> None" using Cons.prems [of i] by simp
  then obtain e where i: "i < heap_size h" "slots h ! i = Some e" by blast
  let ?h = "h\<lparr>handles := (handles h)(fst e := kInvalidIndex)\<rparr>"
  obtain h' where "clear_handles js ?h = Inr h'" "slots h' = slots h"
      "\<forall>k. handles h' k = (if k \<in> (\<lambda>i. fst (the (slots h ! i))) ` set js then kInvalidIndex else handles ?h k)"
    using Cons.IH [of ?h] Cons.prems by auto
  then show ?case using ClearHeapHandle_ok [OF i] i by simp
qed simp

lemma heap_clear_ok:
  assumes "heap_ok lt h A"
  shows "heap_clear h = Inr IntrusiveHeap_default"
proof -
  have f: "filled h A" "heap_size h = length A" using assms by (auto simp: heap_ok_def)
  obtain h' where h': "clear_handles [0..<heap_size h] h = Inr h'"
      "\<forall>k. handles h' k = (if k \<in> (\<lambda>i. fst (the (slots h ! i))) ` set [0..<heap_size h] then kInvalidIndex else handles h k)"
    using clear_handles_ok [of "[0..<heap_size h]" h] filledD(2) [OF f(1)] f(2) by auto
  have "handles h' k = kInvalidIndex" for k
  proof (cases "k \<in> fst ` set A")
    case True
    then obtain i where "i < length A" "k = fst (A ! i)" by (auto simp: in_set_conv_nth)
    then have "k \<in> (\<lambda>i. fst (the (slots h ! i))) ` set [0..<heap_size h]"
      using filledD(2) [OF f(1)] f(2) by (intro image_eqI [of _ _ i]) auto
    then show ?thesis using h'(2) by simp
  next
    case False
    then show ?thesis using f(1) h'(2) by (simp add: filled_def)
  qed
  then have "handles h' = (\<lambda>_. kInvalidIndex)" by auto
  then show ?thesis using h'(1) by (simp add: heap_clear_def IntrusiveHeap_default_def)
qed

section \<open>The ledger\<close>

definition ledger :: "'a element list \<Rightarrow> (nat \<rightharpoonup> 'a) \<Rightarrow> bool" where
  "ledger A m \<longleftrightarrow> (\<forall>k v. m k = Some v \<longleftrightarrow> (k, v) \<in> set A)"

lemma ledger_dom: "ledger A m \<Longrightarrow> dom m = fst ` set A"
  by (force simp: ledger_def)

lemma ledger_insert:
  assumes "ledger A m" "mset B = add_mset (k, v) (mset A)" "k \<notin> fst ` set A"
  shows "ledger B (m(k \<mapsto> v))"
proof -
  have "set B = insert (k, v) (set A)" using assms(2) by (metis set_mset_add_mset_insert set_mset_mset)
  then show ?thesis using assms(1,3) by (force simp: ledger_def)
qed

lemma ledger_without:
  assumes "ledger A m" "distinct (map fst A)" "p < length A"
  shows "(m(fst (A ! p) := None)) j = Some w \<longleftrightarrow> (j, w) \<in> set A - {A ! p}"
proof (cases "j = fst (A ! p)")
  case True
  have "(j, w) = A ! p" if "(j, w) \<in> set A"
    using inj_onD [of fst "set A" "(j, w)" "A ! p"] that assms(2,3) True by (simp add: distinct_map)
  then show ?thesis using True by auto
next
  case False
  then have "(j, w) \<noteq> A ! p" by (metis fst_conv)
  then show ?thesis using False assms(1) by (simp add: ledger_def)
qed

lemma ledger_update:
  assumes "ledger A m" "mset B = mset (A[p := (k, v)])" "distinct (map fst A)" "p < length A"
    and "k \<notin> fst ` set A \<or> k = fst (A ! p)"
  shows "ledger B ((m(fst (A ! p) := None))(k \<mapsto> v))"
proof -
  have "distinct A" using assms(3) by (simp add: distinct_map)
  then have s: "set B = insert (k, v) (set A - {A ! p})"
    using assms(2,4) set_update_distinct by (metis mset_eq_setD)
  note w = ledger_without [OF assms(1,3,4)]
  have "(m(fst (A ! p) := None)) k = None" using assms(5) ledger_dom [OF assms(1)] by auto
  then have "(k, w) \<notin> set A - {A ! p}" for w using w [of k w] by simp
  then have "((m(fst (A ! p) := None))(k \<mapsto> v)) j = Some w \<longleftrightarrow> (j, w) \<in> set B" for j w
    using w [of j w] s by (cases "j = k") auto
  then show ?thesis unfolding ledger_def by blast
qed

lemma ledger_remove:
  assumes "ledger A m" "mset B = mset A - {#A ! p#}" "distinct (map fst A)" "p < length A"
  shows "ledger B (m(fst (A ! p) := None))"
proof -
  have "distinct A" using assms(3) by (simp add: distinct_map)
  then have "set B = set A - {A ! p}"
    using assms(2) by (metis mset_remove1 set_mset_mset set_remove1_eq)
  then show ?thesis unfolding ledger_def using ledger_without [OF assms(1,3,4)] by simp
qed

lemma by_handle:
  assumes "heap_ok lt h A" "ledger A m" "m k = Some v"
  shows "handles h k < length A" "A ! handles h k = (k, v)"
proof -
  have "(k, v) \<in> set A" using assms(2,3) by (simp add: ledger_def)
  then obtain i where "i < length A" "A ! i = (k, v)" by (auto simp: in_set_conv_nth)
  then show "handles h k < length A" "A ! handles h k = (k, v)"
    using assms(1) filledD(3) [of h A i] by (auto simp: heap_ok_def)
qed

section \<open>Runs\<close>

text \<open>
  The heaps a client can reach and the ledger of each.  An element is addressed by its handle, and the
  id of a new element is that of no element in the heap.
\<close>

inductive client :: "('a \<Rightarrow> 'a \<Rightarrow> bool) \<Rightarrow> 'a IntrusiveHeap \<Rightarrow> (nat \<rightharpoonup> 'a) \<Rightarrow> bool" for lt where
  start: "client lt IntrusiveHeap_default Map.empty"
| insert_step: "client lt h m \<Longrightarrow> k \<notin> dom m \<Longrightarrow> heap_size h < kInvalidIndex \<Longrightarrow>
    InsertImpl lt (k, v) h = Inr (i, h') \<Longrightarrow> client lt h' (m(k \<mapsto> v))"
| erase_step: "client lt h m \<Longrightarrow> k \<in> dom m \<Longrightarrow> erase_at_index lt (handles h k) h = Inr h' \<Longrightarrow>
    client lt h' (m(k := None))"
| take_step: "client lt h m \<Longrightarrow> k \<in> dom m \<Longrightarrow> take_at lt (handles h k) h = Inr (e, h') \<Longrightarrow>
    client lt h' (m(k := None))"
| take_top_step: "client lt h m \<Longrightarrow> m \<noteq> Map.empty \<Longrightarrow> take_top lt h = Inr (e, h') \<Longrightarrow>
    client lt h' (m(fst e := None))"
| modify_step: "client lt h m \<Longrightarrow> m k = Some v \<Longrightarrow> Modify lt (handles h k) f h = Inr (i, h') \<Longrightarrow>
    client lt h' (m(k \<mapsto> f v))"
| replace_step: "client lt h m \<Longrightarrow> k \<in> dom m \<Longrightarrow> k' \<notin> dom m \<Longrightarrow>
    ReplaceImpl lt (handles h k) (k', v) h = Inr (i, h') \<Longrightarrow> client lt h' ((m(k := None))(k' \<mapsto> v))"
| replace_top_step: "client lt h m \<Longrightarrow> heap_top h = Inr e \<Longrightarrow> k' \<notin> dom m \<Longrightarrow> m \<noteq> Map.empty \<Longrightarrow>
    ReplaceTopImpl lt (k', v) h = Inr (i, h') \<Longrightarrow> client lt h' ((m(fst e := None))(k' \<mapsto> v))"
| clear_step: "client lt h m \<Longrightarrow> heap_clear h = Inr h' \<Longrightarrow> client lt h' Map.empty"

definition tracks :: "('a \<Rightarrow> 'a \<Rightarrow> bool) \<Rightarrow> 'a IntrusiveHeap \<Rightarrow> (nat \<rightharpoonup> 'a) \<Rightarrow> bool" where
  "tracks lt h m \<longleftrightarrow> (\<exists>A. heap_ok lt h A \<and> ledger A m)"

lemma tracksE:
  assumes "tracks lt h m"
  obtains A where "heap_ok lt h A" "ledger A m" "dom m = fst ` set A" "filled h A" "heap_size h = length A"
    "distinct (map fst A)" "heap_order lt A" "m = Map.empty \<longleftrightarrow> A = []"
proof -
  obtain A where A: "heap_ok lt h A" "ledger A m" using assms by (auto simp: tracks_def)
  moreover have "dom m = fst ` set A" using ledger_dom [OF A(2)] .
  ultimately show ?thesis using that filled_distinct [of h A] by (force simp: heap_ok_def)
qed

lemma tracks_default: "tracks lt IntrusiveHeap_default Map.empty"
  by (auto simp: tracks_def heap_ok_def filled_def heap_order_def ledger_def IntrusiveHeap_default_def intro!: exI [of _ "[]"])

context value_compare
begin

text \<open>Every operation succeeds on a tracked heap and keeps it tracked.\<close>

lemma insert_tracks:
  assumes "tracks lt h m" "k \<notin> dom m" "heap_size h < kInvalidIndex"
  shows "\<exists>i h'. InsertImpl lt (k, v) h = Inr (i, h') \<and> tracks lt h' (m(k \<mapsto> v))"
proof -
  obtain A where A: "heap_ok lt h A" "ledger A m" "dom m = fst ` set A" "heap_size h = length A"
    using assms(1) by (rule tracksE)
  then obtain i h' B where "InsertImpl lt (k, v) h = Inr (i, h')" "heap_ok lt h' B" "mset B = add_mset (k, v) (mset A)"
    using InsertImpl_ok [OF A(1), of "(k, v)"] assms(2,3) by auto
  then show ?thesis using ledger_insert [OF A(2)] assms(2) A(3) by (auto simp: tracks_def)
qed

lemma take_tracks:
  assumes "tracks lt h m" "k \<in> dom m"
  shows "\<exists>v h'. take_at lt (handles h k) h = Inr ((k, v), h') \<and> m k = Some v \<and> tracks lt h' (m(k := None))"
    and "\<exists>h'. erase_at_index lt (handles h k) h = Inr h' \<and> tracks lt h' (m(k := None))"
proof -
  obtain A where A: "heap_ok lt h A" "ledger A m" "distinct (map fst A)" using assms(1) by (rule tracksE)
  obtain v where v: "m k = Some v" using assms(2) by auto
  note p = by_handle [OF A(1,2) v]
  have "ledger B (m(k := None))" if "mset B = mset A - {#A ! handles h k#}" for B
    using ledger_remove [OF A(2) that A(3) p(1)] p(2) by simp
  then show "\<exists>v h'. take_at lt (handles h k) h = Inr ((k, v), h') \<and> m k = Some v \<and> tracks lt h' (m(k := None))"
    and "\<exists>h'. erase_at_index lt (handles h k) h = Inr h' \<and> tracks lt h' (m(k := None))"
    using take_at_ok [OF A(1) p(1)] erase_at_index_ok [OF A(1) p(1)] p(2) v by (auto simp: tracks_def)
qed

lemma top_tracks:
  assumes "tracks lt h m" "m \<noteq> Map.empty"
  shows "\<exists>k v. heap_top h = Inr (k, v) \<and> m k = Some v \<and> handles h k = 0 \<and> (\<forall>k' v'. m k' = Some v' \<longrightarrow> \<not> lt v v')"
proof -
  obtain A where A: "heap_ok lt h A" "ledger A m" "filled h A" "heap_order lt A" "m = Map.empty \<longleftrightarrow> A = []"
    using assms(1) by (rule tracksE)
  obtain k v where kv: "A ! 0 = (k, v)" by (metis surj_pair)
  have z: "0 < length A" using A(5) assms(2) by simp
  have "heap_top h = Inr (k, v)" using filledD(1,2) [OF A(3) z] kv by (simp add: heap_top_def read_slot_def)
  moreover have "m k = Some v" using A(2) z kv by (metis ledger_def nth_mem)
  moreover have "handles h k = 0" using filledD(3) [OF A(3) z] kv by simp
  moreover have "\<not> lt v v'" if "m k' = Some v'" for k' v'
    using top_is_greatest [OF A(4) by_handle(1) [OF A(1,2) that]] by_handle(2) [OF A(1,2) that] kv
    by (simp add: below_def)
  ultimately show ?thesis by blast
qed

lemma take_top_tracks:
  assumes "tracks lt h m" "m \<noteq> Map.empty"
  shows "\<exists>k v h'. take_top lt h = Inr ((k, v), h') \<and> m k = Some v \<and> tracks lt h' (m(k := None)) \<and>
    (\<forall>k' v'. m k' = Some v' \<longrightarrow> \<not> lt v v')"
proof -
  obtain k v where k: "m k = Some v" "handles h k = 0" "\<forall>k' v'. m k' = Some v' \<longrightarrow> \<not> lt v v'"
    using top_tracks [OF assms] by auto
  then show ?thesis using take_tracks(1) [OF assms(1), of k] by (auto simp: take_top_def)
qed

lemma modify_tracks:
  assumes "tracks lt h m" "m k = Some v"
  shows "\<exists>i h'. Modify lt (handles h k) f h = Inr (i, h') \<and> tracks lt h' (m(k \<mapsto> f v))"
proof -
  obtain A where A: "heap_ok lt h A" "ledger A m" "distinct (map fst A)" using assms(1) by (rule tracksE)
  note p = by_handle [OF A(1,2) assms(2)]
  obtain i h' B where "Modify lt (handles h k) f h = Inr (i, h')" "heap_ok lt h' B" "mset B = mset (A[handles h k := (k, f v)])"
    using Modify_ok [OF A(1) p(1), of f] p(2) by auto
  moreover from this(3) have "ledger B (m(k \<mapsto> f v))" using ledger_update [OF A(2) _ A(3) p(1), of B k "f v"] p(2) by simp
  ultimately show ?thesis by (auto simp: tracks_def)
qed

lemma replace_tracks:
  assumes "tracks lt h m" "k \<in> dom m" "k' \<notin> dom m"
  shows "\<exists>i h'. ReplaceImpl lt (handles h k) (k', v) h = Inr (i, h') \<and> tracks lt h' ((m(k := None))(k' \<mapsto> v))"
proof -
  obtain A where A: "heap_ok lt h A" "ledger A m" "dom m = fst ` set A" "distinct (map fst A)"
    using assms(1) by (rule tracksE)
  obtain w where w: "m k = Some w" using assms(2) by auto
  note p = by_handle [OF A(1,2) w]
  obtain i h' B where "ReplaceImpl lt (handles h k) (k', v) h = Inr (i, h')" "heap_ok lt h' B"
      "mset B = mset (A[handles h k := (k', v)])"
    using ReplaceImpl_ok [OF A(1) p(1), of "(k', v)"] assms(3) A(3) by auto
  then show ?thesis using ledger_update [OF A(2) _ A(4) p(1), of B k' v] p(2) assms(3) A(3) by (auto simp: tracks_def)
qed

lemma replace_top_tracks:
  assumes "tracks lt h m" "m \<noteq> Map.empty" "k' \<notin> dom m"
  shows "\<exists>e i h'. heap_top h = Inr e \<and> ReplaceTopImpl lt (k', v) h = Inr (i, h') \<and> tracks lt h' ((m(fst e := None))(k' \<mapsto> v))"
proof -
  obtain A where A: "heap_ok lt h A" "ledger A m" "dom m = fst ` set A" "filled h A" "distinct (map fst A)"
      "m = Map.empty \<longleftrightarrow> A = []"
    using assms(1) by (rule tracksE)
  have z: "0 < length A" "A \<noteq> []" using A(6) assms(2) by auto
  have "heap_top h = Inr (A ! 0)" using filledD(1,2) [OF A(4) z(1)] by (simp add: heap_top_def read_slot_def)
  moreover obtain i h' B where "ReplaceTopImpl lt (k', v) h = Inr (i, h')" "heap_ok lt h' B" "mset B = mset (A[0 := (k', v)])"
    using ReplaceTopImpl_ok [OF A(1) z(2), of "(k', v)"] assms(3) A(3) by auto
  moreover from this(3) have "ledger B ((m(fst (A ! 0) := None))(k' \<mapsto> v))"
    using ledger_update [OF A(2) _ A(5) z(1), of B k' v] assms(3) A(3) by auto
  ultimately show ?thesis by (auto simp: tracks_def)
qed

lemma clear_tracks: "tracks lt h m \<Longrightarrow> heap_clear h = Inr IntrusiveHeap_default"
  using heap_clear_ok by (auto simp: tracks_def)

lemma client_tracks: "client lt h m \<Longrightarrow> tracks lt h m"
proof (induction rule: client.induct)
  case start
  then show ?case by (rule tracks_default)
next
  case (insert_step h m k v i h')
  then obtain j h2 where "InsertImpl lt (k, v) h = Inr (j, h2)" "tracks lt h2 (m(k \<mapsto> v))"
    using insert_tracks [of h m k v] by blast
  then show ?case using insert_step.hyps by (simp del: fun_upd_apply)
next
  case (erase_step h m k h')
  then show ?case using take_tracks(2) [of h m k] by (auto simp del: fun_upd_apply)
next
  case (take_step h m k e h')
  then show ?case using take_tracks(1) [of h m k] by (auto simp del: fun_upd_apply)
next
  case (take_top_step h m e h')
  then show ?case using take_top_tracks [of h m] by (auto simp del: fun_upd_apply)
next
  case (modify_step h m k v f i h')
  then show ?case using modify_tracks [of h m k v f] by (auto simp del: fun_upd_apply)
next
  case (replace_step h m k k' v i h')
  then show ?case using replace_tracks [of h m k k' v] by (auto simp del: fun_upd_apply)
next
  case (replace_top_step h m e k' v i h')
  then show ?case using replace_top_tracks [of h m k' v] by (auto simp del: fun_upd_apply)
next
  case (clear_step h m h')
  then show ?case using clear_tracks [of h m] tracks_default by auto
qed

end

section \<open>Comparison by a key\<close>

text \<open>\<^verbatim>\<open>std::less\<close> on a key of the value, the comparison the heap is used with.\<close>

interpretation by_key: value_compare "\<lambda>a b. key a < key b" for key :: "'a \<Rightarrow> 'b :: linorder"
  by unfold_locales auto

text \<open>Taking the top until \<open>n\<close> elements have been taken.\<close>

fun take_tops :: "('a \<Rightarrow> 'a \<Rightarrow> bool) \<Rightarrow> nat \<Rightarrow> 'a IntrusiveHeap \<Rightarrow> ('a element list \<times> 'a IntrusiveHeap) outcome" where
  "take_tops lt 0 h = Inr ([], h)"
| "take_tops lt (Suc n) h =
     and_then (take_top lt h) (\<lambda>(e, h1). map_outcome (\<lambda>(es, h2). (e # es, h2)) (take_tops lt n h1))"

lemma tracks_finite: "tracks lt h m \<Longrightarrow> finite (dom m) \<and> heap_size h = card (dom m)"
  by (erule tracksE) (simp add: distinct_card flip: set_map)

lemma tracks_handles:
  assumes "tracks lt h m"
  shows "m k = Some v \<Longrightarrow> heap_at (handles h k) h = Inr (k, v)" "m k = None \<Longrightarrow> \<not> IsValid (handles h k)"
proof -
  obtain A where A: "heap_ok lt h A" "ledger A m" "dom m = fst ` set A" "filled h A" using assms by (rule tracksE)
  show "heap_at (handles h k) h = Inr (k, v)" if "m k = Some v"
    using by_handle [OF A(1,2) that] filledD(1,2) [OF A(4)] by (simp add: heap_at_def read_slot_def)
  show "\<not> IsValid (handles h k)" if "m k = None"
    using that A(3,4) by (simp add: IsValid_def filled_def) blast
qed

lemma take_tops_ok:
  assumes "tracks (\<lambda>a b. key a < (key b :: 'b :: linorder)) h m"
  shows "\<exists>es h'. take_tops (\<lambda>a b. key a < key b) (heap_size h) h = Inr (es, h') \<and> slots h' = [] \<and>
    sorted (rev (map (key \<circ> snd) es)) \<and> distinct (map fst es) \<and> map_of es = m"
  using assms
proof (induction "heap_size h" arbitrary: h m)
  case 0
  then have "m = Map.empty" using tracks_finite [OF 0(2)] by simp
  then show ?case using 0 by simp
next
  case (Suc n)
  let ?lt = "\<lambda>a b. key a < key b"
  have "m \<noteq> Map.empty" using Suc(2) tracks_finite [OF Suc(3)] by auto
  then obtain k v h' where t: "take_top ?lt h = Inr ((k, v), h')" "m k = Some v" "tracks ?lt h' (m(k := None))"
      "\<forall>k' v'. m k' = Some v' \<longrightarrow> \<not> key v < key v'"
    using by_key.take_top_tracks [OF Suc(3)] by blast
  have "card (dom m - {k}) = card (dom m) - 1" using t(2) by (intro card_Diff_singleton) auto
  then have n: "heap_size h' = n" using tracks_finite [OF t(3)] tracks_finite [OF Suc(3)] Suc(2) by (simp add: dom_fun_upd)
  then obtain es h'' where r: "take_tops ?lt n h' = Inr (es, h'')" "slots h'' = []" "sorted (rev (map (key \<circ> snd) es))"
      "distinct (map fst es)" "map_of es = m(k := None)"
    using Suc(1) [OF n [symmetric] t(3)] by auto
  have "fst ` set es = dom m - {k}" using r(5) dom_map_of_conv_image_fst [of es] by auto
  moreover have "key (snd e) \<le> key v" if "e \<in> set es" for e
  proof -
    have "map_of es (fst e) = Some (snd e)" using that r(4) by simp
    then have "m (fst e) = Some (snd e)" using r(5) by (simp split: if_splits)
    then show ?thesis using t(4) by force
  qed
  ultimately show ?case using t(1,2) r Suc(2) [symmetric] by (auto simp: sorted_append)
qed

text \<open>Inserting a list of new elements.\<close>

lemma insert_all_tracks:
  fixes key :: "'a \<Rightarrow> 'b :: linorder"
  assumes "tracks (\<lambda>a b. key a < key b) h m" "distinct (map fst es)" "fst ` set es \<inter> dom m = {}"
    and "heap_size h + length es \<le> kInvalidIndex"
  shows "\<exists>h'. insert_all (\<lambda>a b. key a < key b) es h = Inr h' \<and> tracks (\<lambda>a b. key a < key b) h' (m ++ map_of (rev es)) \<and>
    heap_size h' = heap_size h + length es"
  using assms
proof (induction es arbitrary: h m)
  case (Cons e es)
  let ?lt = "\<lambda>a b. key a < key b"
  obtain k v where e: "e = (k, v)" by (cases e)
  have k: "k \<notin> dom m" "heap_size h < kInvalidIndex" using Cons.prems(3,4) e by auto
  obtain i h1 where h1: "InsertImpl ?lt (k, v) h = Inr (i, h1)" "tracks ?lt h1 (m(k \<mapsto> v))"
    using by_key.insert_tracks [OF Cons.prems(1) k] by blast
  have "heap_size h1 = Suc (heap_size h)"
    using tracks_finite [OF h1(2)] tracks_finite [OF Cons.prems(1)] k(1) by simp
  moreover have "fst ` set es \<inter> dom (m(k \<mapsto> v)) = {}" using Cons.prems(2,3) e by auto
  moreover have "heap_size h1 + length es \<le> kInvalidIndex" "distinct (map fst es)"
    using calculation(1) Cons.prems(2,4) by simp_all
  ultimately obtain h' where "insert_all ?lt es h1 = Inr h'" "tracks ?lt h' (m(k \<mapsto> v) ++ map_of (rev es))"
      "heap_size h' = heap_size h1 + length es"
    using Cons.IH [OF h1(2)] by blast
  moreover have "m(k \<mapsto> v) ++ map_of (rev es) = m ++ map_of (rev (e # es))"
    using e by (auto simp: map_add_def fun_eq_iff split: option.split)
  moreover have "insert_all ?lt (e # es) h = insert_all ?lt es h1" using h1(1) e by simp
  ultimately show ?case using \<open>heap_size h1 = Suc (heap_size h)\<close> by (simp del: map_of.simps rev.simps insert_all.simps)
qed simp

section \<open>What the heap promises\<close>

text \<open>
  C1: In every heap a client can reach by insertions, erasures, takes, modifications and replacements, the
  size is the number of elements put in and not taken out, the handle of each of them leads to it, the
  handle of every other element is invalid, and the top is one of the elements with the greatest key.
\<close>

theorem heap_ledger:
  assumes "client (\<lambda>a b. key a < (key b :: 'b :: linorder)) h m"
  shows "heap_size h = card (dom m) \<and>
    (\<forall>k. case m k of Some v \<Rightarrow> heap_at (handles h k) h = Inr (k, v) | None \<Rightarrow> \<not> IsValid (handles h k)) \<and>
    (m = Map.empty \<or> (\<exists>k v. heap_top h = Inr (k, v) \<and> m k = Some v \<and> (\<forall>w \<in> ran m. key w \<le> key v)))"
proof -
  note t = by_key.client_tracks [OF assms]
  have "\<exists>k v. heap_top h = Inr (k, v) \<and> m k = Some v \<and> (\<forall>w \<in> ran m. key w \<le> key v)" if "m \<noteq> Map.empty"
    using by_key.top_tracks [OF t that] by (force simp: ran_def not_less)
  then show ?thesis using tracks_finite [OF t] tracks_handles [OF t] by (auto split: option.split)
qed

lemma client_example:
  "client (\<lambda>a b. a < (b :: nat)) \<lparr>slots = [Some (7, 5)], handles = (\<lambda>_. kInvalidIndex)(7 := 0)\<rparr> [7 \<mapsto> 5]"
proof -
  have "InsertImpl (\<lambda>a b. a < (b :: nat)) (7, 5) IntrusiveHeap_default =
      Inr (0, \<lparr>slots = [Some (7, 5)], handles = (\<lambda>_. kInvalidIndex)(7 := 0)\<rparr>)"
    by (simp add: InsertImpl_def MoveHoleUpAndFill_def hole_up.simps FillHole_def put_slot_def SetHeapHandle_ok
        IntrusiveHeap_default_def kInvalidIndex_def)
  then show ?thesis
    by (intro insert_step [OF start]) (simp_all add: IntrusiveHeap_default_def kInvalidIndex_def)
qed

theorem heap_ledger_witness:
  "heap_size \<lparr>slots = [Some (7, 5 :: nat)], handles = (\<lambda>_. kInvalidIndex)(7 := 0)\<rparr> = card (dom [7 :: nat \<mapsto> 5 :: nat])"
  using heap_ledger [of "\<lambda>x. x", OF client_example] by blast

text \<open>
  C6: On a heap a client can reach, inserting a new element while there is room for it, erasing, taking, modifying or
  replacing an element through its handle, clearing, and on a heap that is not empty popping, taking or
  replacing the top, all succeed with no check failing, and the heap they leave can be used further.  What is taken is the
  element of the handle, and at the top one with the greatest key.  On an empty heap popping, taking or replacing the top
  fails a check.
\<close>

theorem heap_progress:
  fixes key :: "'a \<Rightarrow> 'b :: linorder"
  defines "lt \<equiv> \<lambda>a b. key a < key b"
  assumes "client lt h m"
  shows "(k \<notin> dom m \<and> heap_size h < kInvalidIndex \<longrightarrow>
      (\<exists>i h'. InsertImpl lt (k, v) h = Inr (i, h') \<and> client lt h' (m(k \<mapsto> v)))) \<and>
    (k \<in> dom m \<longrightarrow> (\<exists>h'. erase_at_index lt (handles h k) h = Inr h' \<and> client lt h' (m(k := None)))) \<and>
    (k \<in> dom m \<longrightarrow> (\<exists>w h'. take_at lt (handles h k) h = Inr ((k, w), h') \<and> m k = Some w \<and> client lt h' (m(k := None)))) \<and>
    (k \<in> dom m \<longrightarrow> (\<exists>i h'. Modify lt (handles h k) f h = Inr (i, h') \<and> client lt h' (m(k \<mapsto> f (the (m k)))))) \<and>
    (k \<in> dom m \<and> k' \<notin> dom m \<longrightarrow>
      (\<exists>i h'. ReplaceImpl lt (handles h k) (k', v) h = Inr (i, h') \<and> client lt h' ((m(k := None))(k' \<mapsto> v)))) \<and>
    (\<exists>h'. heap_clear h = Inr h' \<and> client lt h' Map.empty) \<and>
    (if m = Map.empty
     then heap_pop lt h = Inl Dcheck_failed \<and> take_top lt h = Inl Dcheck_failed \<and> ReplaceTopImpl lt (k', v) h = Inl Dcheck_failed
     else \<exists>t w. m t = Some w \<and> (\<forall>u \<in> ran m. key u \<le> key w) \<and>
       (\<exists>h'. heap_pop lt h = Inr h' \<and> client lt h' (m(t := None))) \<and>
       (\<exists>h'. take_top lt h = Inr ((t, w), h') \<and> client lt h' (m(t := None))) \<and>
       (k' \<notin> dom m \<longrightarrow> (\<exists>i h'. ReplaceTopImpl lt (k', v) h = Inr (i, h') \<and> client lt h' ((m(t := None))(k' \<mapsto> v)))))"
  (is "?ins \<and> ?era \<and> ?tak \<and> ?mod \<and> ?rep \<and> ?clr \<and> ?top")
proof (intro conjI)
  note t = by_key.client_tracks [OF assms(2) [unfolded lt_def], folded lt_def]
  show ?ins using by_key.insert_tracks [of key, folded lt_def, OF t] insert_step [OF assms(2)] by meson
  show ?era using by_key.take_tracks(2) [of key, folded lt_def, OF t] erase_step [OF assms(2)] by meson
  show ?tak using by_key.take_tracks(1) [of key, folded lt_def, OF t] take_step [OF assms(2)] by blast
  show ?mod using by_key.modify_tracks [of key, folded lt_def, OF t] modify_step [OF assms(2)] by fastforce
  show ?rep using by_key.replace_tracks [of key, folded lt_def, OF t] replace_step [OF assms(2)] by meson
  show ?clr using by_key.clear_tracks [of key, folded lt_def, OF t] clear_step [OF assms(2)] by blast
  show ?top
  proof (cases "m = Map.empty")
    case True
    then have "heap_size h = 0" using tracks_finite [OF t] by simp
    then show ?thesis using True
      by (simp add: heap_pop_def erase_at_index_def take_top_def take_at_def ReplaceTopImpl_def MakeHole_def)
  next
    case False
    obtain k0 w where k0: "heap_top h = Inr (k0, w)" "m k0 = Some w" "handles h k0 = 0" "\<forall>u \<in> ran m. key u \<le> key w"
      using by_key.top_tracks [of key, folded lt_def, OF t False] by (auto simp: lt_def ran_def not_less)
    then have d: "k0 \<in> dom m" by auto
    have "\<exists>h'. heap_pop lt h = Inr h' \<and> client lt h' (m(k0 := None))"
      using by_key.take_tracks(2) [of key, folded lt_def, OF t d] erase_step [OF assms(2) d] k0(3)
      unfolding heap_pop_def by auto
    moreover have "\<exists>h'. take_top lt h = Inr ((k0, w), h') \<and> client lt h' (m(k0 := None))"
      using by_key.take_tracks(1) [of key, folded lt_def, OF t d] take_step [OF assms(2) d] k0(2,3)
      unfolding take_top_def by force
    moreover have "\<exists>i h'. ReplaceTopImpl lt (k', v) h = Inr (i, h') \<and> client lt h' ((m(k0 := None))(k' \<mapsto> v))" if "k' \<notin> dom m"
      using by_key.replace_top_tracks [of key, folded lt_def, OF t False that, of v]
        replace_top_step [OF assms(2) k0(1) that False, of v] by auto
    ultimately show ?thesis using False k0(2,4) by auto
  qed
qed

theorem heap_progress_witness:
  "\<exists>h'. erase_at_index (\<lambda>a b. a < (b :: nat)) 0 \<lparr>slots = [Some (7, 5)], handles = (\<lambda>_. kInvalidIndex)(7 := 0)\<rparr> = Inr h'"
  using heap_progress [of "\<lambda>x. x", OF client_example, of 7 0 "\<lambda>x. x" 0] by auto

text \<open>
  C7: Elements put into an empty heap are all delivered by taking the top as many times as elements were
  inserted: each once, in descending order of their keys, and the heap is then empty.
\<close>

theorem heap_delivers_all:
  fixes key :: "'a \<Rightarrow> 'b :: linorder"
  assumes "distinct (map fst es)" "length es < kInvalidIndex"
  shows "\<exists>h out h'. insert_all (\<lambda>a b. key a < key b) es IntrusiveHeap_default = Inr h \<and>
    take_tops (\<lambda>a b. key a < key b) (length es) h = Inr (out, h') \<and>
    mset out = mset es \<and> sorted (rev (map (key \<circ> snd) out)) \<and> slots h' = []"
proof -
  let ?lt = "\<lambda>a b. key a < key b"
  obtain h where h: "insert_all ?lt es IntrusiveHeap_default = Inr h" "tracks ?lt h (map_of (rev es))"
      "heap_size h = length es"
    using insert_all_tracks [of key IntrusiveHeap_default Map.empty es] assms tracks_default
    by (auto simp: IntrusiveHeap_default_def)
  obtain out h' where o: "take_tops ?lt (length es) h = Inr (out, h')" "slots h' = []"
      "sorted (rev (map (key \<circ> snd) out))" "distinct (map fst out)" "map_of out = map_of (rev es)"
    using take_tops_ok [OF h(2)] h(3) by auto
  have "distinct (map fst (rev es))" using assms(1) by (simp flip: rev_map)
  then have "(k, v) \<in> set out \<longleftrightarrow> (k, v) \<in> set es" for k v
    using map_of_eq_Some_iff [OF o(4)] map_of_eq_Some_iff [of "rev es"] o(5) by (metis set_rev)
  then have "set out = set es" by auto
  moreover have "distinct out" "distinct es" using o(4) assms(1) by (simp_all add: distinct_map)
  ultimately have "mset out = mset es" by (simp add: set_eq_iff_mset_eq_distinct)
  then show ?thesis using h(1) o by blast
qed

theorem heap_delivers_all_witness:
  "\<exists>h out h'. insert_all (\<lambda>a b. a < (b :: nat)) [(1, 4), (2, 9), (3, 6)] IntrusiveHeap_default = Inr h \<and>
    take_tops (\<lambda>a b. a < b) (length [(1 :: nat, 4 :: nat), (2, 9), (3, 6)]) h = Inr (out, h') \<and> mset out = {#(1, 4), (2, 9), (3, 6)#}"
  using heap_delivers_all [of "[(1, 4), (2, 9), (3, 6)]" "\<lambda>x. x :: nat"]
  by (simp add: kInvalidIndex_def del: insert_all.simps take_tops.simps) blast

text \<open>
  C36: The handle of an element that has left the heap leads nowhere: looking it up or modifying through
  it stops the program, and erasing, taking or updating through it fails the check on the index.
\<close>

theorem heap_stale_handle:
  assumes "client (\<lambda>a b. key a < (key b :: 'b :: linorder)) h m" "m k = None"
  shows "heap_at (handles h k) h = Inl Check_failed \<and> Modify lt (handles h k) f h = Inl Check_failed \<and>
    erase_at_index lt (handles h k) h = Inl Dcheck_failed \<and> take_at lt (handles h k) h = Inl Dcheck_failed \<and>
    Update lt (handles h k) h = Inl Dcheck_failed"
proof -
  obtain A where A: "filled h A" "heap_size h = length A"
    using by_key.client_tracks [OF assms(1)] by (rule tracksE)
  have "handles h k = kInvalidIndex"
    using tracks_handles(2) [OF by_key.client_tracks [OF assms(1)] assms(2)] by (simp add: IsValid_def)
  moreover have "heap_size h \<le> kInvalidIndex" using A by (simp add: filled_def)
  ultimately have "\<not> handles h k < heap_size h" by simp
  then show ?thesis
    by (simp add: heap_at_def Modify_def erase_at_index_def take_at_def Update_def MakeHole_def)
qed

theorem heap_stale_handle_witness:
  "heap_at kInvalidIndex \<lparr>slots = [Some (7, 5 :: nat)], handles = (\<lambda>_. kInvalidIndex)(7 := 0)\<rparr> = Inl Check_failed"
  using heap_stale_handle [of "\<lambda>x. x", OF client_example, of 8 "\<lambda>a b. a < b" "\<lambda>x. x"] by simp

end
