(* ===== verification/Flat_Tree.thy ===== *)
theory Flat_Tree
  imports Prelude
begin

text \<open>
  \<^verbatim>\<open>base/containers/flat_tree.h\<close>, \<^verbatim>\<open>flat_map.h\<close>, \<^verbatim>\<open>fixed_flat_map.h\<close> and \<^verbatim>\<open>fixed_flat_set.h\<close>: sets and maps kept as a sorted
  vector.  The tree is its \<^verbatim>\<open>body_\<close>, a list; the comparison of keys \<open>lt\<close> and the extraction of a key from a
  value \<open>key\<close> are parameters, as in the source, and an iterator is an index into the body.  The capacity of
  the vector is left out.  Of the standard library: \<^verbatim>\<open>std::lower_bound\<close> and \<^verbatim>\<open>std::upper_bound\<close> are the binary search for the
  end of a prefix, \<^verbatim>\<open>std::stable_sort\<close>, \<^verbatim>\<open>std::unique\<close>, \<^verbatim>\<open>std::inplace_merge\<close> and \<^verbatim>\<open>std::remove_if\<close> are functions on lists.
\<close>

section \<open>Definitions\<close>

type_synonym 'v flat_tree = "'v list"

subsection \<open>The standard library\<close>

text \<open>The first index from \<open>first\<close> on, of \<open>len\<close>, whose element is not \<open>before\<close>, found by halving.\<close>

function partition_point :: "('v \<Rightarrow> bool) \<Rightarrow> 'v list \<Rightarrow> nat \<Rightarrow> nat \<Rightarrow> nat" where
  "partition_point before xs first len =
     (if len = 0 then first
      else let half = len div 2
           in if before (xs ! (first + half))
              then partition_point before xs (first + half + 1) (len - half - 1)
              else partition_point before xs first half)"
  by auto

termination partition_point
  by (relation "measure (\<lambda>(before, xs, first, len). len)") auto

declare partition_point.simps [simp del]

fun stable_insert :: "('v \<Rightarrow> 'v \<Rightarrow> bool) \<Rightarrow> 'v \<Rightarrow> 'v list \<Rightarrow> 'v list" where
  "stable_insert cmp x [] = [x]"
| "stable_insert cmp x (y # ys) = (if cmp y x then y # stable_insert cmp x ys else x # y # ys)"

definition stable_sort :: "('v \<Rightarrow> 'v \<Rightarrow> bool) \<Rightarrow> 'v list \<Rightarrow> 'v list" where
  "stable_sort cmp xs = foldr (stable_insert cmp) xs []"

fun std_unique :: "('v \<Rightarrow> 'v \<Rightarrow> bool) \<Rightarrow> 'v list \<Rightarrow> 'v list" where
  "std_unique same (x # y # xs) = (if same x y then std_unique same (x # xs) else x # std_unique same (y # xs))"
| "std_unique same xs = xs"

fun std_merge :: "('v \<Rightarrow> 'v \<Rightarrow> bool) \<Rightarrow> 'v list \<Rightarrow> 'v list \<Rightarrow> 'v list" where
  "std_merge cmp (x # xs) (y # ys) = (if cmp y x then y # std_merge cmp (x # xs) ys else x # std_merge cmp xs (y # ys))"
| "std_merge cmp xs [] = xs"
| "std_merge cmp [] ys = ys"

subsection \<open>Helpers of the header\<close>

text \<open>No element that is not less than its successor.\<close>

fun is_sorted_and_unique :: "('v \<Rightarrow> 'v \<Rightarrow> bool) \<Rightarrow> 'v list \<Rightarrow> bool" where
  "is_sorted_and_unique cmp (x # y # xs) \<longleftrightarrow> cmp x y \<and> is_sorted_and_unique cmp (y # xs)"
| "is_sorted_and_unique cmp xs \<longleftrightarrow> True"

definition Swap :: "nat \<Rightarrow> nat \<Rightarrow> 'v list \<Rightarrow> 'v list" where
  "Swap i j xs = xs[i := xs ! j, j := xs ! i]"

fun sink :: "('v \<Rightarrow> 'v \<Rightarrow> bool) \<Rightarrow> nat \<Rightarrow> 'v list \<Rightarrow> 'v list" where
  "sink cmp 0 xs = xs"
| "sink cmp (Suc prev) xs =
     (if cmp (xs ! Suc prev) (xs ! prev) then sink cmp prev (Swap (Suc prev) prev xs) else xs)"

definition InsertionSort :: "('v \<Rightarrow> 'v \<Rightarrow> bool) \<Rightarrow> 'v list \<Rightarrow> 'v list" where
  "InsertionSort cmp xs = (if xs = [] then xs else fold (sink cmp) [1..<length xs] xs)"

definition value_comp :: "('k \<Rightarrow> 'k \<Rightarrow> bool) \<Rightarrow> ('v \<Rightarrow> 'k) \<Rightarrow> 'v \<Rightarrow> 'v \<Rightarrow> bool" where
  "value_comp lt key l r = lt (key l) (key r)"

subsection \<open>Search\<close>

definition ft_lower_bound :: "('k \<Rightarrow> 'k \<Rightarrow> bool) \<Rightarrow> ('v \<Rightarrow> 'k) \<Rightarrow> 'k \<Rightarrow> 'v flat_tree \<Rightarrow> nat" where
  "ft_lower_bound lt key k body = partition_point (\<lambda>v. lt (key v) k) body 0 (length body)"

definition ft_upper_bound :: "('k \<Rightarrow> 'k \<Rightarrow> bool) \<Rightarrow> ('v \<Rightarrow> 'k) \<Rightarrow> 'k \<Rightarrow> 'v flat_tree \<Rightarrow> nat" where
  "ft_upper_bound lt key k body = partition_point (\<lambda>v. \<not> lt k (key v)) body 0 (length body)"

definition ft_equal_range :: "('k \<Rightarrow> 'k \<Rightarrow> bool) \<Rightarrow> ('v \<Rightarrow> 'k) \<Rightarrow> 'k \<Rightarrow> 'v flat_tree \<Rightarrow> nat \<times> nat" where
  "ft_equal_range lt key k body =
     (let lower = ft_lower_bound lt key k body
      in if lower = length body \<or> lt k (key (body ! lower)) then (lower, lower) else (lower, lower + 1))"

definition ft_count :: "('k \<Rightarrow> 'k \<Rightarrow> bool) \<Rightarrow> ('v \<Rightarrow> 'k) \<Rightarrow> 'k \<Rightarrow> 'v flat_tree \<Rightarrow> nat" where
  "ft_count lt key k body = (let (first, last_it) = ft_equal_range lt key k body in last_it - first)"

definition ft_find :: "('k \<Rightarrow> 'k \<Rightarrow> bool) \<Rightarrow> ('v \<Rightarrow> 'k) \<Rightarrow> 'k \<Rightarrow> 'v flat_tree \<Rightarrow> nat" where
  "ft_find lt key k body =
     (let (first, last_it) = ft_equal_range lt key k body in if first = last_it then length body else first)"

definition ft_contains :: "('k \<Rightarrow> 'k \<Rightarrow> bool) \<Rightarrow> ('v \<Rightarrow> 'k) \<Rightarrow> 'k \<Rightarrow> 'v flat_tree \<Rightarrow> bool" where
  "ft_contains lt key k body =
     (let lower = ft_lower_bound lt key k body in lower \<noteq> length body \<and> \<not> lt k (key (body ! lower)))"

subsection \<open>Erasure\<close>

definition ft_erase_at :: "nat \<Rightarrow> 'v flat_tree \<Rightarrow> (nat \<times> 'v flat_tree) outcome" where
  "ft_erase_at position body =
     rtc_check (position \<noteq> length body)
       (defined_if (position < length body) (Inr (position, take position body @ drop (position + 1) body)))"

definition ft_erase_range :: "nat \<Rightarrow> nat \<Rightarrow> 'v flat_tree \<Rightarrow> (nat \<times> 'v flat_tree) outcome" where
  "ft_erase_range first last_it body =
     defined_if (first \<le> last_it \<and> last_it \<le> length body) (Inr (first, take first body @ drop last_it body))"

definition ft_erase_key :: "('k \<Rightarrow> 'k \<Rightarrow> bool) \<Rightarrow> ('v \<Rightarrow> 'k) \<Rightarrow> 'k \<Rightarrow> 'v flat_tree \<Rightarrow> (nat \<times> 'v flat_tree) outcome" where
  "ft_erase_key lt key k body =
     (let (first, last_it) = ft_equal_range lt key k body
      in map_outcome (\<lambda>(it, body'). (last_it - first, body')) (ft_erase_range first last_it body))"

text \<open>\<^verbatim>\<open>remove_if\<close> moves the elements that stay to the front; the erased tail is moved-from.\<close>

definition EraseIf :: "('v \<Rightarrow> bool) \<Rightarrow> 'v flat_tree \<Rightarrow> (nat \<times> 'v flat_tree) outcome" where
  "EraseIf pred body =
     (let kept = filter (\<lambda>v. \<not> pred v) body; it = length kept
      in map_outcome (\<lambda>(i, body'). (length body - it, body'))
           (ft_erase_range it (length body) (kept @ drop it body)))"

subsection \<open>Construction\<close>

definition sort_and_unique :: "('k \<Rightarrow> 'k \<Rightarrow> bool) \<Rightarrow> ('v \<Rightarrow> 'k) \<Rightarrow> nat \<Rightarrow> 'v flat_tree \<Rightarrow> 'v flat_tree outcome" where
  "sort_and_unique lt key first body =
     (let sorted_part = stable_sort (value_comp lt key) (drop first body);
          unique_part = std_unique (\<lambda>l r. \<not> value_comp lt key l r) sorted_part;
          rest = drop (length unique_part) sorted_part
      in map_outcome snd
           (ft_erase_range (first + length unique_part) (length body) (take first body @ unique_part @ rest)))"

definition flat_tree_range :: "('k \<Rightarrow> 'k \<Rightarrow> bool) \<Rightarrow> ('v \<Rightarrow> 'k) \<Rightarrow> 'v list \<Rightarrow> 'v flat_tree outcome" where
  "flat_tree_range lt key items = sort_and_unique lt key 0 items"

definition flat_tree_sorted :: "('k \<Rightarrow> 'k \<Rightarrow> bool) \<Rightarrow> ('v \<Rightarrow> 'k) \<Rightarrow> 'v list \<Rightarrow> 'v flat_tree outcome" where
  "flat_tree_sorted lt key items = dcheck (is_sorted_and_unique (value_comp lt key) items) (Inr items)"

definition ft_assign :: "('k \<Rightarrow> 'k \<Rightarrow> bool) \<Rightarrow> ('v \<Rightarrow> 'k) \<Rightarrow> 'v list \<Rightarrow> 'v flat_tree \<Rightarrow> 'v flat_tree outcome" where
  "ft_assign lt key ilist body = sort_and_unique lt key 0 ilist"

definition ft_clear :: "'v flat_tree \<Rightarrow> 'v flat_tree" where
  "ft_clear body = []"

definition ft_size :: "'v flat_tree \<Rightarrow> nat" where
  "ft_size body = length body"

definition ft_empty :: "'v flat_tree \<Rightarrow> bool" where
  "ft_empty body \<longleftrightarrow> body = []"

definition ft_extract :: "'v flat_tree \<Rightarrow> 'v list \<times> 'v flat_tree" where
  "ft_extract body = (body, [])"

definition ft_replace :: "('k \<Rightarrow> 'k \<Rightarrow> bool) \<Rightarrow> ('v \<Rightarrow> 'k) \<Rightarrow> 'v list \<Rightarrow> 'v flat_tree \<Rightarrow> 'v flat_tree outcome" where
  "ft_replace lt key new_body body = dcheck (is_sorted_and_unique (value_comp lt key) new_body) (Inr new_body)"

definition ft_swap :: "'v flat_tree \<times> 'v flat_tree \<Rightarrow> 'v flat_tree \<times> 'v flat_tree" where
  "ft_swap p = (snd p, fst p)"

subsection \<open>Insertion\<close>

definition unsafe_emplace :: "nat \<Rightarrow> 'v \<Rightarrow> 'v flat_tree \<Rightarrow> (nat \<times> 'v flat_tree) outcome" where
  "unsafe_emplace position v body =
     defined_if (position \<le> length body) (Inr (position, take position body @ v # drop position body))"

definition emplace_key_args ::
  "('k \<Rightarrow> 'k \<Rightarrow> bool) \<Rightarrow> ('v \<Rightarrow> 'k) \<Rightarrow> 'k \<Rightarrow> 'v \<Rightarrow> 'v flat_tree \<Rightarrow> ((nat \<times> bool) \<times> 'v flat_tree) outcome" where
  "emplace_key_args lt key k v body =
     (let lower = ft_lower_bound lt key k body
      in if lower = length body \<or> lt k (key (body ! lower))
         then map_outcome (\<lambda>(it, body'). ((it, True), body')) (unsafe_emplace lower v body)
         else Inr ((lower, False), body))"

definition emplace_hint_key_args ::
  "('k \<Rightarrow> 'k \<Rightarrow> bool) \<Rightarrow> ('v \<Rightarrow> 'k) \<Rightarrow> nat \<Rightarrow> 'k \<Rightarrow> 'v \<Rightarrow> 'v flat_tree \<Rightarrow> ((nat \<times> bool) \<times> 'v flat_tree) outcome" where
  "emplace_hint_key_args lt key hint k v body =
     defined_if (hint \<le> length body)
       (if hint = 0 \<or> lt (key (body ! (hint - 1))) k
        then if hint = length body \<or> lt k (key (body ! hint))
             then map_outcome (\<lambda>(it, body'). ((it, True), body')) (unsafe_emplace hint v body)
             else if \<not> lt (key (body ! hint)) k then Inr ((hint, False), body)
             else emplace_key_args lt key k v body
        else emplace_key_args lt key k v body)"

definition ft_insert ::
  "('k \<Rightarrow> 'k \<Rightarrow> bool) \<Rightarrow> ('v \<Rightarrow> 'k) \<Rightarrow> 'v \<Rightarrow> 'v flat_tree \<Rightarrow> ((nat \<times> bool) \<times> 'v flat_tree) outcome" where
  "ft_insert lt key v body = emplace_key_args lt key (key v) v body"

definition ft_insert_hint ::
  "('k \<Rightarrow> 'k \<Rightarrow> bool) \<Rightarrow> ('v \<Rightarrow> 'k) \<Rightarrow> nat \<Rightarrow> 'v \<Rightarrow> 'v flat_tree \<Rightarrow> (nat \<times> 'v flat_tree) outcome" where
  "ft_insert_hint lt key hint v body =
     map_outcome (\<lambda>((it, inserted), body'). (it, body')) (emplace_hint_key_args lt key hint (key v) v body)"

text \<open>The search of \<^verbatim>\<open>append_unique\<close> is over the first \<open>middle\<close> elements.\<close>

definition append_unique ::
  "('k \<Rightarrow> 'k \<Rightarrow> bool) \<Rightarrow> ('v \<Rightarrow> 'k) \<Rightarrow> nat \<Rightarrow> 'v \<Rightarrow> 'v flat_tree \<Rightarrow> (nat \<times> bool) \<times> 'v flat_tree" where
  "append_unique lt key middle v body =
     (let position = partition_point (\<lambda>x. value_comp lt key x v) body 0 middle
      in if position = middle \<or> value_comp lt key v (body ! position)
         then ((position, True), body @ [v])
         else ((position, False), body))"

fun append_all_unique ::
  "('k \<Rightarrow> 'k \<Rightarrow> bool) \<Rightarrow> ('v \<Rightarrow> 'k) \<Rightarrow> nat \<Rightarrow> 'v list \<Rightarrow> nat \<Rightarrow> 'v flat_tree \<Rightarrow> nat \<times> 'v flat_tree" where
  "append_all_unique lt key middle [] pos_first_new body = (pos_first_new, body)"
| "append_all_unique lt key middle (v # vs) pos_first_new body =
     (let ((it, inserted), body') = append_unique lt key middle v body
      in append_all_unique lt key middle vs (if inserted then min pos_first_new it else pos_first_new) body')"

definition inplace_merge :: "('v \<Rightarrow> 'v \<Rightarrow> bool) \<Rightarrow> nat \<Rightarrow> nat \<Rightarrow> 'v list \<Rightarrow> 'v list" where
  "inplace_merge cmp first middle xs =
     take first xs @ std_merge cmp (drop first (take middle xs)) (drop middle xs)"

text \<open>\<open>multipass\<close>: whether the input iterators allow a second pass.\<close>

definition ft_insert_range ::
  "('k \<Rightarrow> 'k \<Rightarrow> bool) \<Rightarrow> ('v \<Rightarrow> 'k) \<Rightarrow> bool \<Rightarrow> 'v list \<Rightarrow> 'v flat_tree \<Rightarrow> 'v flat_tree outcome" where
  "ft_insert_range lt key multipass vs body =
     (if vs = [] then Inr body
      else if multipass \<and> length vs = 1
      then map_outcome snd (ft_insert_hint lt key (length body) (hd vs) body)
      else
        let middle = length body;
            (pos_first_new, body1) = append_all_unique lt key middle vs (length body) body
        in and_then (sort_and_unique lt key middle body1) (\<lambda>body2.
             Inr (inplace_merge (value_comp lt key) pos_first_new middle body2)))"

subsection \<open>Maps\<close>

definition fm_at :: "('k \<Rightarrow> 'k \<Rightarrow> bool) \<Rightarrow> 'k \<Rightarrow> ('k \<times> 'm) flat_tree \<Rightarrow> 'm outcome" where
  "fm_at lt k body =
     (let found = ft_find lt fst k body
      in rtc_check (found \<noteq> length body) (Inr (snd (body ! found))))"

text \<open>\<^verbatim>\<open>operator[]\<close>; \<open>z\<close> is the value-initialised \<^verbatim>\<open>mapped_type()\<close>.  The result is where the mapped value is.\<close>

definition fm_subscript ::
  "('k \<Rightarrow> 'k \<Rightarrow> bool) \<Rightarrow> 'm \<Rightarrow> 'k \<Rightarrow> ('k \<times> 'm) flat_tree \<Rightarrow> (nat \<times> ('k \<times> 'm) flat_tree) outcome" where
  "fm_subscript lt z k body =
     (let found = ft_lower_bound lt fst k body
      in if found = length body \<or> lt k (fst (body ! found)) then unsafe_emplace found (k, z) body
         else Inr (found, body))"

definition set_mapped :: "nat \<Rightarrow> 'm \<Rightarrow> ('k \<times> 'm) list \<Rightarrow> ('k \<times> 'm) list" where
  "set_mapped it obj body = body[it := (fst (body ! it), obj)]"

definition fm_insert_or_assign ::
  "('k \<Rightarrow> 'k \<Rightarrow> bool) \<Rightarrow> 'k \<Rightarrow> 'm \<Rightarrow> ('k \<times> 'm) flat_tree \<Rightarrow> ((nat \<times> bool) \<times> ('k \<times> 'm) flat_tree) outcome" where
  "fm_insert_or_assign lt k obj body =
     and_then (emplace_key_args lt fst k (k, obj) body) (\<lambda>((it, inserted), body').
       Inr ((it, inserted), if \<not> inserted then set_mapped it obj body' else body'))"

definition fm_insert_or_assign_hint ::
  "('k \<Rightarrow> 'k \<Rightarrow> bool) \<Rightarrow> nat \<Rightarrow> 'k \<Rightarrow> 'm \<Rightarrow> ('k \<times> 'm) flat_tree \<Rightarrow> (nat \<times> ('k \<times> 'm) flat_tree) outcome" where
  "fm_insert_or_assign_hint lt hint k obj body =
     and_then (emplace_hint_key_args lt fst hint k (k, obj) body) (\<lambda>((it, inserted), body').
       Inr (it, if \<not> inserted then set_mapped it obj body' else body'))"

definition try_emplace ::
  "('k \<Rightarrow> 'k \<Rightarrow> bool) \<Rightarrow> 'k \<Rightarrow> 'm \<Rightarrow> ('k \<times> 'm) flat_tree \<Rightarrow> ((nat \<times> bool) \<times> ('k \<times> 'm) flat_tree) outcome" where
  "try_emplace lt k obj body = emplace_key_args lt fst k (k, obj) body"

definition try_emplace_hint ::
  "('k \<Rightarrow> 'k \<Rightarrow> bool) \<Rightarrow> nat \<Rightarrow> 'k \<Rightarrow> 'm \<Rightarrow> ('k \<times> 'm) flat_tree \<Rightarrow> (nat \<times> ('k \<times> 'm) flat_tree) outcome" where
  "try_emplace_hint lt hint k obj body =
     map_outcome (\<lambda>((it, inserted), body'). (it, body')) (emplace_hint_key_args lt fst hint k (k, obj) body)"

subsection \<open>Fixed tables\<close>

definition MakeFixedFlatMap :: "('k \<Rightarrow> 'k \<Rightarrow> bool) \<Rightarrow> ('k \<times> 'm) list \<Rightarrow> ('k \<times> 'm) flat_tree outcome" where
  "MakeFixedFlatMap lt data =
     (let data' = InsertionSort (value_comp lt fst) data
      in rtc_check (is_sorted_and_unique (value_comp lt fst) data') (flat_tree_sorted lt fst data'))"

definition MakeFixedFlatSet :: "('k \<Rightarrow> 'k \<Rightarrow> bool) \<Rightarrow> 'k list \<Rightarrow> 'k flat_tree outcome" where
  "MakeFixedFlatSet lt data =
     (let data' = InsertionSort lt data
      in rtc_check (is_sorted_and_unique lt data') (flat_tree_sorted lt id data'))"

end
