(* ===== verification/Flat_Order.thy ===== *)
theory Flat_Order
  imports Flat_Tree Weak_Order "HOL-Library.Multiset"
begin

text \<open>
  The sorted vector under any strict weak order on keys: binary search finds the place of a key,
  every operation keeps the vector strictly ordered, and what it holds afterwards is given as a set
  or, where the order of equivalent elements matters, by the first element that is equivalent to a key.
\<close>

section \<open>Binary search\<close>

lemma partition_point_step:
  "partition_point before xs first 0 = first"
  "len \<noteq> 0 \<Longrightarrow> before (xs ! (first + len div 2)) \<Longrightarrow>
     partition_point before xs first len = partition_point before xs (first + len div 2 + 1) (len - len div 2 - 1)"
  "len \<noteq> 0 \<Longrightarrow> \<not> before (xs ! (first + len div 2)) \<Longrightarrow>
     partition_point before xs first len = partition_point before xs first (len div 2)"
  by (simp_all add: partition_point.simps [of before xs first len] partition_point.simps [of before xs first 0] Let_def)

text \<open>\<open>splits before xs first last p\<close>: in the range, exactly the elements up to \<open>p\<close> are \<open>before\<close>.\<close>

definition splits :: "('v \<Rightarrow> bool) \<Rightarrow> 'v list \<Rightarrow> nat \<Rightarrow> nat \<Rightarrow> nat \<Rightarrow> bool" where
  "splits before xs first last_it p \<longleftrightarrow> first \<le> p \<and> p \<le> last_it \<and>
     (\<forall>i. first \<le> i \<longrightarrow> i < last_it \<longrightarrow> before (xs ! i) \<longleftrightarrow> i < p)"

lemma partition_point_ok:
  assumes "\<And>i j. first \<le> i \<Longrightarrow> i < j \<Longrightarrow> j < first + len \<Longrightarrow> before (xs ! j) \<Longrightarrow> before (xs ! i)"
  shows "splits before xs first (first + len) (partition_point before xs first len)"
  using assms
proof (induction before xs first len rule: partition_point.induct)
  case (1 before xs first len)
  define h where "h = len div 2"
  note ih = 1(1,2) [unfolded h_def [symmetric]]
  show ?case
  proof (cases "len = 0")
    case False
    then have h: "h < len" by (simp add: h_def)
    show ?thesis
    proof (cases "before (xs ! (first + h))")
      case True
      have e: "first + h + 1 + (len - h - 1) = first + len" using h by simp
      have "splits before xs (first + h + 1) (first + len) (partition_point before xs (first + h + 1) (len - h - 1))"
        using ih(1) [OF False refl True] 1(3) unfolding e by simp
      moreover have "before (xs ! i)" if "first \<le> i" "i < first + h + 1" for i
        using that True 1(3) [of i "first + h"] h by (cases "i = first + h") auto
      ultimately have "splits before xs first (first + len) (partition_point before xs (first + h + 1) (len - h - 1))"
        unfolding splits_def by (metis Suc_eq_plus1 add_leD1 less_le_trans not_less)
      then show ?thesis using partition_point_step(2) [of len before xs first] False True by (simp add: h_def)
    next
      case no: False
      have "\<not> before (xs ! i)" if "first + h \<le> i" "i < first + len" for i
        using that no 1(3) [of "first + h" i] by (cases "i = first + h") auto
      moreover have "splits before xs first (first + h) (partition_point before xs first h)"
        using ih(2) [OF False refl no] 1(3) h by simp
      ultimately have "splits before xs first (first + len) (partition_point before xs first h)"
        unfolding splits_def using h by (metis add_le_cancel_left less_imp_le_nat less_le_trans not_less order_trans)
      then show ?thesis using partition_point_step(3) [of len before xs first] False no by (simp add: h_def)
    qed
  qed (simp add: partition_point_step(1) splits_def)
qed

lemma partition_point_unique:
  assumes "\<And>i j. i < j \<Longrightarrow> j < n \<Longrightarrow> before (xs ! j) \<Longrightarrow> before (xs ! i)"
    and "p \<le> n" "p = 0 \<or> before (xs ! (p - 1))" "p = n \<or> \<not> before (xs ! p)"
  shows "partition_point before xs 0 n = p"
proof -
  let ?q = "partition_point before xs 0 n"
  have "splits before xs 0 n ?q" using partition_point_ok [of 0 n before xs] assms(1) by auto
  then have q: "?q \<le> n" "\<And>i. i < ?q \<Longrightarrow> before (xs ! i)" "\<And>i. ?q \<le> i \<Longrightarrow> i < n \<Longrightarrow> \<not> before (xs ! i)"
    by (auto simp: splits_def)
  have "\<not> p < ?q" using q(1,2) assms(4) by auto
  moreover have "\<not> ?q < p" using q(3) [of "p - 1"] assms(2,3) by (cases p) auto
  ultimately show ?thesis by simp
qed

section \<open>Strictly ordered bodies\<close>

definition flat_ok :: "('k \<Rightarrow> 'k \<Rightarrow> bool) \<Rightarrow> ('v \<Rightarrow> 'k) \<Rightarrow> 'v list \<Rightarrow> bool" where
  "flat_ok lt key b \<longleftrightarrow> sorted_wrt (\<lambda>x y. lt (key x) (key y)) b"

definition equiv_key :: "('k \<Rightarrow> 'k \<Rightarrow> bool) \<Rightarrow> 'k \<Rightarrow> 'k \<Rightarrow> bool" where
  "equiv_key lt a b \<longleftrightarrow> \<not> lt a b \<and> \<not> lt b a"

text \<open>The first element whose key is equivalent to \<open>k\<close>.\<close>

definition first_of :: "('k \<Rightarrow> 'k \<Rightarrow> bool) \<Rightarrow> ('v \<Rightarrow> 'k) \<Rightarrow> 'v list \<Rightarrow> 'k \<Rightarrow> 'v option" where
  "first_of lt key xs k = List.find (\<lambda>v. equiv_key lt (key v) k) xs"

lemma first_of_simps [simp]:
  "first_of lt key [] k = None"
  "first_of lt key (x # xs) k = (if equiv_key lt (key x) k then Some x else first_of lt key xs k)"
  by (simp_all add: first_of_def)

lemma first_of_None: "first_of lt key xs k = None \<longleftrightarrow> (\<forall>v \<in> set xs. \<not> equiv_key lt (key v) k)"
  by (auto simp: first_of_def find_None_iff)

lemma flat_ok_simps [simp]:
  "flat_ok lt key []"
  "flat_ok lt key (x # xs) \<longleftrightarrow> (\<forall>y \<in> set xs. lt (key x) (key y)) \<and> flat_ok lt key xs"
  "flat_ok lt key (xs @ ys) \<longleftrightarrow> flat_ok lt key xs \<and> flat_ok lt key ys \<and> (\<forall>x \<in> set xs. \<forall>y \<in> set ys. lt (key x) (key y))"
  by (auto simp: flat_ok_def sorted_wrt_append)

lemma flat_ok_nth: "flat_ok lt key b \<Longrightarrow> i < j \<Longrightarrow> j < length b \<Longrightarrow> lt (key (b ! i)) (key (b ! j))"
  by (simp add: flat_ok_def sorted_wrt_iff_nth_less)

lemma flat_ok_cut:
  assumes "flat_ok lt key b"
  shows "flat_ok lt key (take i b)" "flat_ok lt key (drop i b)" "i \<le> j \<Longrightarrow> flat_ok lt key (take i b @ drop j b)"
proof -
  have c: "flat_ok lt key (take i b @ drop i b)" using assms by simp
  then show "flat_ok lt key (take i b)" "flat_ok lt key (drop i b)" by (simp_all only: flat_ok_simps)
  assume "i \<le> j"
  then have "set (drop j b) \<subseteq> set (drop i b)" by (rule set_drop_subset_set_drop)
  then show "flat_ok lt key (take i b @ drop j b)"
    using c sorted_wrt_drop [OF assms [unfolded flat_ok_def], of j]
    unfolding flat_ok_simps(3) by (auto simp: flat_ok_def)
qed

context value_compare
begin

lemma is_sorted_and_unique_ok: "is_sorted_and_unique (value_comp lt key) b \<longleftrightarrow> flat_ok lt key b"
proof (induction b rule: induct_list012)
  case (3 x y xs)
  then show ?case using trans by (auto simp: value_comp_def)
qed simp_all

lemma equiv_key_less: "equiv_key lt a b \<Longrightarrow> lt a c \<longleftrightarrow> lt b c" "equiv_key lt a b \<Longrightarrow> lt c a \<longleftrightarrow> lt c b"
  unfolding equiv_key_def using ntrans by blast+

lemma equiv_key_sym: "equiv_key lt a b \<longleftrightarrow> equiv_key lt b a"
  by (auto simp: equiv_key_def)

lemma flat_ok_distinct: "flat_ok lt key b \<Longrightarrow> distinct b"
  using irrefl by (induction b) auto

lemma flat_ok_inj:
  "flat_ok lt key b \<Longrightarrow> x \<in> set b \<Longrightarrow> y \<in> set b \<Longrightarrow> equiv_key lt (key x) (key y) \<Longrightarrow> x = y"
  by (induction b) (auto simp: equiv_key_def)

lemma first_of_ordered:
  assumes "flat_ok lt key b"
  shows "first_of lt key b k = Some v \<longleftrightarrow> v \<in> set b \<and> equiv_key lt (key v) k"
  using assms
proof (induction b)
  case (Cons x b)
  have "v \<notin> set b" if "equiv_key lt (key x) k" "equiv_key lt (key v) k"
    using that Cons.prems equiv_key_less [of "key x" k "key v"] by (auto simp: equiv_key_def)
  then show ?case using Cons by auto
qed simp

lemma flat_ok_eq:
  "flat_ok lt key a \<Longrightarrow> flat_ok lt key b \<Longrightarrow> set a = set b \<Longrightarrow> a = b"
proof (induction a arbitrary: b)
  case (Cons x a)
  then obtain y b' where b: "b = y # b'" by (cases b) auto
  have "x = y"
  proof (rule ccontr)
    assume "x \<noteq> y"
    then have "lt (key x) (key y)" "lt (key y) (key x)" using Cons.prems b by auto
    then show False using asym by blast
  qed
  moreover have "x \<notin> set a" "y \<notin> set b'" using flat_ok_distinct Cons.prems b by fastforce+
  ultimately have "set a = set b'" using Cons.prems(3) b by auto
  then show ?case using Cons b \<open>x = y\<close> by auto
qed simp

section \<open>Searching\<close>

lemma lower_bound_unique:
  assumes "flat_ok lt key b" "p \<le> length b" "p = 0 \<or> lt (key (b ! (p - 1))) k" "p = length b \<or> \<not> lt (key (b ! p)) k"
  shows "ft_lower_bound lt key k b = p"
  unfolding ft_lower_bound_def
  using assms(2-) flat_ok_nth [OF assms(1)] trans by (intro partition_point_unique) blast+

lemma upper_bound_unique:
  assumes "flat_ok lt key b" "p \<le> length b" "p = 0 \<or> \<not> lt k (key (b ! (p - 1)))" "p = length b \<or> lt k (key (b ! p))"
  shows "ft_upper_bound lt key k b = p"
  unfolding ft_upper_bound_def
  using assms(2-) flat_ok_nth [OF assms(1)] trans by (intro partition_point_unique) blast+

lemma search_cases [consumes 1]:
  assumes "flat_ok lt key b"
  obtains (absent) xs ys where "b = xs @ ys" "ft_lower_bound lt key k b = length xs"
      "ft_upper_bound lt key k b = length xs" "\<forall>x \<in> set xs. lt (key x) k" "\<forall>y \<in> set ys. lt k (key y)"
    | (present) xs y ys where "b = xs @ y # ys" "ft_lower_bound lt key k b = length xs"
      "ft_upper_bound lt key k b = Suc (length xs)" "\<forall>x \<in> set xs. lt (key x) k" "equiv_key lt (key y) k"
      "\<forall>y \<in> set ys. lt k (key y)"
proof -
  define xs where "xs = takeWhile (\<lambda>v. lt (key v) k) b"
  define zs where "zs = dropWhile (\<lambda>v. lt (key v) k) b"
  have b: "b = xs @ zs" by (simp add: xs_def zs_def)
  have xs: "\<forall>x \<in> set xs. lt (key x) k" by (auto simp: xs_def dest: set_takeWhileD)
  have last_xs: "length xs = 0 \<or> lt (key (b ! (length xs - 1))) k"
    using xs b by (cases xs rule: rev_cases) (auto simp: nth_append)
  have hd_zs: "zs = [] \<or> \<not> lt (key (hd zs)) k" using hd_dropWhile [of "\<lambda>v. lt (key v) k" b] by (auto simp: zs_def)
  have low: "ft_lower_bound lt key k b = length xs"
    using last_xs hd_zs b by (intro lower_bound_unique [OF assms]) (auto simp: nth_append hd_conv_nth)
  have ok: "flat_ok lt key zs" using assms b by simp
  show ?thesis
  proof (cases "zs = [] \<or> lt k (key (hd zs))")
    case True
    then have "\<forall>y \<in> set zs. lt k (key y)" using ok trans by (cases zs) auto
    moreover have "length xs = 0 \<or> \<not> lt k (key (b ! (length xs - 1)))" using last_xs asym by blast
    moreover have "length xs = length b \<or> lt k (key (b ! length xs))"
      using True b by (cases zs) simp_all
    then have "ft_upper_bound lt key k b = length xs"
      using b calculation(2) by (intro upper_bound_unique [OF assms]) simp_all
    ultimately show ?thesis using absent [of xs zs] b low xs by simp
  next
    case False
    then obtain y ys where zs: "zs = y # ys" by (cases zs) auto
    have eq: "equiv_key lt (key y) k" using False hd_zs zs by (simp add: equiv_key_def)
    then have "\<forall>z \<in> set ys. lt k (key z)" using ok zs equiv_key_less(1) by auto
    moreover from this have "Suc (length xs) = length b \<or> lt k (key (b ! Suc (length xs)))"
      using b zs by (cases ys) (simp_all add: nth_append)
    then have "ft_upper_bound lt key k b = Suc (length xs)"
      using eq b zs by (intro upper_bound_unique [OF assms]) (simp_all add: equiv_key_def)
    ultimately show ?thesis using present [of xs y ys] b low xs eq zs by simp
  qed
qed

text \<open>The test that follows every search: whether the key is absent.\<close>

lemma absent_test:
  assumes "b = xs @ ys" "\<forall>y \<in> set ys. lt k (key y)"
  shows "length xs = length b \<or> lt k (key (b ! length xs))"
  using assms by (cases ys) auto

lemma present_test:
  assumes "b = xs @ y # ys" "equiv_key lt (key y) k"
  shows "\<not> (length xs = length b \<or> lt k (key (b ! length xs)))" "b ! length xs = y" "length xs < length b"
  using assms by (auto simp: equiv_key_def)

section \<open>Insertion and erasure of one element\<close>

lemma emplace_key_args_ok:
  assumes "flat_ok lt key b" "equiv_key lt (key v) k"
  shows "\<exists>i b'. emplace_key_args lt key k v b = Inr ((i, first_of lt key b k = None), b') \<and> flat_ok lt key b' \<and>
    i < length b' \<and> equiv_key lt (key (b' ! i)) k \<and>
    set b' = (if first_of lt key b k = None then insert v (set b) else set b)"
  using assms(1)
proof (cases rule: search_cases [where k = k])
  case (absent xs ys)
  have "first_of lt key b k = None" using absent by (auto simp: first_of_None equiv_key_def)
  moreover have "flat_ok lt key (xs @ v # ys)"
    using absent assms equiv_key_less [OF assms(2)] trans by auto
  ultimately show ?thesis
    using absent absent_test [where key = key, OF absent(1,5)] assms(2) by (auto simp: emplace_key_args_def unsafe_emplace_def Let_def)
next
  case (present xs y ys)
  have "first_of lt key b k \<noteq> None" using present by (auto simp: first_of_None)
  then show ?thesis
    using present present_test [where key = key, OF present(1,5)] assms(1) by (auto simp: emplace_key_args_def Let_def)
qed

text \<open>A hint only saves the search: it never changes the result.\<close>

lemma emplace_hint_irrelevant:
  assumes "flat_ok lt key b" "hint \<le> length b"
  shows "emplace_hint_key_args lt key hint k v b = emplace_key_args lt key k v b"
proof -
  have "ft_lower_bound lt key k b = hint"
    if "hint = 0 \<or> lt (key (b ! (hint - 1))) k" "hint = length b \<or> \<not> lt (key (b ! hint)) k"
    using that assms by (intro lower_bound_unique) auto
  then show ?thesis
    using assms(2) asym [of k "key (b ! hint)"]
    by (cases "hint = 0 \<or> lt (key (b ! (hint - 1))) k"; cases "hint = length b"; cases "lt k (key (b ! hint))")
      (simp_all add: emplace_hint_key_args_def emplace_key_args_def)
qed

lemma erase_at_ok:
  assumes "flat_ok lt key b" "i < length b"
  shows "ft_erase_at i b = Inr (i, take i b @ drop (Suc i) b)" "flat_ok lt key (take i b @ drop (Suc i) b)"
    "set (take i b @ drop (Suc i) b) = set b - {b ! i}"
proof -
  have b: "b = take i b @ b ! i # drop (Suc i) b" using assms(2) by (rule id_take_nth_drop)
  have "distinct (take i b @ b ! i # drop (Suc i) b)" using flat_ok_distinct [OF assms(1)] b by metis
  moreover have "set b = set (take i b @ b ! i # drop (Suc i) b)" using b by metis
  ultimately show "set (take i b @ drop (Suc i) b) = set b - {b ! i}" by auto
  show "ft_erase_at i b = Inr (i, take i b @ drop (Suc i) b)" using assms(2) by (simp add: ft_erase_at_def)
  show "flat_ok lt key (take i b @ drop (Suc i) b)" using flat_ok_cut(3) [OF assms(1), of i "Suc i"] by simp
qed

lemma erase_key_ok:
  assumes "flat_ok lt key b"
  shows "\<exists>b'. ft_erase_key lt key k b = Inr (if first_of lt key b k = None then 0 else 1, b') \<and> flat_ok lt key b' \<and>
    set b' = {v \<in> set b. \<not> equiv_key lt (key v) k}"
  using assms
proof (cases rule: search_cases [where k = k])
  case (absent xs ys)
  have "first_of lt key b k = None" using absent by (auto simp: first_of_None equiv_key_def)
  moreover have "set b = {v \<in> set b. \<not> equiv_key lt (key v) k}" using absent by (auto simp: equiv_key_def)
  ultimately show ?thesis
    using absent absent_test [where key = key, OF absent(1,5)] assms
    by (auto simp: ft_erase_key_def ft_equal_range_def ft_erase_range_def Let_def)
next
  case (present xs y ys)
  have "first_of lt key b k \<noteq> None" using present by (auto simp: first_of_None)
  moreover have "set (xs @ ys) = {v \<in> set b. \<not> equiv_key lt (key v) k}" using present by (auto simp: equiv_key_def)
  moreover have "flat_ok lt key (xs @ ys)" using assms present by auto
  ultimately show ?thesis
    using present present_test [where key = key, OF present(1,5)]
    by (auto simp: ft_erase_key_def ft_equal_range_def ft_erase_range_def Let_def)
qed

lemma search_ok:
  assumes "flat_ok lt key b"
  shows "ft_contains lt key k b \<longleftrightarrow> first_of lt key b k \<noteq> None"
    "ft_count lt key k b = (if first_of lt key b k = None then 0 else 1)"
    "first_of lt key b k = None \<Longrightarrow> ft_find lt key k b = length b"
    "first_of lt key b k = Some v \<Longrightarrow> ft_find lt key k b < length b \<and> b ! ft_find lt key k b = v"
proof -
  have "(ft_contains lt key k b \<longleftrightarrow> first_of lt key b k \<noteq> None) \<and>
      ft_count lt key k b = (if first_of lt key b k = None then 0 else 1) \<and>
      (first_of lt key b k = None \<longrightarrow> ft_find lt key k b = length b) \<and>
      (\<forall>v. first_of lt key b k = Some v \<longrightarrow> ft_find lt key k b < length b \<and> b ! ft_find lt key k b = v)"
    using assms
  proof (cases rule: search_cases [where k = k])
    case (absent xs ys)
    have "first_of lt key b k = None" using absent by (auto simp: first_of_None equiv_key_def)
    then show ?thesis
      using absent absent_test [where key = key, OF absent(1,5)]
      by (auto simp: ft_contains_def ft_count_def ft_find_def ft_equal_range_def Let_def)
  next
    case (present xs y ys)
    have "first_of lt key b k = Some y" using present(5) by (subst first_of_ordered [OF assms]) (simp add: present(1))
    then show ?thesis
      using present present_test [where key = key, OF present(1,5)]
      by (auto simp: ft_contains_def ft_count_def ft_find_def ft_equal_range_def Let_def)
  qed
  then show "ft_contains lt key k b \<longleftrightarrow> first_of lt key b k \<noteq> None"
    "ft_count lt key k b = (if first_of lt key b k = None then 0 else 1)"
    "first_of lt key b k = None \<Longrightarrow> ft_find lt key k b = length b"
    "first_of lt key b k = Some v \<Longrightarrow> ft_find lt key k b < length b \<and> b ! ft_find lt key k b = v"
    by blast+
qed

end

end
