(* ===== verification/Flat_Build.thy ===== *)
theory Flat_Build
  imports Flat_Order
begin

text \<open>
  Building sorted vectors: sorting, removal of duplicates, merging, the insertion of a range and the
  insertion sort of the fixed tables.  Where equivalent elements compete, the first one stays.
\<close>

section \<open>Insertion from the right\<close>

text \<open>The place insertion sort gives to a new last element: after all that are not greater.\<close>

fun insert_right :: "('v \<Rightarrow> 'v \<Rightarrow> bool) \<Rightarrow> 'v \<Rightarrow> 'v list \<Rightarrow> 'v list" where
  "insert_right cmp x [] = [x]"
| "insert_right cmp x (z # zs) = (if cmp x z then x # z # zs else z # insert_right cmp x zs)"

lemma insert_right_greater: "cmp x z \<Longrightarrow> insert_right cmp x (s @ [z]) = insert_right cmp x s @ [z]"
  by (induction s) auto

lemma insert_right_end: "\<forall>z \<in> set s. \<not> cmp x z \<Longrightarrow> insert_right cmp x s = s @ [x]"
  by (induction s) auto

lemma mset_stable_insert [simp]: "mset (stable_insert cmp x xs) = add_mset x (mset xs)"
  by (induction xs) auto

lemma mset_stable_sort [simp]: "mset (stable_sort cmp xs) = mset xs"
  by (induction xs) (auto simp: stable_sort_def)

lemma set_stable_sort [simp]: "set (stable_sort cmp xs) = set xs"
  by (metis mset_stable_sort set_mset_mset)

lemma length_stable_sort [simp]: "length (stable_sort cmp xs) = length xs"
  by (metis mset_stable_sort size_mset)

lemma stable_sort_simps [simp]:
  "stable_sort cmp [] = []" "stable_sort cmp (x # xs) = stable_insert cmp x (stable_sort cmp xs)"
  by (simp_all add: stable_sort_def)

lemma std_unique_length: "length (std_unique same xs) \<le> length xs"
  by (induction same xs rule: std_unique.induct) auto

lemma std_unique_subset: "set (std_unique same xs) \<subseteq> set xs"
  by (induction same xs rule: std_unique.induct) auto

definition weak_ok :: "('k \<Rightarrow> 'k \<Rightarrow> bool) \<Rightarrow> ('v \<Rightarrow> 'k) \<Rightarrow> 'v list \<Rightarrow> bool" where
  "weak_ok lt key xs \<longleftrightarrow> sorted_wrt (\<lambda>x y. \<not> lt (key y) (key x)) xs"

lemma weak_ok_simps [simp]:
  "weak_ok lt key []"
  "weak_ok lt key (x # xs) \<longleftrightarrow> (\<forall>y \<in> set xs. \<not> lt (key y) (key x)) \<and> weak_ok lt key xs"
  "weak_ok lt key (xs @ ys) \<longleftrightarrow> weak_ok lt key xs \<and> weak_ok lt key ys \<and> (\<forall>x \<in> set xs. \<forall>y \<in> set ys. \<not> lt (key y) (key x))"
  by (auto simp: weak_ok_def sorted_wrt_append)

lemma set_stable_insert [simp]: "set (stable_insert cmp x xs) = insert x (set xs)"
  by (metis mset_stable_insert set_mset_add_mset_insert set_mset_mset)

context value_compare
begin

section \<open>Sorting and removal of duplicates\<close>

lemma stable_insert_weak:
  "weak_ok lt key s \<Longrightarrow> weak_ok lt key (stable_insert (value_comp lt key) x s)"
proof (induction s)
  case (Cons y s)
  have "\<not> lt (key z) (key x)" if "\<not> lt (key y) (key x)" "z \<in> set s" for z
    using that Cons.prems ntrans by auto
  then show ?case using Cons asym [of "key y" "key x"] by (auto simp: value_comp_def)
qed simp

lemma stable_sort_weak: "weak_ok lt key (stable_sort (value_comp lt key) xs)"
  by (induction xs) (auto intro: stable_insert_weak)

lemma first_of_stable_insert:
  "first_of lt key (stable_insert (value_comp lt key) x s) k =
     (if equiv_key lt (key x) k then Some x else first_of lt key s k)"
proof (induction s)
  case (Cons y s)
  have "\<not> lt (key y) (key x)" if "equiv_key lt (key x) k" "equiv_key lt (key y) k"
    using that equiv_key_less [OF that(2)] by (auto simp: equiv_key_def)
  then show ?case using Cons by (auto simp: value_comp_def)
qed simp

lemma first_of_stable_sort: "first_of lt key (stable_sort (value_comp lt key) xs) k = first_of lt key xs k"
  by (induction xs) (simp_all add: first_of_stable_insert)

lemma std_unique_ok:
  assumes "weak_ok lt key xs"
  shows "flat_ok lt key (std_unique (\<lambda>l r. \<not> value_comp lt key l r) xs) \<and>
    first_of lt key (std_unique (\<lambda>l r. \<not> value_comp lt key l r) xs) k = first_of lt key xs k"
  using assms
proof (induction "\<lambda>l r. \<not> value_comp lt key l r" xs rule: std_unique.induct)
  case (1 x y xs)
  show ?case
  proof (cases "value_comp lt key x y")
    case False
    have e: "equiv_key lt (key x) (key y)" using False 1(3) by (simp add: equiv_key_def value_comp_def)
    then have "equiv_key lt (key y) k \<Longrightarrow> equiv_key lt (key x) k"
      using equiv_key_less [OF e] by (simp add: equiv_key_def)
    then show ?thesis using False 1 by auto
  next
    case True
    let ?U = "std_unique (\<lambda>l r. \<not> value_comp lt key l r) (y # xs)"
    have "lt (key x) (key z)" if "z \<in> set ?U" for z
    proof -
      have "z \<in> set (y # xs)" using subsetD [OF std_unique_subset that] .
      then have "\<not> lt (key z) (key y)" using 1(3) irrefl by auto
      then show ?thesis using True less_le_trans [of "key x" "key y" "key z"] by (simp add: value_comp_def)
    qed
    then show ?thesis using True 1 by auto
  qed
qed simp_all

lemma sort_and_unique_ok:
  assumes "first \<le> length b"
  shows "\<exists>u. sort_and_unique lt key first b = Inr (take first b @ u) \<and> flat_ok lt key u \<and>
    set u \<subseteq> set (drop first b) \<and> (\<forall>k. first_of lt key u k = first_of lt key (drop first b) k)"
proof -
  let ?s = "stable_sort (value_comp lt key) (drop first b)"
  let ?u = "std_unique (\<lambda>l r. \<not> value_comp lt key l r) ?s"
  have len: "length ?u \<le> length ?s" by (rule std_unique_length)
  have "first + length ?u \<le> length b" using len assms by simp
  then have "sort_and_unique lt key first b = Inr (take first b @ ?u)"
    using assms by (simp add: sort_and_unique_def ft_erase_range_def Let_def)
  moreover have "flat_ok lt key ?u" "\<And>k. first_of lt key ?u k = first_of lt key (drop first b) k"
    using std_unique_ok [OF stable_sort_weak] by (auto simp: first_of_stable_sort)
  moreover have "set ?u \<subseteq> set (drop first b)" using std_unique_subset [of _ ?s] by auto
  ultimately show ?thesis by blast
qed

section \<open>Merging and ranges\<close>

lemma std_merge_ok:
  assumes "flat_ok lt key xs" "flat_ok lt key ys" "\<forall>x \<in> set xs. \<forall>y \<in> set ys. \<not> equiv_key lt (key x) (key y)"
  shows "flat_ok lt key (std_merge (value_comp lt key) xs ys) \<and>
    set (std_merge (value_comp lt key) xs ys) = set xs \<union> set ys"
  using assms
proof (induction "value_comp lt key" xs ys rule: std_merge.induct)
  case (1 x xs y ys)
  show ?case
  proof (cases "value_comp lt key y x")
    case True
    then have "\<forall>z \<in> set (x # xs) \<union> set ys. lt (key y) (key z)" using 1(3,4) trans by (auto simp: value_comp_def)
    moreover have "flat_ok lt key (std_merge (value_comp lt key) (x # xs) ys) \<and>
        set (std_merge (value_comp lt key) (x # xs) ys) = set (x # xs) \<union> set ys"
      using 1(1) [OF True] 1(3-) by simp
    ultimately show ?thesis using True by auto
  next
    case False
    then have "lt (key x) (key y)" using 1(5) by (auto simp: equiv_key_def value_comp_def)
    then have "\<forall>z \<in> set xs \<union> set (y # ys). lt (key x) (key z)" using 1(3,4) trans by auto
    moreover have "flat_ok lt key (std_merge (value_comp lt key) xs (y # ys)) \<and>
        set (std_merge (value_comp lt key) xs (y # ys)) = set xs \<union> set (y # ys)"
      using 1(2) [OF False] 1(3-) by simp
    ultimately show ?thesis using False by auto
  qed
qed simp_all

lemma append_unique_ok:
  assumes "flat_ok lt key b"
  shows "append_unique lt key (length b) v (b @ ex) =
    (if first_of lt key b (key v) = None
     then ((ft_lower_bound lt key (key v) b, True), b @ ex @ [v]) else ((ft_lower_bound lt key (key v) b, False), b @ ex))"
proof -
  let ?p = "ft_lower_bound lt key (key v) b"
  have mono: "\<And>i j. i < j \<Longrightarrow> j < length b \<Longrightarrow> lt (key ((b @ ex) ! j)) (key v) \<Longrightarrow> lt (key ((b @ ex) ! i)) (key v)"
  proof -
    fix i j assume ij: "i < j" "j < length b" "lt (key ((b @ ex) ! j)) (key v)"
    show "lt (key ((b @ ex) ! i)) (key v)"
      using trans [OF flat_ok_nth [OF assms ij(1,2)], of "key v"] ij by (simp add: nth_append)
  qed
  have "?p \<le> length b \<and> (?p = 0 \<or> lt (key (b ! (?p - 1))) (key v)) \<and> (?p = length b \<or> \<not> lt (key (b ! ?p)) (key v)) \<and>
      ((?p = length b \<or> lt (key v) (key (b ! ?p))) \<longleftrightarrow> first_of lt key b (key v) = None)"
    using assms
  proof (cases rule: search_cases [where k = "key v"])
    case (absent xs ys)
    have "first_of lt key b (key v) = None" using absent by (auto simp: first_of_None equiv_key_def)
    moreover have "length xs = 0 \<or> lt (key (b ! (length xs - 1))) (key v)"
      using absent by (cases xs rule: rev_cases) (auto simp: nth_append)
    moreover have t: "length xs = length b \<or> lt (key v) (key (b ! length xs))"
      using absent_test [where key = key, OF absent(1,5)] .
    moreover from t have "length xs = length b \<or> \<not> lt (key (b ! length xs)) (key v)" using asym by blast
    ultimately show ?thesis using absent(1,2) by simp
  next
    case (present xs y ys)
    have "first_of lt key b (key v) \<noteq> None" using present by (auto simp: first_of_None)
    moreover have "length xs = 0 \<or> lt (key (b ! (length xs - 1))) (key v)"
      using present by (cases xs rule: rev_cases) (auto simp: nth_append)
    ultimately show ?thesis using present present_test [where key = key, OF present(1,5)] by (auto simp: equiv_key_def)
  qed
  then have p: "?p \<le> length b" "?p = 0 \<or> lt (key (b ! (?p - 1))) (key v)"
      "?p = length b \<or> \<not> lt (key (b ! ?p)) (key v)"
      "(?p = length b \<or> lt (key v) (key (b ! ?p))) \<longleftrightarrow> first_of lt key b (key v) = None"
    by blast+
  have "partition_point (\<lambda>x. lt (key x) (key v)) (b @ ex) 0 (length b) = ?p"
  proof (rule partition_point_unique)
    show "\<And>i j. i < j \<Longrightarrow> j < length b \<Longrightarrow> lt (key ((b @ ex) ! j)) (key v) \<Longrightarrow> lt (key ((b @ ex) ! i)) (key v)"
      by (rule mono)
    show "?p \<le> length b" by (rule p(1))
    show "?p = 0 \<or> lt (key ((b @ ex) ! (?p - 1))) (key v)" using p(1,2) by (cases ?p) (simp_all add: nth_append)
    show "?p = length b \<or> \<not> lt (key ((b @ ex) ! ?p)) (key v)" using p(1,3) by (auto simp: nth_append)
  qed
  moreover have "?p \<noteq> length b \<Longrightarrow> (b @ ex) ! ?p = b ! ?p" using p(1) by (simp add: nth_append)
  ultimately show ?thesis
    using p(4) by (auto simp: append_unique_def value_comp_def Let_def)
qed

lemma lower_bound_prefix:
  assumes "flat_ok lt key b" "x \<in> set (take (ft_lower_bound lt key k b) b)"
  shows "lt (key x) k"
  using assms(1) by (cases rule: search_cases [where k = k]) (use assms(2) in auto)

lemma append_all_unique_ok:
  assumes "flat_ok lt key b"
  shows "\<exists>p. append_all_unique lt key (length b) vs pos (b @ ex) =
      (p, b @ ex @ filter (\<lambda>v. first_of lt key b (key v) = None) vs) \<and> p \<le> pos \<and>
    (\<forall>v \<in> set vs. first_of lt key b (key v) = None \<longrightarrow> p \<le> ft_lower_bound lt key (key v) b)"
proof (induction vs arbitrary: pos ex)
  case (Cons v vs)
  show ?case
  proof (cases "first_of lt key b (key v) = None")
    case True
    obtain p where "append_all_unique lt key (length b) vs (min pos (ft_lower_bound lt key (key v) b)) (b @ ex @ [v]) =
        (p, b @ (ex @ [v]) @ filter (\<lambda>v. first_of lt key b (key v) = None) vs)"
        "p \<le> min pos (ft_lower_bound lt key (key v) b)"
        "\<forall>v \<in> set vs. first_of lt key b (key v) = None \<longrightarrow> p \<le> ft_lower_bound lt key (key v) b"
      using Cons.IH [of "min pos (ft_lower_bound lt key (key v) b)" "ex @ [v]"] by auto
    then show ?thesis using True append_unique_ok [OF assms, of v ex] by auto
  next
    case False
    then show ?thesis using Cons.IH [of pos ex] append_unique_ok [OF assms, of v ex] by auto
  qed
qed simp

lemma first_of_eqI:
  assumes "flat_ok lt key b" "\<And>w. r = Some w \<longleftrightarrow> w \<in> set b \<and> equiv_key lt (key w) k"
  shows "first_of lt key b k = r"
proof (cases r)
  case None
  then have "first_of lt key b k \<noteq> Some w" for w using first_of_ordered [OF assms(1), of k w] assms(2) [of w] by simp
  then show ?thesis using None by (cases "first_of lt key b k") auto
next
  case (Some w)
  then show ?thesis using first_of_ordered [OF assms(1), of k w] assms(2) [of w] by simp
qed

lemma first_of_filter_new:
  "first_of lt key b k = None \<Longrightarrow>
     first_of lt key (filter (\<lambda>v. first_of lt key b (key v) = None) vs) k = first_of lt key vs k"
proof (induction vs)
  case (Cons v vs)
  have "first_of lt key b (key v) = None" if "equiv_key lt (key v) k"
    using that Cons.prems equiv_key_less [OF that] by (auto simp: first_of_None equiv_key_def)
  then show ?case using Cons by auto
qed simp

lemma insert_one_first_of:
  assumes "flat_ok lt key b" "flat_ok lt key b'"
    and "set b' = (if first_of lt key b (key v) = None then insert v (set b) else set b)"
  shows "first_of lt key b' k =
    (case first_of lt key b k of Some w \<Rightarrow> Some w | None \<Rightarrow> if equiv_key lt (key v) k then Some v else None)"
proof (cases "equiv_key lt (key v) k")
  case True
  then have "first_of lt key b (key v) = None \<longleftrightarrow> first_of lt key b k = None"
    using equiv_key_less [OF True] by (auto simp: first_of_None equiv_key_def)
  moreover have "first_of lt key b k = Some w \<longleftrightarrow> w \<in> set b \<and> equiv_key lt (key w) k" for w
    by (rule first_of_ordered [OF assms(1)])
  moreover have "w \<notin> set b" if "first_of lt key b k = None" "equiv_key lt (key w) k" for w
    using that by (auto simp: first_of_None)
  ultimately show ?thesis
    using True assms(3) by (intro first_of_eqI [OF assms(2)]) (cases "first_of lt key b k"; auto)
next
  case False
  then have "w \<in> set b' \<and> equiv_key lt (key w) k \<longleftrightarrow> w \<in> set b \<and> equiv_key lt (key w) k" for w
    using assms(3) by auto
  then show ?thesis
    using False first_of_ordered [OF assms(1), of k]
    by (intro first_of_eqI [OF assms(2)]) (cases "first_of lt key b k"; simp)
qed

lemma range_insertion_ok:
  assumes "flat_ok lt key b"
  shows "\<exists>b'. ft_insert_range lt key multipass vs b = Inr b' \<and> flat_ok lt key b' \<and>
    (\<forall>k. first_of lt key b' k = (case first_of lt key b k of Some w \<Rightarrow> Some w | None \<Rightarrow> first_of lt key vs k))"
proof -
  consider "vs = []" | v where "vs = [v]" "multipass" | "vs \<noteq> []" "\<not> (multipass \<and> length vs = 1)"
    by (cases vs; cases "tl vs") auto
  then show ?thesis
  proof cases
    case 1
    then show ?thesis using assms by (auto simp: ft_insert_range_def split: option.split)
  next
    case (2 v)
    obtain i b' where "emplace_key_args lt key (key v) v b = Inr ((i, first_of lt key b (key v) = None), b')"
        "flat_ok lt key b'" "set b' = (if first_of lt key b (key v) = None then insert v (set b) else set b)"
      using emplace_key_args_ok [OF assms, of v "key v"] irrefl by (auto simp: equiv_key_def)
    then show ?thesis
      using 2 insert_one_first_of [OF assms, of b' v] emplace_hint_irrelevant [OF assms, of "length b" "key v" v]
      by (auto simp: ft_insert_range_def ft_insert_hint_def split: option.split)
  next
    case 3
    let ?new = "filter (\<lambda>v. first_of lt key b (key v) = None) vs"
    obtain p where p: "append_all_unique lt key (length b) vs (length b) b = (p, b @ ?new)" "p \<le> length b"
        "\<forall>v \<in> set vs. first_of lt key b (key v) = None \<longrightarrow> p \<le> ft_lower_bound lt key (key v) b"
      using append_all_unique_ok [OF assms, of vs "length b" "[]"] by auto
    obtain u where u: "sort_and_unique lt key (length b) (b @ ?new) = Inr (b @ u)" "flat_ok lt key u"
        "set u \<subseteq> set ?new" "\<forall>k. first_of lt key u k = first_of lt key ?new k"
      using sort_and_unique_ok [of "length b" "b @ ?new" key] by auto
    let ?m = "std_merge (value_comp lt key) (drop p b) u"
    have cross: "\<not> equiv_key lt (key x) (key y)" if "x \<in> set b" "y \<in> set u" for x y
      using that u(3) by (auto simp: first_of_None)
    then have m: "flat_ok lt key ?m \<and> set ?m = set (drop p b) \<union> set u"
      using flat_ok_cut(2) [OF assms, of p] u(2) set_drop_subset [of p b] by (intro std_merge_ok) blast+
    have "lt (key x) (key y)" if "x \<in> set (take p b)" "y \<in> set u" for x y
    proof -
      have "p \<le> ft_lower_bound lt key (key y) b" using that(2) u(3) p(3) by auto
      then have "x \<in> set (take (ft_lower_bound lt key (key y) b) b)" 
        using that(1) set_take_subset_set_take [of p _ b] by (meson subsetD)
      then show ?thesis by (rule lower_bound_prefix [OF assms])
    qed
    moreover have "flat_ok lt key (take p b @ drop p b)" using assms by simp
    ultimately have ok: "flat_ok lt key (take p b @ ?m)" using m unfolding flat_ok_simps(3) by auto
    have set: "set (take p b @ ?m) = set b \<union> set u"
      using m by (metis append_take_drop_id set_append sup_assoc)
    have "first_of lt key (take p b @ ?m) k =
        (case first_of lt key b k of Some w \<Rightarrow> Some w | None \<Rightarrow> first_of lt key vs k)" for k
    proof (rule first_of_eqI [OF ok])
      fix w
      have new: "first_of lt key u k = first_of lt key vs k" if "first_of lt key b k = None"
        using u(4) first_of_filter_new [OF that] by simp
      show "(case first_of lt key b k of Some w \<Rightarrow> Some w | None \<Rightarrow> first_of lt key vs k) = Some w \<longleftrightarrow>
          w \<in> set (take p b @ ?m) \<and> equiv_key lt (key w) k"
      proof (cases "first_of lt key b k")
        case None
        then have "w \<notin> set b" if "equiv_key lt (key w) k" using that by (auto simp: first_of_None)
        then show ?thesis using None new first_of_ordered [OF u(2), of k w] set by auto
      next
        case (Some x)
        then have x: "x \<in> set b" "equiv_key lt (key x) k" using first_of_ordered [OF assms] by auto
        have "w \<notin> set u" if "equiv_key lt (key w) k"
          using cross [OF x(1), of w] that equiv_key_less [OF x(2)] by (auto simp: equiv_key_def)
        then show ?thesis using Some first_of_ordered [OF assms, of k w] set by auto
      qed
    qed
    then show ?thesis
      using 3 p(1,2) u(1) ok by (auto simp: ft_insert_range_def inplace_merge_def Let_def)
  qed
qed

section \<open>Removal by a predicate\<close>

lemma EraseIf_ok:
  assumes "flat_ok lt key b"
  shows "EraseIf pred b = Inr (length (filter pred b), filter (\<lambda>v. \<not> pred v) b)"
    "flat_ok lt key (filter (\<lambda>v. \<not> pred v) b)"
proof -
  have "length b - length (filter (\<lambda>v. \<not> pred v) b) = length (filter pred b)"
      "length b \<le> length (filter (\<lambda>v. \<not> pred v) b) + length (filter pred b)"
    using sum_length_filter_compl [of pred b] by simp_all
  then show "EraseIf pred b = Inr (length (filter pred b), filter (\<lambda>v. \<not> pred v) b)"
    by (simp add: EraseIf_def ft_erase_range_def Let_def)
  show "flat_ok lt key (filter (\<lambda>v. \<not> pred v) b)"
    using assms by (induction b) auto
qed

section \<open>Insertion sort\<close>

lemma insert_right_commute:
  "weak_ok lt key s \<Longrightarrow> stable_insert (value_comp lt key) y (insert_right (value_comp lt key) x s) =
     insert_right (value_comp lt key) x (stable_insert (value_comp lt key) y s)"
proof (induction s)
  case (Cons z s)
  then show ?case
    using trans [of "key x" "key z" "key y"] ntrans [of "key x" "key z" "key y"] 
    by (cases "lt (key x) (key z)"; cases "lt (key z) (key y)"; cases "lt (key x) (key y)") (simp_all add: value_comp_def)
qed (simp add: value_comp_def)

lemma stable_sort_snoc:
  "stable_sort (value_comp lt key) (xs @ [x]) = insert_right (value_comp lt key) x (stable_sort (value_comp lt key) xs)"
  by (induction xs) (simp_all add: insert_right_commute stable_sort_weak)

lemma sink_ok:
  assumes "weak_ok lt key (take i xs)" "i < length xs"
  shows "sink (value_comp lt key) i xs = insert_right (value_comp lt key) (xs ! i) (take i xs) @ drop (Suc i) xs"
  using assms
proof (induction i arbitrary: xs)
  case 0
  then show ?case by (cases xs) auto
next
  case (Suc p)
  have t: "take (Suc p) xs = take p xs @ [xs ! p]" using Suc.prems(2) by (simp add: take_Suc_conv_app_nth)
  show ?case
  proof (cases "value_comp lt key (xs ! Suc p) (xs ! p)")
    case True
    let ?ys = "Swap (Suc p) p xs"
    have ys: "take p ?ys = take p xs" "?ys ! p = xs ! Suc p" "length ?ys = length xs"
      "drop (Suc p) ?ys = xs ! p # drop (Suc (Suc p)) xs"
      using Suc.prems(2) by (simp_all add: Swap_def Cons_nth_drop_Suc [symmetric] drop_update_swap)
    have "sink (value_comp lt key) p ?ys = insert_right (value_comp lt key) (?ys ! p) (take p ?ys) @ drop (Suc p) ?ys"
      using Suc.prems t ys by (intro Suc.IH) auto
    then show ?thesis using True t ys insert_right_greater [of "value_comp lt key" "xs ! Suc p" "xs ! p" "take p xs"] by simp
  next
    case False
    have "\<forall>z \<in> set (take (Suc p) xs). \<not> value_comp lt key (xs ! Suc p) z"
      using False Suc.prems(1) t ntrans by (auto simp: value_comp_def)
    then have "insert_right (value_comp lt key) (xs ! Suc p) (take (Suc p) xs) = take (Suc p) xs @ [xs ! Suc p]"
      by (rule insert_right_end)
    moreover have "xs = take (Suc p) xs @ xs ! Suc p # drop (Suc (Suc p)) xs" using Suc.prems(2) by (rule id_take_nth_drop)
    ultimately show ?thesis using False by simp
  qed
qed

lemma insertion_sort_loop:
  assumes "Suc i \<le> length xs"
  shows "fold (sink (value_comp lt key)) [1..<Suc i] xs = stable_sort (value_comp lt key) (take (Suc i) xs) @ drop (Suc i) xs"
  using assms
proof (induction i)
  case 0
  then show ?case by (cases xs) auto
next
  case (Suc i)
  let ?ys = "stable_sort (value_comp lt key) (take (Suc i) xs) @ drop (Suc i) xs"
  have l: "length (stable_sort (value_comp lt key) (take (Suc i) xs)) = Suc i" using Suc.prems by simp
  have "fold (sink (value_comp lt key)) [1..<Suc (Suc i)] xs = sink (value_comp lt key) (Suc i) ?ys"
    using Suc by simp
  also have "\<dots> = insert_right (value_comp lt key) (?ys ! Suc i) (take (Suc i) ?ys) @ drop (Suc (Suc i)) ?ys"
    using l Suc.prems stable_sort_weak by (intro sink_ok) auto
  also have "\<dots> = stable_sort (value_comp lt key) (take (Suc i) xs @ [xs ! Suc i]) @ drop (Suc (Suc i)) xs"
    using l Suc.prems by (simp add: stable_sort_snoc nth_append)
  finally show ?case using Suc.prems by (simp add: take_Suc_conv_app_nth)
qed

lemma InsertionSort_stable: "InsertionSort (value_comp lt key) xs = stable_sort (value_comp lt key) xs"
proof (cases xs)
  case (Cons x ys)
  then show ?thesis using insertion_sort_loop [of "length ys" xs] by (simp add: InsertionSort_def)
qed (simp add: InsertionSort_def)

end

end
