(* ===== verification/Flat_Map.thy ===== *)
theory Flat_Map
  imports Flat_Build Refinement
begin

text \<open>
  The sorted vector as its clients see it: a map with ordered keys, for any run of operations; the same
  result for a range as for its elements one by one; and tables fixed at compile time.
\<close>

section \<open>Maps with ordered keys\<close>

text \<open>\<^verbatim>\<open>std::less\<close>, the default comparison.\<close>

interpretation less_than: value_compare "(<) :: 'k :: linorder \<Rightarrow> 'k \<Rightarrow> bool"
  by unfold_locales auto

lemma equiv_less [simp]: "equiv_key (<) a b \<longleftrightarrow> a = (b :: 'k :: linorder)"
  by (auto simp: equiv_key_def)

lemma first_of_map_of: "first_of (<) fst xs (k :: 'k :: linorder) = map_option (Pair k) (map_of xs k)"
  by (induction xs) auto

definition map_body :: "('k :: linorder \<times> 'm) flat_tree \<Rightarrow> ('k \<rightharpoonup> 'm) \<Rightarrow> bool" where
  "map_body b m \<longleftrightarrow> flat_ok (<) fst b \<and> map_of b = m"

text \<open>A finite map listed by ascending key.\<close>

definition entries :: "('k :: linorder \<rightharpoonup> 'm) \<Rightarrow> ('k \<times> 'm) list" where
  "entries m = map (\<lambda>k. (k, the (m k))) (sorted_list_of_set (dom m))"

lemma flat_ok_keys: "flat_ok (<) fst b \<longleftrightarrow> sorted_wrt (<) (map fst b)"
  by (simp add: flat_ok_def sorted_wrt_map)

lemma map_of_member: "flat_ok (<) fst b \<Longrightarrow> map_of b k = Some v \<longleftrightarrow> (k :: 'k :: linorder, v) \<in> set b"
  by (intro map_of_eq_Some_iff) (auto simp: flat_ok_keys strict_sorted_iff)

lemma map_bodyI:
  assumes "flat_ok (<) fst b" "\<And>k v. m k = Some v \<longleftrightarrow> (k :: 'k :: linorder, v) \<in> set b"
  shows "map_body b m"
proof -
  have same: "map_of b k = Some v \<longleftrightarrow> m k = Some v" for k v
    using map_of_member [OF assms(1), of k v] assms(2) [of k v] by simp
  have "map_of b k = m k" for k
    using same [of k "the (m k)"] same [of k "the (map_of b k)"] by (cases "m k"; cases "map_of b k") simp_all
  then show ?thesis using assms(1) by (auto simp: map_body_def)
qed

lemma map_bodyD:
  assumes "map_body b m"
  shows "flat_ok (<) fst b" "first_of (<) fst b k = map_option (Pair k) (m k)"
    "m k = Some v \<longleftrightarrow> (k, v) \<in> set b" "map fst b = sorted_list_of_set (dom m)" "length b = card (dom m)" "entries m = b"
proof -
  have b: "flat_ok (<) fst b" "map_of b = m" using assms by (auto simp: map_body_def)
  show "flat_ok (<) fst b" "first_of (<) fst b k = map_option (Pair k) (m k)" using b by (auto simp: first_of_map_of)
  show "m k = Some v \<longleftrightarrow> (k, v) \<in> set b" using map_of_member [OF b(1)] b(2) by auto
  have "sorted (map fst b)" "distinct (map fst b)" using b(1) by (simp_all add: flat_ok_keys strict_sorted_iff)
  then have k: "sorted_list_of_set (set (map fst b)) = map fst b"
    by (rule sorted_list_of_set.idem_if_sorted_distinct)
  moreover have d: "dom m = set (map fst b)" using b(2) dom_map_of_conv_image_fst [of b] by simp
  ultimately show l: "map fst b = sorted_list_of_set (dom m)" by simp
  have "finite (dom m)" using d by simp
  then show "length b = card (dom m)" using l by (metis length_map length_sorted_list_of_set)
  have "(fst e, the (m (fst e))) = e" if "e \<in> set b" for e
  proof -
    have "map_of b (fst e) = Some (snd e)" using that map_of_member [OF b(1), of "fst e" "snd e"] by simp
    then show ?thesis using b(2) by auto
  qed
  then show "entries m = b" unfolding entries_def l [symmetric] by (simp add: map_idI)
qed

section \<open>One operation at a time\<close>

lemma flat_ok_same_keys: "map fst b' = map fst b \<Longrightarrow> flat_ok (<) fst b \<Longrightarrow> flat_ok (<) fst b'"
  by (simp add: flat_ok_keys)

lemma set_mapped_ok:
  assumes "map_body b m" "i < length b" "fst (b ! i) = k"
  shows "map_body (set_mapped i v b) (m(k \<mapsto> v))"
proof -
  have keys: "map fst (set_mapped i v b) = map fst b"
    using assms(2) by (simp add: set_mapped_def map_update list_update_same_conv)
  have ok: "flat_ok (<) fst b" using map_bodyD(1) [OF assms(1)] .
  then have "distinct (map fst b)" by (simp add: flat_ok_keys strict_sorted_iff)
  then have d: "distinct b" and inj: "\<And>e. e \<in> set b \<Longrightarrow> fst e = k \<Longrightarrow> e = b ! i"
    using assms(2,3) by (auto simp: distinct_map dest: inj_onD)
  have "set (set_mapped i v b) = insert (k, v) (set b - {b ! i})"
    using set_update_distinct [OF d assms(2)] assms(3) by (simp add: set_mapped_def)
  moreover have "(j, w) \<noteq> b ! i" if "j \<noteq> k" for j w using that assms(3) by (metis fst_conv)
  moreover have "(k, w) \<notin> set b - {b ! i}" for w using inj [of "(k, w)"] by auto
  ultimately have "(m(k \<mapsto> v)) j = Some w \<longleftrightarrow> (j, w) \<in> set (set_mapped i v b)" for j w
    using map_bodyD(3) [OF assms(1), of j w] by (cases "j = k") (simp_all, blast)
  then show ?thesis by (intro map_bodyI flat_ok_same_keys [OF keys ok])
qed

lemma emplace_map:
  assumes "map_body b m"
  shows "\<exists>i b'. emplace_key_args (<) fst k (k, v) b = Inr ((i, m k = None), b') \<and> i < length b' \<and> fst (b' ! i) = k \<and>
    map_body b' (if m k = None then m(k \<mapsto> v) else m)"
proof -
  note ok = map_bodyD(1) [OF assms]
  have f: "first_of (<) fst b k = None \<longleftrightarrow> m k = None" using map_bodyD(2) [OF assms, of k] by simp
  obtain i b' where b': "emplace_key_args (<) fst k (k, v) b = Inr ((i, first_of (<) fst b k = None), b')"
      "flat_ok (<) fst b'" "i < length b'" "equiv_key (<) (fst (b' ! i)) k"
      "set b' = (if first_of (<) fst b k = None then insert (k, v) (set b) else set b)"
    using less_than.emplace_key_args_ok [OF ok, of "(k, v)" k] by auto
  have "map_body b' (if m k = None then m(k \<mapsto> v) else m)"
    using b'(2,5) f by (intro map_bodyI) (auto simp: map_bodyD(3) [OF assms, symmetric])
  then show ?thesis using b' f by auto
qed

lemma emplace_hint_map:
  assumes "map_body b m" "hint \<le> length b"
  shows "emplace_hint_key_args (<) fst hint k (k, v) b = emplace_key_args (<) fst k (k, v) b"
  using less_than.emplace_hint_irrelevant [OF map_bodyD(1) [OF assms(1)] assms(2)] .

lemma subscript_map:
  "fm_subscript (<) z k b = map_outcome (\<lambda>((it, inserted), b'). (it, b')) (emplace_key_args (<) fst k (k, z) b)"
  by (simp add: fm_subscript_def emplace_key_args_def unsafe_emplace_def defined_if_def Let_def)

lemma erase_key_map:
  assumes "map_body b m"
  shows "\<exists>b'. ft_erase_key (<) fst k b = Inr (if m k = None then 0 else 1, b') \<and> map_body b' (m(k := None))"
proof -
  have f: "first_of (<) fst b k = None \<longleftrightarrow> m k = None" using map_bodyD(2) [OF assms, of k] by simp
  obtain b' where b': "ft_erase_key (<) fst k b = Inr (if first_of (<) fst b k = None then 0 else 1, b')"
      "flat_ok (<) fst b'" "set b' = {v \<in> set b. \<not> equiv_key (<) (fst v) k}"
    using less_than.erase_key_ok [OF map_bodyD(1) [OF assms], of k] by auto
  have "map_body b' (m(k := None))" using b'(2,3) map_bodyD(3) [OF assms] by (intro map_bodyI) auto
  then show ?thesis using b'(1) f by auto
qed

lemma erase_at_map:
  assumes "map_body b m" "i < length b"
  shows "\<exists>b'. ft_erase_at i b = Inr (i, b') \<and> map_body b' (m(sorted_list_of_set (dom m) ! i := None))"
proof -
  note e = less_than.erase_at_ok [OF map_bodyD(1) [OF assms(1)] assms(2)]
  have k: "sorted_list_of_set (dom m) ! i = fst (b ! i)" using map_bodyD(4) [OF assms(1)] assms(2) by (metis nth_map)
  have "distinct (map fst b)" using map_bodyD(1) [OF assms(1)] by (simp add: flat_ok_keys strict_sorted_iff)
  then have "e = b ! i" if "e \<in> set b" "fst e = fst (b ! i)" for e
    using that assms(2) by (auto simp: distinct_map dest: inj_onD)
  then have "(m(fst (b ! i) := None)) j = Some w \<longleftrightarrow> (j, w) \<in> set b - {b ! i}" for j w
    using map_bodyD(3) [OF assms(1), of j w] fst_conv [of j w]
    by (cases "(j, w) = b ! i"; cases "j = fst (b ! i)") auto
  then have "map_body (take i b @ drop (Suc i) b) (m(fst (b ! i) := None))"
    using e(2,3) by (intro map_bodyI) simp_all
  then show ?thesis using e(1) k by auto
qed

lemma erase_if_map:
  assumes "map_body b m"
  shows "\<exists>n b'. EraseIf pred b = Inr (n, b') \<and> map_body b' (\<lambda>k. case m k of None \<Rightarrow> None | Some v \<Rightarrow> if pred (k, v) then None else Some v)"
proof -
  have "map_body (filter (\<lambda>e. \<not> pred e) b) (\<lambda>k. case m k of None \<Rightarrow> None | Some v \<Rightarrow> if pred (k, v) then None else Some v)"
    using less_than.EraseIf_ok(2) [OF map_bodyD(1) [OF assms], of pred]
    by (intro map_bodyI) (auto simp: map_bodyD(3) [OF assms, symmetric] split: option.split)
  then show ?thesis using less_than.EraseIf_ok(1) [OF map_bodyD(1) [OF assms], of pred] by auto
qed

lemma insert_range_map:
  assumes "map_body b m"
  shows "\<exists>b'. ft_insert_range (<) fst mp vs b = Inr b' \<and> map_body b' (map_of vs ++ m)"
proof -
  obtain b' where b': "ft_insert_range (<) fst mp vs b = Inr b'" "flat_ok (<) fst b'"
      "\<forall>k. first_of (<) fst b' k = (case first_of (<) fst b k of Some w \<Rightarrow> Some w | None \<Rightarrow> first_of (<) fst vs k)"
    using less_than.range_insertion_ok [OF map_bodyD(1) [OF assms], of mp vs] by auto
  have "map_of b' k = (map_of vs ++ m) k" for k
    using spec [OF b'(3), of k] map_bodyD(2) [OF assms, of k]
    by (cases "m k"; cases "map_of vs k"; cases "map_of b' k") (simp_all add: first_of_map_of map_add_def)
  then show ?thesis using b'(1,2) by (auto simp: map_body_def)
qed

lemma sort_and_unique_map: "\<exists>b'. sort_and_unique (<) fst 0 vs = Inr b' \<and> map_body b' (map_of vs)"
proof -
  obtain u where u: "sort_and_unique (<) fst 0 vs = Inr u" "flat_ok (<) fst u"
      "\<forall>k. first_of (<) fst u k = first_of (<) fst vs k"
    using less_than.sort_and_unique_ok [of 0 vs fst] by auto
  have "map_of u k = map_of vs k" for k
    using spec [OF u(3), of k] by (cases "map_of u k"; cases "map_of vs k") (simp_all add: first_of_map_of)
  then show ?thesis using u(1,2) by (auto simp: map_body_def)
qed

section \<open>Runs\<close>

datatype ('k, 'm) fm_op =
    Fm_insert 'k 'm | Fm_insert_hint nat 'k 'm | Fm_try_emplace 'k 'm | Fm_try_emplace_hint nat 'k 'm
  | Fm_insert_or_assign 'k 'm | Fm_insert_or_assign_hint nat 'k 'm | Fm_subscript 'k | Fm_subscript_assign 'k 'm
  | Fm_erase 'k | Fm_erase_at nat | Fm_erase_if "'k \<times> 'm \<Rightarrow> bool"
  | Fm_insert_range bool "('k \<times> 'm) list" | Fm_assign "('k \<times> 'm) list" | Fm_replace "('k \<times> 'm) list" | Fm_clear

text \<open>\<open>z\<close> is the mapped type's default value.\<close>

fun fm_apply :: "'m \<Rightarrow> ('k :: linorder \<times> 'm) flat_tree \<Rightarrow> ('k, 'm) fm_op \<Rightarrow> ('k \<times> 'm) flat_tree outcome" where
  "fm_apply z b (Fm_insert k v) = map_outcome snd (ft_insert (<) fst (k, v) b)"
| "fm_apply z b (Fm_insert_hint h k v) = map_outcome snd (ft_insert_hint (<) fst h (k, v) b)"
| "fm_apply z b (Fm_try_emplace k v) = map_outcome snd (try_emplace (<) k v b)"
| "fm_apply z b (Fm_try_emplace_hint h k v) = map_outcome snd (try_emplace_hint (<) h k v b)"
| "fm_apply z b (Fm_insert_or_assign k v) = map_outcome snd (fm_insert_or_assign (<) k v b)"
| "fm_apply z b (Fm_insert_or_assign_hint h k v) = map_outcome snd (fm_insert_or_assign_hint (<) h k v b)"
| "fm_apply z b (Fm_subscript k) = map_outcome snd (fm_subscript (<) z k b)"
| "fm_apply z b (Fm_subscript_assign k v) = map_outcome (\<lambda>(it, b'). set_mapped it v b') (fm_subscript (<) z k b)"
| "fm_apply z b (Fm_erase k) = map_outcome snd (ft_erase_key (<) fst k b)"
| "fm_apply z b (Fm_erase_at i) = map_outcome snd (ft_erase_at i b)"
| "fm_apply z b (Fm_erase_if p) = map_outcome snd (EraseIf p b)"
| "fm_apply z b (Fm_insert_range mp vs) = ft_insert_range (<) fst mp vs b"
| "fm_apply z b (Fm_assign vs) = ft_assign (<) fst vs b"
| "fm_apply z b (Fm_replace vs) = ft_replace (<) fst vs b"
| "fm_apply z b Fm_clear = Inr (ft_clear b)"

definition put_new :: "'k \<Rightarrow> 'm \<Rightarrow> ('k \<rightharpoonup> 'm) \<Rightarrow> ('k \<rightharpoonup> 'm)" where
  "put_new k v m = (if m k = None then m(k \<mapsto> v) else m)"

fun map_op :: "'m \<Rightarrow> ('k :: linorder \<rightharpoonup> 'm) \<Rightarrow> ('k, 'm) fm_op \<Rightarrow> ('k \<rightharpoonup> 'm) outcome" where
  "map_op z m (Fm_insert k v) = Inr (put_new k v m)"
| "map_op z m (Fm_insert_hint h k v) = defined_if (h \<le> card (dom m)) (Inr (put_new k v m))"
| "map_op z m (Fm_try_emplace k v) = Inr (put_new k v m)"
| "map_op z m (Fm_try_emplace_hint h k v) = defined_if (h \<le> card (dom m)) (Inr (put_new k v m))"
| "map_op z m (Fm_insert_or_assign k v) = Inr (m(k \<mapsto> v))"
| "map_op z m (Fm_insert_or_assign_hint h k v) = defined_if (h \<le> card (dom m)) (Inr (m(k \<mapsto> v)))"
| "map_op z m (Fm_subscript k) = Inr (put_new k z m)"
| "map_op z m (Fm_subscript_assign k v) = Inr (m(k \<mapsto> v))"
| "map_op z m (Fm_erase k) = Inr (m(k := None))"
| "map_op z m (Fm_erase_at i) =
     rtc_check (i \<noteq> card (dom m)) (defined_if (i < card (dom m)) (Inr (m(sorted_list_of_set (dom m) ! i := None))))"
| "map_op z m (Fm_erase_if p) = Inr (\<lambda>k. case m k of None \<Rightarrow> None | Some v \<Rightarrow> if p (k, v) then None else Some v)"
| "map_op z m (Fm_insert_range mp vs) = Inr (map_of vs ++ m)"
| "map_op z m (Fm_assign vs) = Inr (map_of vs)"
| "map_op z m (Fm_replace vs) = dcheck (sorted_wrt (<) (map fst vs)) (Inr (map_of vs))"
| "map_op z m Fm_clear = Inr Map.empty"

lemma assign_map:
  assumes "map_body b m"
  shows "matches map_body (map_outcome snd (fm_insert_or_assign (<) k v b)) (Inr (m(k \<mapsto> v)))"
    and "matches map_body (map_outcome (\<lambda>(it, b'). set_mapped it v b') (fm_subscript (<) z k b)) (Inr (m(k \<mapsto> v)))"
proof -
  have upd: "map_body (set_mapped i v b') (m(k \<mapsto> v))"
    if "map_body b' (if m k = None then m(k \<mapsto> w) else m)" "i < length b'" "fst (b' ! i) = k" for w i b'
    using set_mapped_ok [OF that, of v] by (cases "m k = None") (simp_all only: simp_thms if_True if_False fun_upd_upd)
  obtain i b' where "emplace_key_args (<) fst k (k, v) b = Inr ((i, m k = None), b')" "i < length b'"
      "fst (b' ! i) = k" "map_body b' (if m k = None then m(k \<mapsto> v) else m)"
    using emplace_map [OF assms, of k v] by auto
  then show "matches map_body (map_outcome snd (fm_insert_or_assign (<) k v b)) (Inr (m(k \<mapsto> v)))"
    using upd [of b' v i] by (auto simp: fm_insert_or_assign_def matches_def)
  obtain j c where "emplace_key_args (<) fst k (k, z) b = Inr ((j, m k = None), c)" "j < length c"
      "fst (c ! j) = k" "map_body c (if m k = None then m(k \<mapsto> z) else m)"
    using emplace_map [OF assms, of k z] by auto
  then show "matches map_body (map_outcome (\<lambda>(it, b'). set_mapped it v b') (fm_subscript (<) z k b)) (Inr (m(k \<mapsto> v)))"
    using upd [of c z j] by (auto simp: subscript_map matches_def)
qed

lemma put_new_map:
  assumes "map_body b m"
  shows "matches map_body (map_outcome snd (emplace_key_args (<) fst k (k, v) b)) (Inr (put_new k v m))"
  using emplace_map [OF assms, of k v] by (auto simp: matches_def put_new_def)

lemma drop_flag: "map_outcome snd (map_outcome (\<lambda>((it, inserted), b'). (it, b')) c) = map_outcome snd c"
  by (cases c) (auto split: prod.split)

lemma hint_out_of_range:
  "\<not> h \<le> length b \<Longrightarrow> emplace_hint_key_args (<) fst h k v b = Inl Undefined_behaviour"
  by (simp add: emplace_hint_key_args_def)

lemma fm_apply_simulates:
  assumes h: "map_body b m"
  shows "matches map_body (fm_apply z b op) (map_op z m op)"
proof (cases op)
  case (Fm_insert k v)
  then show ?thesis using put_new_map [OF h, of k v] by (simp add: ft_insert_def)
next
  case (Fm_insert_hint i k v)
  then show ?thesis
    using put_new_map [OF h, of k v] emplace_hint_map [OF h, of i k v] hint_out_of_range [of i b k "(k, v)"] map_bodyD(5) [OF h]
    by (cases "i \<le> length b") (simp_all add: ft_insert_hint_def drop_flag)
next
  case (Fm_try_emplace k v)
  then show ?thesis using put_new_map [OF h, of k v] by (simp add: try_emplace_def)
next
  case (Fm_try_emplace_hint i k v)
  then show ?thesis
    using put_new_map [OF h, of k v] emplace_hint_map [OF h, of i k v] hint_out_of_range [of i b k "(k, v)"] map_bodyD(5) [OF h]
    by (cases "i \<le> length b") (simp_all add: try_emplace_hint_def drop_flag)
next
  case (Fm_insert_or_assign k v)
  then show ?thesis using assign_map(1) [OF h] by simp
next
  case (Fm_insert_or_assign_hint i k v)
  have "map_outcome snd (fm_insert_or_assign_hint (<) i k v b) = map_outcome snd (fm_insert_or_assign (<) k v b)"
    if "i \<le> length b"
    using emplace_hint_map [OF h that, of k v] emplace_map [OF h, of k v]
    by (auto simp: fm_insert_or_assign_hint_def fm_insert_or_assign_def)
  then show ?thesis
    using Fm_insert_or_assign_hint assign_map(1) [OF h, of k v] hint_out_of_range [of i b k "(k, v)"] map_bodyD(5) [OF h]
    by (cases "i \<le> length b") (simp_all add: fm_insert_or_assign_hint_def)
next
  case (Fm_subscript k)
  then show ?thesis using put_new_map [OF h, of k z] by (simp add: subscript_map drop_flag)
next
  case (Fm_subscript_assign k v)
  then show ?thesis using assign_map(2) [OF h] by simp
next
  case (Fm_erase k)
  then show ?thesis using erase_key_map [OF h, of k] by (auto simp: matches_def simp del: fun_upd_apply)
next
  case (Fm_erase_at i)
  then show ?thesis
    using erase_at_map [OF h, of i] map_bodyD(5) [OF h]
    by (cases "i < length b"; cases "i = length b") (auto simp: matches_def ft_erase_at_def simp del: fun_upd_apply)
next
  case (Fm_erase_if p)
  then show ?thesis using erase_if_map [OF h, of p] by (auto simp: matches_def)
next
  case (Fm_insert_range mp vs)
  then show ?thesis using insert_range_map [OF h, of mp vs] by (auto simp: matches_def)
next
  case (Fm_assign vs)
  then show ?thesis using sort_and_unique_map [of vs] by (auto simp: matches_def ft_assign_def)
next
  case (Fm_replace vs)
  then show ?thesis
    by (cases "sorted_wrt (<) (map fst vs)")
      (simp_all add: ft_replace_def less_than.is_sorted_and_unique_ok flat_ok_keys matches_def map_body_def)
next
  case Fm_clear
  then show ?thesis by (simp add: matches_def map_body_def ft_clear_def)
qed

interpretation flat_map: observed_refinement map_body "fm_apply z" "map_op z" Inr entries for z :: 'm
  by unfold_locales (simp_all add: fm_apply_simulates map_bodyD(6))

section \<open>Ranges and fixed tables\<close>

text \<open>The elements of a range inserted one at a time.\<close>

fun insert_each :: "('k \<Rightarrow> 'k \<Rightarrow> bool) \<Rightarrow> ('v \<Rightarrow> 'k) \<Rightarrow> 'v list \<Rightarrow> 'v flat_tree \<Rightarrow> 'v flat_tree outcome" where
  "insert_each lt key [] b = Inr b"
| "insert_each lt key (v # vs) b = and_then (ft_insert lt key v b) (\<lambda>(r, b'). insert_each lt key vs b')"

context value_compare
begin

lemma insert_ok:
  assumes "flat_ok lt key b"
  shows "\<exists>r b'. ft_insert lt key v b = Inr (r, b') \<and> flat_ok lt key b' \<and>
    (\<forall>k. first_of lt key b' k =
      (case first_of lt key b k of Some w \<Rightarrow> Some w | None \<Rightarrow> if equiv_key lt (key v) k then Some v else None))"
proof -
  obtain i b' where b': "ft_insert lt key v b = Inr ((i, first_of lt key b (key v) = None), b')" "flat_ok lt key b'"
      "set b' = (if first_of lt key b (key v) = None then insert v (set b) else set b)"
    using emplace_key_args_ok [OF assms, of v "key v"] irrefl by (auto simp: equiv_key_def ft_insert_def)
  then show ?thesis using insert_one_first_of [OF assms b'(2,3)] by blast
qed

lemma insert_each_ok:
  assumes "flat_ok lt key b"
  shows "\<exists>b'. insert_each lt key vs b = Inr b' \<and> flat_ok lt key b' \<and>
    (\<forall>k. first_of lt key b' k = (case first_of lt key b k of Some w \<Rightarrow> Some w | None \<Rightarrow> first_of lt key vs k))"
  using assms
proof (induction vs arbitrary: b)
  case Nil
  then show ?case by (auto split: option.split)
next
  case (Cons v vs)
  obtain r b1 where b1: "ft_insert lt key v b = Inr (r, b1)" "flat_ok lt key b1"
      "\<forall>k. first_of lt key b1 k =
        (case first_of lt key b k of Some w \<Rightarrow> Some w | None \<Rightarrow> if equiv_key lt (key v) k then Some v else None)"
    using insert_ok [OF Cons.prems, of v] by blast
  obtain b2 where b2: "insert_each lt key vs b1 = Inr b2" "flat_ok lt key b2"
      "\<forall>k. first_of lt key b2 k = (case first_of lt key b1 k of Some w \<Rightarrow> Some w | None \<Rightarrow> first_of lt key vs k)"
    using Cons.IH [OF b1(2)] by blast
  have "first_of lt key b2 k = (case first_of lt key b k of Some w \<Rightarrow> Some w | None \<Rightarrow> first_of lt key (v # vs) k)" for k
    using spec [OF b1(3), of k] spec [OF b2(3), of k] by (cases "first_of lt key b k") simp_all
  then show ?case using b1(1) b2(1,2) by simp
qed

lemma first_of_determines:
  assumes "flat_ok lt key a" "flat_ok lt key b" "\<And>k. first_of lt key a k = first_of lt key b k"
  shows "a = b"
proof (rule flat_ok_eq [OF assms(1,2)])
  have m: "x \<in> set c \<longleftrightarrow> first_of lt key c (key x) = Some x" if "flat_ok lt key c" for c x
    using first_of_ordered [OF that, of "key x" x] irrefl by (simp add: equiv_key_def)
  show "set a = set b" by (simp add: set_eq_iff m [OF assms(1)] m [OF assms(2)] assms(3))
qed

end

lemma flat_ok_stable_sort:
  "flat_ok (<) key (stable_sort (value_comp (<) key) xs) \<longleftrightarrow> distinct (map key xs)" for key :: "'v \<Rightarrow> 'k :: linorder"
proof -
  let ?s = "stable_sort (value_comp (<) key) xs"
  have "sorted (map key ?s)" using less_than.stable_sort_weak [of key xs] by (simp add: weak_ok_def sorted_wrt_map not_less)
  moreover have "mset (map key ?s) = mset (map key xs)" by simp
  then have "distinct (map key ?s) \<longleftrightarrow> distinct (map key xs)" by (rule mset_eq_imp_distinct_iff)
  ultimately show ?thesis by (simp add: flat_ok_def strict_sorted_iff flip: sorted_wrt_map)
qed

text \<open>What the searches answer, in terms of the map.\<close>

lemma map_size:
  assumes "map_body b m"
  shows "ft_size b = card (dom m)" "ft_empty b = (m = Map.empty)"
proof -
  have "m = Map.empty \<longleftrightarrow> b = []" using assms by (auto simp: map_body_def)
  then show "ft_size b = card (dom m)" "ft_empty b = (m = Map.empty)"
    using map_bodyD(5) [OF assms] by (simp_all add: ft_size_def ft_empty_def)
qed

lemma map_search:
  assumes "map_body b m"
  shows "ft_contains (<) fst k b = (k \<in> dom m)" "ft_count (<) fst k b = card ({k} \<inter> dom m)"
    "fm_at (<) k b = (case m k of Some v \<Rightarrow> Inr v | None \<Rightarrow> Inl Check_failed)"
proof -
  note ok = map_bodyD(1) [OF assms] and f = map_bodyD(2) [OF assms, of k]
  note search = less_than.search_ok [OF ok, of k]
  show "ft_contains (<) fst k b = (k \<in> dom m)" using search(1) f by auto
  show "ft_count (<) fst k b = card ({k} \<inter> dom m)" using search(2) f by (cases "m k") (auto simp: Int_insert_left)
  show "fm_at (<) k b = (case m k of Some v \<Rightarrow> Inr v | None \<Rightarrow> Inl Check_failed)"
  proof (cases "m k")
    case None
    then show ?thesis using search(3) f by (simp add: fm_at_def)
  next
    case (Some v)
    then show ?thesis using search(4) [of "(k, v)"] f by (auto simp: fm_at_def)
  qed
qed

lemma card_keys:
  assumes "distinct (map fst xs)"
  shows "card (fst ` set xs) = length xs"
  using assms by (metis distinct_card length_map set_map)

lemma map_bounds:
  assumes "map_body b m"
  shows "ft_lower_bound (<) fst k b = card {j \<in> dom m. j < k}" "ft_upper_bound (<) fst k b = card {j \<in> dom m. j \<le> k}"
proof -
  have ok: "flat_ok (<) fst b" using map_bodyD(1) [OF assms] .
  have d: "dom m = fst ` set b" using assms dom_map_of_conv_image_fst [of b] by (simp add: map_body_def)
  have dist: "distinct (map fst b)" using ok by (simp add: flat_ok_keys strict_sorted_iff)
  have "ft_lower_bound (<) fst k b = card {j \<in> dom m. j < k} \<and> ft_upper_bound (<) fst k b = card {j \<in> dom m. j \<le> k}"
    using ok
  proof (cases rule: less_than.search_cases [where k = k])
    case (absent xs ys)
    have "{j \<in> dom m. j < k} = fst ` set xs" "{j \<in> dom m. j \<le> k} = fst ` set xs" using absent d by force+
    then show ?thesis using absent(1-3) card_keys [of xs] dist by simp
  next
    case (present xs y ys)
    have "{j \<in> dom m. j < k} = fst ` set xs" "{j \<in> dom m. j \<le> k} = fst ` set (xs @ [y])" using present d by force+
    then show ?thesis using present(1-3) card_keys [of xs] card_keys [of "xs @ [y]"] dist by simp
  qed
  then show "ft_lower_bound (<) fst k b = card {j \<in> dom m. j < k}" "ft_upper_bound (<) fst k b = card {j \<in> dom m. j \<le> k}"
    by blast+
qed

lemma value_comp_id: "value_comp lt id = lt"
  by (simp add: value_comp_def fun_eq_iff)

section \<open>Properties\<close>

text \<open>
  C5: a flat map is a map.  For any run of operations on an empty map (insertions with and without a hint,
  \<^verbatim>\<open>try_emplace\<close>, \<^verbatim>\<open>insert_or_assign\<close>, \<^verbatim>\<open>operator[]\<close>, ranges, assignment, replacement of the body, erasure by key, by
  position and by predicate) a fault occurs exactly where the specification has one (a hint or position past the end,
  a body that is not sorted), the vector after each operation lists the entries by ascending key, and every search
  on the final vector, a binary search, answers as the map does; \<^verbatim>\<open>at\<close> of an absent key stops the program.
\<close>

theorem flat_map_refines_map:
  "case run_all (observed (map_op z) (\<lambda>m. Inr (entries m))) Map.empty ops of
     Inl e \<Rightarrow> run_all (observed (fm_apply z) Inr) [] ops = Inl e
   | Inr (yss, m) \<Rightarrow> \<exists>b. run_all (observed (fm_apply z) Inr) [] ops = Inr (yss, b) \<and>
       ft_size b = card (dom m) \<and> ft_empty b = (m = Map.empty) \<and>
       ft_contains (<) fst k b = (k \<in> dom m) \<and> ft_count (<) fst k b = card ({k} \<inter> dom m) \<and>
       fm_at (<) k b = (case m k of Some v \<Rightarrow> Inr v | None \<Rightarrow> Inl Check_failed) \<and>
       ft_lower_bound (<) fst k b = card {j \<in> dom m. j < k} \<and> ft_upper_bound (<) fst k b = card {j \<in> dom m. j \<le> k}"
proof -
  have start: "map_body [] Map.empty" by (simp add: map_body_def)
  have final: "ft_size b = card (dom m) \<and> ft_empty b = (m = Map.empty) \<and>
      ft_contains (<) fst k b = (k \<in> dom m) \<and> ft_count (<) fst k b = card ({k} \<inter> dom m) \<and>
      fm_at (<) k b = (case m k of Some v \<Rightarrow> Inr v | None \<Rightarrow> Inl Check_failed) \<and>
      ft_lower_bound (<) fst k b = card {j \<in> dom m. j < k} \<and> ft_upper_bound (<) fst k b = card {j \<in> dom m. j \<le> k}"
    if "map_body b m" for b m
    using map_size [OF that] map_search [OF that, of k] map_bounds [OF that, of k] by simp
  show ?thesis
    using flat_map.run_refines [OF start, of z ops] by (auto split: sum.splits dest!: final)
qed

text \<open>An operation that returns, and leaves a body that is sorted and without equivalent elements.\<close>

definition keeps_order :: "('k \<Rightarrow> 'k \<Rightarrow> bool) \<Rightarrow> ('v \<Rightarrow> 'k) \<Rightarrow> ('r \<times> 'v flat_tree) outcome \<Rightarrow> bool" where
  "keeps_order lt key c = (case c of Inl e \<Rightarrow> False | Inr (r, b) \<Rightarrow> is_sorted_and_unique (value_comp lt key) b)"

definition makes_order :: "('k \<Rightarrow> 'k \<Rightarrow> bool) \<Rightarrow> ('v \<Rightarrow> 'k) \<Rightarrow> 'v flat_tree outcome \<Rightarrow> bool" where
  "makes_order lt key c = keeps_order lt key (map_outcome (Pair ()) c)"

context value_compare
begin

lemma keeps_orderI: "\<exists>r b. c = Inr (r, b) \<and> flat_ok lt key b \<Longrightarrow> keeps_order lt key c"
  by (auto simp: keeps_order_def is_sorted_and_unique_ok)

lemma makes_orderI: "\<exists>b. c = Inr b \<and> flat_ok lt key b \<Longrightarrow> makes_order lt key c"
  by (auto simp: makes_order_def keeps_order_def is_sorted_and_unique_ok)

lemma set_mapped_keeps:
  assumes "flat_ok lt fst b"
  shows "flat_ok lt fst (set_mapped i v b)"
proof -
  have "map fst (set_mapped i v b) = map fst b"
    by (cases "i < length b") (simp_all add: set_mapped_def map_update list_update_same_conv list_update_beyond)
  then show ?thesis using assms by (simp add: flat_ok_def flip: sorted_wrt_map [of lt fst])
qed

text \<open>Insertion, of an element into a tree and of a key with a value into a map.\<close>

lemma emplace_keeps:
  assumes "flat_ok lt key b"
  shows "keeps_order lt key (ft_insert lt key v b)"
    and "hint \<le> length b \<Longrightarrow> keeps_order lt key (ft_insert_hint lt key hint v b)"
proof -
  obtain r b' where ins: "ft_insert lt key v b = Inr (r, b')" "flat_ok lt key b'"
    using insert_ok [OF assms, of v] by blast
  then show "keeps_order lt key (ft_insert lt key v b)" by (intro keeps_orderI) blast
  assume "hint \<le> length b"
  with ins show "keeps_order lt key (ft_insert_hint lt key hint v b)"
    using emplace_hint_irrelevant [OF assms, of hint "key v" v]
    by (intro keeps_orderI, cases r) (simp add: ft_insert_hint_def ft_insert_def)
qed

lemma map_keeps:
  assumes "flat_ok lt fst c"
  shows "keeps_order lt fst (fm_subscript lt z k c)" "keeps_order lt fst (fm_insert_or_assign lt k w c)"
    "keeps_order lt fst (try_emplace lt k w c)"
    "hint \<le> length c \<Longrightarrow> keeps_order lt fst (fm_insert_or_assign_hint lt hint k w c)"
    "hint \<le> length c \<Longrightarrow> keeps_order lt fst (try_emplace_hint lt hint k w c)"
proof -
  have emp: "\<exists>i ins c'. emplace_key_args lt fst k (k, w) c = Inr ((i, ins), c') \<and> flat_ok lt fst c'" for w
    using emplace_key_args_ok [OF assms, of "(k, w)" k] irrefl by (auto simp: equiv_key_def)
  have "fm_subscript lt z k c = map_outcome (\<lambda>((it, inserted), c'). (it, c')) (emplace_key_args lt fst k (k, z) c)"
    by (simp add: fm_subscript_def emplace_key_args_def unsafe_emplace_def defined_if_def Let_def)
  then show "keeps_order lt fst (fm_subscript lt z k c)"
    using emp [of z] by (intro keeps_orderI) auto
  show "keeps_order lt fst (fm_insert_or_assign lt k w c)" "keeps_order lt fst (try_emplace lt k w c)"
    using emp [of w] by (auto intro!: keeps_orderI simp: fm_insert_or_assign_def try_emplace_def set_mapped_keeps)
  show "keeps_order lt fst (fm_insert_or_assign_hint lt hint k w c)"
    "keeps_order lt fst (try_emplace_hint lt hint k w c)" if "hint \<le> length c"
    using emp [of w] emplace_hint_irrelevant [OF assms that, of k "(k, w)"]
    by (auto intro!: keeps_orderI simp: fm_insert_or_assign_hint_def try_emplace_hint_def set_mapped_keeps)
qed

lemma erase_keeps:
  assumes "flat_ok lt key b"
  shows "i < length b \<Longrightarrow> keeps_order lt key (ft_erase_at i b)"
    "first \<le> last_it \<Longrightarrow> last_it \<le> length b \<Longrightarrow> keeps_order lt key (ft_erase_range first last_it b)"
    "keeps_order lt key (ft_erase_key lt key k b)" "keeps_order lt key (EraseIf pred b)"
proof -
  show "keeps_order lt key (ft_erase_at i b)" if "i < length b"
    using erase_at_ok(1,2) [OF assms that] by (intro keeps_orderI) blast
  show "keeps_order lt key (ft_erase_range first last_it b)" if "first \<le> last_it" "last_it \<le> length b"
    using flat_ok_cut(3) [OF assms that(1)] that by (intro keeps_orderI) (simp add: ft_erase_range_def)
  show "keeps_order lt key (ft_erase_key lt key k b)"
    using erase_key_ok [OF assms, of k] by (intro keeps_orderI) blast
  show "keeps_order lt key (EraseIf pred b)"
    using EraseIf_ok [OF assms, of pred] by (intro keeps_orderI) blast
qed

end

text \<open>
  C37: with any strict weak order on keys, every operation that changes a flat tree or a flat map keeps it sorted and without
  equivalent elements, an empty one included: insertion of an element, with or without a hint inside the tree, and of a range;
  erasure at a position, of a range of positions, of a key and by a predicate; assignment of a list; clearing, extracting and
  swapping; and on a map the subscript, \<^verbatim>\<open>insert_or_assign\<close> and \<^verbatim>\<open>try_emplace\<close>, with and without a hint.  Building from a
  list establishes it; replacing the body and building from a list declared to be sorted accept it exactly when it is.
\<close>

theorem flat_tree_keeps_order:
  assumes "value_compare lt" "is_sorted_and_unique (value_comp lt key) b" "is_sorted_and_unique (value_comp lt key) d"
    and "is_sorted_and_unique (value_comp lt fst) c"
  shows "keeps_order lt key (ft_insert lt key v b) \<and>
    (hint \<le> length b \<longrightarrow> keeps_order lt key (ft_insert_hint lt key hint v b)) \<and>
    makes_order lt key (ft_insert_range lt key multipass vs b) \<and>
    (i < length b \<longrightarrow> keeps_order lt key (ft_erase_at i b)) \<and>
    (first \<le> last_it \<and> last_it \<le> length b \<longrightarrow> keeps_order lt key (ft_erase_range first last_it b)) \<and>
    keeps_order lt key (ft_erase_key lt key k b) \<and> keeps_order lt key (EraseIf pred b) \<and>
    makes_order lt key (ft_assign lt key vs b) \<and> makes_order lt key (Inr (ft_clear b)) \<and>
    keeps_order lt key (Inr (ft_extract b)) \<and>
    makes_order lt key (Inr (fst (ft_swap (b, d)))) \<and> makes_order lt key (Inr (snd (ft_swap (b, d)))) \<and>
    keeps_order lt fst (fm_subscript lt z k c) \<and>
    keeps_order lt fst (fm_insert_or_assign lt k w c) \<and> keeps_order lt fst (try_emplace lt k w c) \<and>
    (hint \<le> length c \<longrightarrow> keeps_order lt fst (fm_insert_or_assign_hint lt hint k w c)) \<and>
    (hint \<le> length c \<longrightarrow> keeps_order lt fst (try_emplace_hint lt hint k w c)) \<and>
    makes_order lt key (flat_tree_range lt key vs) \<and>
    (let accepted = (if is_sorted_and_unique (value_comp lt key) vs then Inr vs else Inl Dcheck_failed)
     in ft_replace lt key vs b = accepted \<and> flat_tree_sorted lt key vs = accepted)"
proof -
  note sorted = value_compare.is_sorted_and_unique_ok [OF assms(1)]
  have ok: "flat_ok lt key b" "flat_ok lt key d" "flat_ok lt fst c" using assms(2-4) by (simp_all add: sorted)
  note make = value_compare.makes_orderI [OF assms(1)] and keep = value_compare.keeps_orderI [OF assms(1)]
  have "makes_order lt key (ft_insert_range lt key multipass vs b)"
    using value_compare.range_insertion_ok [OF assms(1) ok(1)] by (intro make) blast
  moreover have "makes_order lt key (ft_assign lt key vs b)" "makes_order lt key (flat_tree_range lt key vs)"
    using value_compare.sort_and_unique_ok [OF assms(1), of 0 vs key]
    by (auto intro!: make simp: ft_assign_def flat_tree_range_def)
  moreover have "makes_order lt key (Inr (ft_clear b))" "keeps_order lt key (Inr (ft_extract b))"
    "makes_order lt key (Inr (fst (ft_swap (b, d))))" "makes_order lt key (Inr (snd (ft_swap (b, d))))"
    using ok by (auto intro!: make keep simp: ft_clear_def ft_extract_def ft_swap_def)
  ultimately show ?thesis
    using value_compare.emplace_keeps [OF assms(1) ok(1)] value_compare.erase_keeps [OF assms(1) ok(1)]
      value_compare.map_keeps [OF assms(1) ok(3)]
    by (simp add: ft_replace_def flat_tree_sorted_def dcheck_def)
qed

text \<open>Numbers compared by their last digit: distinct numbers can be equivalent.\<close>

lemma last_digit_compare: "value_compare (\<lambda>a b. a mod 10 < (b mod 10 :: nat))"
  by unfold_locales auto

theorem flat_tree_keeps_order_witness:
  "keeps_order (\<lambda>a b. a mod 10 < (b mod 10 :: nat)) id (ft_insert (\<lambda>a b. a mod 10 < b mod 10) id 23 []) \<and>
   keeps_order (\<lambda>a b. a mod 10 < (b mod 10 :: nat)) fst (fm_subscript (\<lambda>a b. a mod 10 < b mod 10) True 23 [(11, False)])"
  using flat_tree_keeps_order [OF last_digit_compare, of id "[]" "[]" "[(11, False)]" 23 0 True "[]" 0 0 0 23 "\<lambda>x. True" True True]
  by simp

text \<open>
  C38: inserting a range, which appends, sorts, removes duplicates and merges, gives the tree that inserting its
  elements one after the other gives, and so does building a tree from a list: of equivalent
  elements the one already there stays, or else the first of the range.
\<close>

theorem flat_tree_range_one_by_one:
  assumes "value_compare lt" "is_sorted_and_unique (value_comp lt key) b"
  shows "ft_insert_range lt key multipass vs b = insert_each lt key vs b \<and> flat_tree_range lt key vs = insert_each lt key vs []"
proof -
  have ok: "flat_ok lt key b" using assms(2) value_compare.is_sorted_and_unique_ok [OF assms(1), of key b] by blast
  obtain b1 b2 where b: "ft_insert_range lt key multipass vs b = Inr b1" "insert_each lt key vs b = Inr b2"
      "flat_ok lt key b1" "flat_ok lt key b2" "\<And>k. first_of lt key b1 k = first_of lt key b2 k"
    using value_compare.range_insertion_ok [OF assms(1) ok, of multipass vs] value_compare.insert_each_ok [OF assms(1) ok, of vs]
    by auto
  have e: "flat_ok lt key []" by simp
  obtain c1 c2 where c: "flat_tree_range lt key vs = Inr c1" "insert_each lt key vs [] = Inr c2"
      "flat_ok lt key c1" "flat_ok lt key c2" "\<And>k. first_of lt key c1 k = first_of lt key c2 k"
    using value_compare.sort_and_unique_ok [OF assms(1), of 0 vs key] value_compare.insert_each_ok [OF assms(1) e, of vs]
    by (auto simp: flat_tree_range_def)
  show ?thesis
    using b(1,2) c(1,2) value_compare.first_of_determines [OF assms(1) b(3-5)]
      value_compare.first_of_determines [OF assms(1) c(3-5)] by simp
qed

theorem flat_tree_range_one_by_one_witness:
  "ft_insert_range (\<lambda>a b. a mod 10 < (b mod 10 :: nat)) id True [35, 12, 5, 11] [21, 43] =
     insert_each (\<lambda>a b. a mod 10 < b mod 10) id [35, 12, 5, 11] [21, 43]"
  using flat_tree_range_one_by_one [OF last_digit_compare, of id "[21, 43]" True "[35, 12, 5, 11]"]
  by (simp add: value_comp_def)

text \<open>
  C39: a table fixed at compile time is accepted exactly when its keys are distinct, and is then the table sorted by
  key; otherwise the program stops at the check.
\<close>

theorem fixed_tables:
  fixes data :: "('k :: linorder \<times> 'm) list"
  shows "MakeFixedFlatMap (<) data = (if distinct (map fst data) then Inr (entries (map_of data)) else Inl Check_failed) \<and>
    MakeFixedFlatSet (<) keys = (if distinct keys then Inr (sorted_list_of_set (set keys)) else Inl Check_failed)"
proof
  let ?s = "stable_sort (value_comp (<) fst) data"
  have "map_body ?s (map_of data)" if "distinct (map fst data)"
  proof (rule map_bodyI)
    show "flat_ok (<) fst ?s" using that by (simp add: flat_ok_stable_sort)
    show "map_of data k = Some v \<longleftrightarrow> (k, v) \<in> set ?s" for k v using that by simp
  qed
  then show "MakeFixedFlatMap (<) data = (if distinct (map fst data) then Inr (entries (map_of data)) else Inl Check_failed)"
    using map_bodyD(6) [of ?s "map_of data"]
    by (simp add: MakeFixedFlatMap_def flat_tree_sorted_def less_than.InsertionSort_stable
        less_than.is_sorted_and_unique_ok flat_ok_stable_sort)
  let ?k = "stable_sort (value_comp (<) id) keys"
  have "?k = sorted_list_of_set (set keys)" if "distinct keys"
  proof -
    have "flat_ok (<) id ?k" using that by (simp add: flat_ok_stable_sort)
    then have "sorted ?k" "distinct ?k" by (simp_all add: flat_ok_def strict_sorted_iff)
    then show ?thesis by (metis set_stable_sort sorted_list_of_set.idem_if_sorted_distinct)
  qed
  then show "MakeFixedFlatSet (<) keys = (if distinct keys then Inr (sorted_list_of_set (set keys)) else Inl Check_failed)"
    using flat_ok_stable_sort [of id keys] less_than.InsertionSort_stable [of id keys] less_than.is_sorted_and_unique_ok [of id ?k]
    by (cases "distinct keys") (simp_all add: MakeFixedFlatSet_def flat_tree_sorted_def value_comp_id Let_def)
qed

end
