(* ===== verification/Spec2Isabelle.thy ===== *)
theory Spec2Isabelle
  imports Mod_Ops Common_Types Units Byte_IO Swap_Queue Buffer Used_Ids Moving_Max Percentile Rolling Deque_Edit Heap_Client Flat_Map
begin

text \<open>
  \<^bold>\<open>What is verified.\<close>  The repository ships WebRTC for Android as prebuilt libraries and the C++ headers
  under \<^verbatim>\<open>src/include\<close>.  Most headers only declare what the libraries hold; the code that can be read is
  the code the headers define: templates, inline functions and small classes.  This library models
  the parts of it that carry an algorithm or a data structure of their own, and proves that they do
  what their callers rely on.  Definitions keep the names of the source.

  \<^bold>\<open>Conventions.\<close>  \<^verbatim>\<open>Prelude\<close> holds what all theories share.  An operation that can stop the program or
  run into undefined behaviour returns an \<open>outcome\<close>: \<open>Inr\<close> of its result, or \<open>Inl\<close> of a fault, which is a
  failed \<^verbatim>\<open>DCHECK\<close>, a failed \<^verbatim>\<open>CHECK\<close> or undefined behaviour (signed overflow, a shift out of range, a
  read of a slot that holds no object).  The checks are modelled as enabled; a theorem that an
  operation returns \<open>Inr\<close> therefore also says that no check fails and nothing is undefined.
  Unsigned integers whose wrap-around matters are words, signed integers are \<open>int\<close> with an explicit range check
  at every operation that can overflow.  Sizes and indices of buffers and containers are \<open>nat\<close>: their sums are taken to stay
  below the limit of \<^verbatim>\<open>size_t\<close>.  \<^verbatim>\<open>Refinement\<close> holds the locale
  \<open>observed_refinement\<close>: an operation on a concrete state that matches one on an abstract state, fault for
  fault and observation for observation, does so over every run.

  \<^bold>\<open>Numbers on a circle.\<close>  \<^verbatim>\<open>Mod_Ops\<close> (\<^verbatim>\<open>rtc_base/numerics/mod_ops.h\<close>): addition, subtraction and distances
  modulo any modulus of any unsigned width.  \<^verbatim>\<open>Seq_Num\<close> (\<^verbatim>\<open>rtc_base/numerics/sequence_number_util.h\<close>): the
  order on sequence numbers is a trichotomy, the comparators are strict orders within half a turn,
  and the unwrapper recovers the stream its input was cut from.  \<^verbatim>\<open>Common_Types\<close>
  (\<^verbatim>\<open>modules/include/module_common_types_public.h\<close>): the same for the older unwrapper, and the equality of
  the two notions of newer.

  \<^bold>\<open>Conversions and units.\<close>  \<^verbatim>\<open>Safe_Conversions\<close> (\<^verbatim>\<open>rtc_base/numerics/safe_conversions.h\<close>): saturation between
  all integral types.  \<^verbatim>\<open>Unit_Base\<close> and \<^verbatim>\<open>Units\<close> (\<^verbatim>\<open>rtc_base/units/unit_base.h\<close>, \<^verbatim>\<open>api/units\<close>): time, size,
  rate and frequency as 64-bit values with two infinities; arithmetic is that of the extended
  integers, fractions and products are rounded to nearest inside stated bounds and overflow outside
  them, and rounding to a resolution goes the wrong way on negative values.

  \<^bold>\<open>Bytes.\<close>  \<^verbatim>\<open>Byte_IO\<close> (\<^verbatim>\<open>modules/rtp_rtcp/source/byte_io.h\<close>): every reader and writer of every size, round trips
  and the equivalence of the unrolled versions with the loops.  \<^verbatim>\<open>Buffer\<close> (\<^verbatim>\<open>rtc_base/buffer.h\<close>): the
  growable buffer, its moved-from states, and that a buffer that zeroes on free leaves no byte of its
  data in any block it releases.

  \<^bold>\<open>Queues and containers.\<close>  \<^verbatim>\<open>Swap_Queue\<close> (\<^verbatim>\<open>rtc_base/swap_queue.h\<close>): the lock-free queue as atomic calls,
  refining a bounded first-in first-out queue, and as the interleaving of a producer and a consumer
  at each shared access: no slot is touched by both, and what comes out is what went in, in order.
  \<^verbatim>\<open>Vector_Buffer\<close>, \<^verbatim>\<open>Circular_Deque\<close>, \<^verbatim>\<open>Deque_Spec\<close>, \<^verbatim>\<open>Deque_Edit\<close> (\<^verbatim>\<open>base/containers/vector_buffer.h\<close>,
  \<^verbatim>\<open>circular_deque.h\<close>): a deque over a block of slots each of which holds an object or raw memory;
  every operation refines the one on lists, every object is constructed and destroyed exactly once,
  iterators are checked by generation, and no loop that walks from one iterator to another runs on.  \<^verbatim>\<open>Intrusive_Heap\<close>, \<^verbatim>\<open>Heap_Order\<close>, \<^verbatim>\<open>Heap_Ops\<close>, \<^verbatim>\<open>Heap_Client\<close>
  (\<^verbatim>\<open>base/containers/intrusive_heap.h\<close>): a binary heap whose elements know their position; the locale
  \<open>value_compare\<close> of \<^verbatim>\<open>Weak_Order\<close> is the strict weak order that the heap and the flat containers ask of
  their comparison, and the invariants of the hole that travels through the vector are proved over
  it.  \<^verbatim>\<open>Flat_Tree\<close>, \<^verbatim>\<open>Flat_Order\<close>, \<^verbatim>\<open>Flat_Build\<close>, \<^verbatim>\<open>Flat_Map\<close> (\<^verbatim>\<open>base/containers/flat_tree.h\<close>, \<^verbatim>\<open>flat_map.h\<close>,
  \<^verbatim>\<open>fixed_flat_map.h\<close>, \<^verbatim>\<open>fixed_flat_set.h\<close>): sets and maps kept as a sorted vector; searches, insertion with
  and without a hint, insertion of a range and erasure keep the vector sorted without duplicates,
  a run of operations on a map refines the one on a partial function, inserting a range is inserting
  its elements one by one, and the tables built at compile time hold exactly their entries.

  \<^bold>\<open>Ids and statistics.\<close>  \<^verbatim>\<open>Used_Ids\<close> (\<^verbatim>\<open>pc/used_ids.h\<close>): payload types and header extension ids stay
  distinct and inside their ranges, and what happens when the range is exhausted.  \<^verbatim>\<open>Moving_Max\<close>, \<^verbatim>\<open>Percentile\<close>,
  \<^verbatim>\<open>Rolling\<close> (\<^verbatim>\<open>rtc_base/numerics/moving_max_counter.h\<close>, \<^verbatim>\<open>percentile_filter.h\<close>, \<^verbatim>\<open>moving_median_filter.h\<close>,
  \<^verbatim>\<open>rtc_base/rolling_accumulator.h\<close>): each incremental filter gives the value recomputed from its window.  \<^verbatim>\<open>Single_Float\<close> is the single
  precision arithmetic the percentile filter uses, with its rounding: it selects one of the observations up to \<open>2 ^ 24 + 3\<close> of
  them, and leaves the container with one more.

  \<^bold>\<open>Loops.\<close>  Every loop of the source is a total function: a structural recursion, or a \<open>function\<close> with a
  measure.  The loops of the deque that run until two iterators meet carry the capacity as fuel; that
  it is enough is part of the lemmas on them, since running out is a fault and they are proved to
  return \<open>Inr\<close>.

  \<^bold>\<open>Not modelled.\<close>  The libraries under \<^verbatim>\<open>src/lib\<close> are binaries.  The headers under \<^verbatim>\<open>third_party\<close> are other
  projects.  Headers that only declare interfaces, options and statistics (most of \<^verbatim>\<open>api\<close>, \<^verbatim>\<open>call\<close>, \<^verbatim>\<open>media\<close>,
  \<^verbatim>\<open>pc\<close>, \<^verbatim>\<open>p2p\<close>, \<^verbatim>\<open>sdk\<close>, \<^verbatim>\<open>video\<close>, \<^verbatim>\<open>audio\<close>, \<^verbatim>\<open>logging\<close>) have no bodies to translate.  Some headers with inline code
  of their own are not covered, among them \<^verbatim>\<open>rtc_base/copy_on_write_buffer.h\<close>, \<^verbatim>\<open>base/containers/mru_cache.h\<close> and
  \<^verbatim>\<open>spl_inl.h\<close>.  The floating point overloads of the units and conversions, the mean and variance of the rolling accumulator, string formatting, logging, threads, sockets and platform code are left out.
\<close>

end
